(* ===== verification/Gotu_Prelude.thy ===== *)
theory Gotu_Prelude
  imports Main "HOL-Library.Word" "HOL-Library.Multiset"
begin

text \<open>
  Shared vocabulary of the development: the Go values the code works with (bytes, fixed
  width integers, errors, calls that may panic), Go's slice expression with its run time
  check, and reachability of a step relation with the invariant rule the components use.
\<close>

section \<open>Go values\<close>

type_synonym byte = "8 word"
type_synonym bytes = "byte list"
type_synonym i32 = "32 word"
type_synonym i64 = "64 word"
type_synonym u32 = "32 word"
type_synonym u64 = "64 word"

text \<open>
  The errors the code returns. The constructors carry what the message is formatted from;
  \<open>ExtErr\<close> is an error that comes from outside the repository (a connection, a user handler).
\<close>

datatype go_error =
    IoEOF
  | IoUnexpectedEOF
  | ErrClosedPipe
  | ErrNetClosed
  | SockAlreadyClose
  | MsgOverflow
  | SessionAlreadyClose
  | SessionOverflow
  | StateNotEstablished i32
  | InlineInvalid i32 i32 bool
  | MuxInitTimeout i32
  | CancelRequest
  | HandlerNil
  | ReqNotType
  | ResultNotType
  | ActorRepeated string
  | ActorNil string
  | SyncRepeated "nat option"
  | AsyncRepeated "nat option"
  | CannotFindHandler i32
  | BinaryInvalidType
  | MsgNotEnough nat nat
  | ModeInvalid int
  | ExtErr string

text \<open>The run time panics the code can raise.\<close>

datatype go_panic =
    SliceBounds
  | NilDeref
  | InterfaceConversion
  | CloseOfClosed
  | NegativeWaitGroup
  | InvalidRandArg
  | CmdRepeated i32
  | DivideByZero
  | UserPanic string

text \<open>A call returns a value or panics.\<close>

datatype 'a go = Ret (the_ret: 'a) | Panic go_panic

fun go_bind :: "'a go \<Rightarrow> ('a \<Rightarrow> 'b go) \<Rightarrow> 'b go" where
  "go_bind (Ret x) f = f x"
| "go_bind (Panic p) f = Panic p"

definition no_panic :: "'a go \<Rightarrow> bool" where
  "no_panic r = (case r of Ret _ \<Rightarrow> True | Panic _ \<Rightarrow> False)"

lemma no_panic_simps [simp]: "no_panic (Ret x)" "\<not> no_panic (Panic p)"
  by (simp_all add: no_panic_def)

lemma go_bind_assoc [simp]: "go_bind (go_bind m f) g = go_bind m (\<lambda>x. go_bind (f x) g)"
  by (cases m) simp_all

lemma go_bind_Ret_right [simp]: "go_bind m Ret = m"
  by (cases m) simp_all

lemma go_bind_eq_Ret:
  "go_bind m f = Ret y \<longleftrightarrow> (\<exists>x. m = Ret x \<and> f x = Ret y)"
  by (cases m) simp_all

section \<open>Slice expressions\<close>

text \<open>
  \<open>s[lo:hi]\<close> of a Go slice: \<open>xs\<close> are the elements up to its length, \<open>spare\<close> the elements of
  the backing array between its length and its capacity. The run time check is against the
  capacity, so a slice expression may reach into \<open>spare\<close>; outside it panics.
\<close>

definition go_slice :: "'a list \<Rightarrow> 'a list \<Rightarrow> int \<Rightarrow> int \<Rightarrow> 'a list go" where
  "go_slice xs spare lo hi =
     (if 0 \<le> lo \<and> lo \<le> hi \<and> hi \<le> int (length xs + length spare)
      then Ret (take (nat hi - nat lo) (drop (nat lo) (xs @ spare)))
      else Panic SliceBounds)"

text \<open>\<open>s[lo:]\<close>: the upper bound is the length.\<close>

definition go_slice_from :: "'a list \<Rightarrow> int \<Rightarrow> 'a list go" where
  "go_slice_from xs lo =
     (if 0 \<le> lo \<and> lo \<le> int (length xs) then Ret (drop (nat lo) xs) else Panic SliceBounds)"

lemma go_slice_within:
  "lo \<le> hi \<Longrightarrow> hi \<le> length xs \<Longrightarrow>
     go_slice xs spare (int lo) (int hi) = Ret (take (hi - lo) (drop lo xs))"
  by (simp add: go_slice_def)

lemma go_slice_prefix [simp]:
  "n \<le> length xs \<Longrightarrow> go_slice xs spare 0 (int n) = Ret (take n xs)"
  using go_slice_within [of 0 n xs spare] by simp

lemma go_slice_reversed: "hi < lo \<Longrightarrow> go_slice xs spare lo hi = Panic SliceBounds"
  by (simp add: go_slice_def)

lemma go_slice_length:
  assumes "go_slice xs spare lo hi = Ret ys"
  shows "length ys = nat hi - nat lo"
proof -
  from assms have hi: "hi \<le> int (length xs) + int (length spare)"
    and ys: "ys = take (nat hi - nat lo) (drop (nat lo) (xs @ spare))"
    by (auto simp: go_slice_def simp del: drop_append take_append split: if_splits)
  from hi have "nat hi \<le> length (xs @ spare)" by simp
  with ys show ?thesis by (simp del: drop_append take_append)
qed

section \<open>Lists\<close>

lemma take_drop_append_exact [simp]:
  "length a = n \<Longrightarrow> take n (a @ b) = a" "length a = n \<Longrightarrow> drop n (a @ b) = b"
  by auto

lemma take_drop_append [simp]: "take n xs @ drop n xs @ ys = xs @ ys"
  by (simp flip: append_assoc)

lemma length_filter_zip_snd:
  "length xs = length ys \<Longrightarrow> length (filter (\<lambda>(x, y). P y) (zip xs ys)) = length (filter P ys)"
  by (induction xs ys rule: list_induct2) auto

text \<open>A sum of which one term changes.\<close>

lemma sum_point:
  fixes f g :: "nat \<Rightarrow> nat"
  assumes "a < n" and "\<And>b. b \<noteq> a \<Longrightarrow> g b = f b"
  shows "(\<Sum>b < n. g b) + f a = (\<Sum>b < n. f b) + g a"
proof -
  have "(\<Sum>b < n. h b) = h a + (\<Sum>b \<in> {..<n} - {a}. h b)" for h :: "nat \<Rightarrow> nat"
    using assms(1) by (intro sum.remove) auto
  moreover have "(\<Sum>b \<in> {..<n} - {a}. g b) = (\<Sum>b \<in> {..<n} - {a}. f b)" by (rule sum.cong) (auto simp: assms(2))
  ultimately show ?thesis by simp
qed

section \<open>Words\<close>

lemma sint_add_i64:
  fixes x y :: i64
  assumes "0 \<le> sint x" and "0 \<le> sint y" and "sint x + sint y < 2 ^ 63"
  shows "sint (x + y) = sint x + sint y"
proof -
  have "sint (x + y) = signed_take_bit 63 (sint x + sint y)" by (simp add: sint_word_ariths)
  also have "\<dots> = sint x + sint y" using assms by (intro signed_take_bit_int_eq_self) auto
  finally show ?thesis .
qed

section \<open>Reachability and invariants\<close>

text \<open>The states a step relation reaches from its initial states.\<close>

inductive reachable :: "('s \<Rightarrow> bool) \<Rightarrow> ('s \<Rightarrow> 's \<Rightarrow> bool) \<Rightarrow> 's \<Rightarrow> bool"
  for init step where
  reach_init: "init s \<Longrightarrow> reachable init step s"
| reach_step: "reachable init step s \<Longrightarrow> step s t \<Longrightarrow> reachable init step t"

text \<open>Reachability with a start state, for liveness claims.\<close>

inductive steps :: "('s \<Rightarrow> 's \<Rightarrow> bool) \<Rightarrow> 's \<Rightarrow> 's \<Rightarrow> bool"
  for step where
  steps_refl: "steps step s s"
| steps_trans: "step s t \<Longrightarrow> steps step t u \<Longrightarrow> steps step s u"

lemma steps_one: "step s t \<Longrightarrow> steps step s t"
  by (blast intro: steps.intros)

lemma steps_append: "steps step s t \<Longrightarrow> steps step t u \<Longrightarrow> steps step s u"
  by (induction rule: steps.induct) (auto intro: steps.intros)

lemma reachable_steps: "steps step s t \<Longrightarrow> reachable init step s \<Longrightarrow> reachable init step t"
  by (induction rule: steps.induct) (auto intro: reachable.intros)

text \<open>
  Termination under every schedule: all runs from a state are finite, and those that cannot go on have ended in \<open>Q\<close>. It is
  more than that some run ends in \<open>Q\<close>.
\<close>

inductive runs_end :: "('s \<Rightarrow> 's \<Rightarrow> bool) \<Rightarrow> ('s \<Rightarrow> bool) \<Rightarrow> 's \<Rightarrow> bool"
  for step Q where
  runs_endI: "(\<And>t. step s t \<Longrightarrow> runs_end step Q t) \<Longrightarrow> (\<forall>t. \<not> step s t) \<longrightarrow> Q s \<Longrightarrow> runs_end step Q s"

lemma runs_end_steps: "steps step s t \<Longrightarrow> runs_end step Q s \<Longrightarrow> runs_end step Q t"
  by (induction rule: steps.induct) (auto elim: runs_end.cases)

lemma runs_end_stuck: "runs_end step Q s \<Longrightarrow> \<forall>t. \<not> step s t \<Longrightarrow> Q s"
  by (auto elim: runs_end.cases)

lemma runs_end_reaches: "runs_end step Q s \<Longrightarrow> \<exists>t. steps step s t \<and> Q t \<and> (\<forall>u. \<not> step t u)"
proof (induction rule: runs_end.induct)
  case (runs_endI s)
  then show ?case by (cases "\<exists>t. step s t") (blast intro: steps.intros)+
qed

lemma runs_end_mono: "runs_end step Q s \<Longrightarrow> (\<And>t. Q t \<Longrightarrow> R t) \<Longrightarrow> runs_end step R s"
  by (induction rule: runs_end.induct) (blast intro: runs_end.runs_endI)

lemma runs_end_finite: "runs_end step Q s \<Longrightarrow> f 0 = s \<Longrightarrow> \<exists>n. \<not> step (f n) (f (Suc n))"
proof (induction arbitrary: f rule: runs_end.induct)
  case (runs_endI s)
  show ?case
  proof (rule ccontr)
    assume "\<nexists>n. \<not> step (f n) (f (Suc n))"
    then have all: "step (f n) (f (Suc n))" for n by simp
    have "step s (f 1)" using all [of 0] runs_endI.prems by simp
    from runs_endI.IH [OF this, of "\<lambda>n. f (Suc n)"] all show False by simp
  qed
qed

text \<open>The definition says that.\<close>

lemma runs_end_iff:
  "runs_end step Q s \<longleftrightarrow> (\<forall>f. f 0 = s \<longrightarrow> (\<exists>n. \<not> step (f n) (f (Suc n))))
     \<and> (\<forall>t. steps step s t \<and> (\<forall>u. \<not> step t u) \<longrightarrow> Q t)"
proof
  assume ends: "(\<forall>f. f 0 = s \<longrightarrow> (\<exists>n. \<not> step (f n) (f (Suc n)))) \<and> (\<forall>t. steps step s t \<and> (\<forall>u. \<not> step t u) \<longrightarrow> Q t)"
  show "runs_end step Q s"
  proof (rule ccontr)
    assume no: "\<not> runs_end step Q s"
    have "\<exists>f. \<forall>n. (steps step s (f n) \<and> \<not> runs_end step Q (f n) \<and> (n = 0 \<longrightarrow> f n = s)) \<and> step (f n) (f (Suc n))"
    proof (rule dependent_nat_choice)
      fix x :: 'a and n :: nat
      assume x: "steps step s x \<and> \<not> runs_end step Q x \<and> (n = 0 \<longrightarrow> x = s)"
      then have "\<exists>t. step x t \<and> \<not> runs_end step Q t" using ends by (blast intro: runs_end.runs_endI)
      with x show "\<exists>y. (steps step s y \<and> \<not> runs_end step Q y \<and> (Suc n = 0 \<longrightarrow> y = s)) \<and> step x y"
        by (blast intro: steps_append steps_one)
    qed (use no in \<open>blast intro: steps_refl\<close>)
    with ends show False by blast
  qed
next
  assume r: "runs_end step Q s"
  have "\<exists>n. \<not> step (f n) (f (Suc n))" if "f 0 = s" for f
    using r that by (rule runs_end_finite)
  moreover have "Q t" if "steps step s t" "\<forall>u. \<not> step t u" for t
    using runs_end_stuck [OF runs_end_steps [OF that(1) r] that(2)] .
  ultimately show "(\<forall>f. f 0 = s \<longrightarrow> (\<exists>n. \<not> step (f n) (f (Suc n)))) \<and> (\<forall>t. steps step s t \<and> (\<forall>u. \<not> step t u) \<longrightarrow> Q t)"
    by simp
qed

text \<open>
  The contract between a component's step relation and an invariant: it holds initially and
  every step keeps it. The component proves the two laws; reachable states then satisfy it.
\<close>

locale inductive_invariant =
  fixes init :: "'s \<Rightarrow> bool"
    and step :: "'s \<Rightarrow> 's \<Rightarrow> bool"
    and inv :: "'s \<Rightarrow> bool"
  assumes inv_init: "init s \<Longrightarrow> inv s"
    and inv_step: "inv s \<Longrightarrow> step s t \<Longrightarrow> inv t"
begin

lemma inv_reachable: "reachable init step s \<Longrightarrow> inv s"
  by (induction rule: reachable.induct) (auto intro: inv_init inv_step)

lemma inv_steps: "steps step s t \<Longrightarrow> inv s \<Longrightarrow> inv t"
  by (induction rule: steps.induct) (auto intro: inv_step)

end

text \<open>
  A stronger contract: besides the invariant, every step that is not the environment's
  decreases a measure, and a state whose measure is not zero has such a step. Then a goal
  state (measure zero) is reached by program steps alone.
\<close>

locale progress_measure = inductive_invariant +
  fixes prog :: "'a \<Rightarrow> 'a \<Rightarrow> bool"
    and msr :: "'a \<Rightarrow> nat"
  assumes prog_step: "prog s t \<Longrightarrow> step s t"
    and prog_decreases: "inv s \<Longrightarrow> prog s t \<Longrightarrow> msr t < msr s"
    and prog_enabled: "inv s \<Longrightarrow> 0 < msr s \<Longrightarrow> \<exists>t. prog s t"
begin

lemma reaches_goal: "inv s \<Longrightarrow> \<exists>t. steps prog s t \<and> msr t = 0 \<and> inv t"
proof (induction "msr s" arbitrary: s rule: less_induct)
  case less
  show ?case
  proof (cases "msr s = 0")
    case True
    with less.prems show ?thesis by (blast intro: steps_refl)
  next
    case False
    with less.prems obtain t where t: "prog s t" using prog_enabled by auto
    with less.prems have "msr t < msr s" "inv t"
      by (auto intro: prog_decreases inv_step prog_step)
    with less.hyps t show ?thesis by (blast intro: steps_trans)
  qed
qed

lemma steps_prog_inv: "steps prog s t \<Longrightarrow> inv s \<Longrightarrow> inv t"
  by (induction rule: steps.induct) (auto intro: inv_step prog_step)

text \<open>Not only one run: every run reaches the goal, in at most \<open>msr s\<close> steps.\<close>

lemma every_run_ends:
  assumes "inv s" and "\<And>t. steps prog s t \<Longrightarrow> inv t \<Longrightarrow> msr t = 0 \<Longrightarrow> Q t"
  shows "runs_end prog Q s"
  using assms
proof (induction "msr s" arbitrary: s rule: less_induct)
  case less
  show ?case
  proof (rule runs_end.runs_endI)
    fix t assume t: "prog s t"
    with less.prems(1) have "msr t < msr s" "inv t" by (auto intro: prog_decreases inv_step prog_step)
    then show "runs_end prog Q t" using t by (intro less.hyps) (auto intro: less.prems(2) steps_trans)
  next
    have "msr s = 0" if "\<forall>t. \<not> prog s t" using prog_enabled [OF less.prems(1)] that by blast
    then show "(\<forall>t. \<not> prog s t) \<longrightarrow> Q s" using less.prems by (blast intro: steps_refl)
  qed
qed

end

end
