(* ===== verification/Send_Port.thy ===== *)
theory Send_Port
  imports Gotu_Prelude
begin

text \<open>
  The send side the sockets of \<open>pkg/xnet\<close> share. Every one of them has a bounded channel and a
  close channel and puts a message in with the same non-blocking \<open>select\<close>: \<open>SendMsg\<close> of the TCP
  and websocket sockets, \<open>send\<close> of the KCP socket, \<open>sendMsg\<close> of the UDP socket and \<open>recvMsg\<close> of the
  UDP session. The contract is the locale \<open>send_port\<close>; the sockets interpret it.
\<close>

section \<open>The select\<close>

text \<open>
  \<open>select { case ch <- m: ...; case <-closeCh: ...; default: ... }\<close>: the channel's case is ready
  while it holds fewer than \<open>cap\<close> messages, the close channel's case once it is closed. Go picks
  any ready case, and the default when there is none. The result is every possible outcome: the
  error returned and the channel's contents.
\<close>

definition select_send :: "nat \<Rightarrow> go_error \<Rightarrow> go_error \<Rightarrow> 'm list \<Rightarrow> bool \<Rightarrow> 'm \<Rightarrow>
    (go_error option \<times> 'm list) list" where
  "select_send cap closedErr fullErr ch closed m =
     (let ready = (if length ch < cap then [(None, ch @ [m])] else []) @
                  (if closed then [(Some closedErr, ch)] else [])
      in if ready = [] then [(Some fullErr, ch)] else ready)"

lemma select_send_not_Nil [simp]: "select_send cap ce fe ch closed m \<noteq> []"
  by (simp add: select_send_def Let_def)

lemma in_select_send:
  "(r, ch') \<in> set (select_send cap ce fe ch closed m) \<longleftrightarrow>
     (r = None \<and> length ch < cap \<and> ch' = ch @ [m]) \<or>
     (r = Some ce \<and> closed \<and> ch' = ch) \<or>
     (r = Some fe \<and> \<not> closed \<and> cap \<le> length ch \<and> ch' = ch)"
  by (auto simp: select_send_def Let_def)

text \<open>The capacity of the sockets' write channels.\<close>

definition writeChanLimit :: nat where
  "writeChanLimit = 200"

section \<open>The contract\<close>

locale send_port =
  fixes queue :: "'s \<Rightarrow> 'q list"
    and closed :: "'s \<Rightarrow> bool"
    and cap :: nat
    and closed_err full_err :: go_error
    and frame :: "'s \<Rightarrow> 'm \<Rightarrow> 'q"
    and send :: "'s \<Rightarrow> 'm \<Rightarrow> (go_error option \<times> 's) list"
  assumes never_blocks: "send s m \<noteq> []"
    and sent: "(None, s') \<in> set (send s m) \<Longrightarrow>
      length (queue s) < cap \<and> queue s' = queue s @ [frame s m] \<and> closed s' = closed s"
    and refused: "(Some e, s') \<in> set (send s m) \<Longrightarrow>
      s' = s \<and> (e = closed_err \<and> closed s \<or> e = full_err \<and> \<not> closed s \<and> cap \<le> length (queue s))"
    and room: "length (queue s) < cap \<Longrightarrow> \<exists>s'. (None, s') \<in> set (send s m)"
    and frame_stable: "(None, s') \<in> set (send s m) \<Longrightarrow> frame s' = frame s"
begin

lemma bounded: "length (queue s) \<le> cap \<Longrightarrow> (r, s') \<in> set (send s m) \<Longrightarrow> length (queue s') \<le> cap"
  by (cases r) (auto dest: sent refused)

text \<open>An open port with room accepts; a full open one overflows; there is no other outcome.\<close>

lemma open_room: "\<not> closed s \<Longrightarrow> length (queue s) < cap \<Longrightarrow> (r, s') \<in> set (send s m) \<Longrightarrow> r = None"
  by (cases r) (auto dest: refused)

lemma open_full: "\<not> closed s \<Longrightarrow> cap \<le> length (queue s) \<Longrightarrow> (r, s') \<in> set (send s m) \<Longrightarrow>
    r = Some full_err \<and> s' = s"
  by (cases r) (auto dest: sent refused)

lemma closed_full: "closed s \<Longrightarrow> cap \<le> length (queue s) \<Longrightarrow> (r, s') \<in> set (send s m) \<Longrightarrow>
    r = Some closed_err \<and> s' = s"
  by (cases r) (auto dest: sent refused)

text \<open>
  A series of sends with no receiver in between: \<open>sends s ms rs s'\<close>, the results in order. The
  accepted messages stand in the channel in the order they were sent.
\<close>

inductive sends :: "'s \<Rightarrow> 'm list \<Rightarrow> go_error option list \<Rightarrow> 's \<Rightarrow> bool" where
  sends_nil: "sends s [] [] s"
| sends_cons: "(r, s1) \<in> set (send s m) \<Longrightarrow> sends s1 ms rs s' \<Longrightarrow> sends s (m # ms) (r # rs) s'"

lemma sends_fifo:
  "sends s ms rs s' \<Longrightarrow>
     length rs = length ms \<and> closed s' = closed s \<and> frame s' = frame s \<and>
     queue s' = queue s @ map (\<lambda>(m, r). frame s m) (filter (\<lambda>(m, r). r = None) (zip ms rs))"
proof (induction rule: sends.induct)
  case (sends_nil s)
  then show ?case by simp
next
  case (sends_cons r s1 s m ms rs s')
  show ?case
  proof (cases r)
    case None
    with sends_cons sent [of s1 s m] frame_stable [of s1 s m] show ?thesis by auto
  next
    case (Some e)
    with sends_cons refused [of e s1 s m] show ?thesis by auto
  qed
qed

lemma sends_accepted:
  assumes "sends s ms rs s'" and "length (queue s) \<le> cap"
  shows "length (queue s') \<le> cap"
    and "length (filter (\<lambda>r. r = None) rs) \<le> cap - length (queue s)"
proof -
  show le: "length (queue s') \<le> cap"
    using assms by (induction rule: sends.induct) (auto dest: bounded)
  have "length (filter (\<lambda>(m, r). r = None) (zip ms rs)) = length (filter (\<lambda>r. r = None) rs)"
    using sends_fifo [OF assms(1)] by (intro length_filter_zip_snd) simp
  with sends_fifo [OF assms(1)] le show "length (filter (\<lambda>r. r = None) rs) \<le> cap - length (queue s)"
    by simp
qed

end

end
