(* ===== verification/Udp_Socket.thy ===== *)
theory Udp_Socket
  imports Send_Port
begin

text \<open>
  The UDP socket of \<open>pkg/xnet/udp_socket.go\<close>: a read goroutine that hands every datagram to a callback,
  a write goroutine that sends one datagram after another, and the shut down, in which the writer
  first sends what is queued and then closes the connection, which ends the reader.
\<close>

section \<open>State\<close>

definition udpWriteLimit :: nat where "udpWriteLimit = writeChanLimit * 10"

record udpDatagram =
  ug_msg :: bytes
  ug_addr :: string

text \<open>The goroutines: in their loop, in \<open>wg.Done\<close>, in the deferred call after it, gone.\<close>

datatype urd_pc = URLoop | URDone | URForceClose | URExit

text \<open>The flag is the variable \<open>close\<close> of the write loop.\<close>

datatype uwr_pc =
    UWSelect bool
  | UWSend udpDatagram bool
  | UWDone
  | UWConnClose
  | UWExit

text \<open>
  \<open>us_sent\<close> is what the connection was given, with an address on a server's connection; \<open>us_lost\<close> a
  datagram whose write failed; \<open>us_accepted\<close> the datagrams \<open>sendMsg\<close> took; \<open>us_closedAt\<close> how many
  those were at the first close. These are history.
\<close>

record udp_socket =
  us_isServer :: bool
  us_rd :: urd_pc
  us_wr :: uwr_pc
  us_writeCh :: "udpDatagram list"
  us_closeOnce :: bool
  us_closeCh :: bool
  us_wg :: int
  us_connClosed :: bool
  us_writeErr :: "go_error option"
  us_panic :: "go_panic option"
  us_sent :: "(bytes \<times> string option) list"
  us_lost :: "udpDatagram list"
  us_accepted :: "udpDatagram list"
  us_closedAt :: nat

definition NewUDPSocket :: "bool \<Rightarrow> udp_socket" where
  "NewUDPSocket isServer =
     \<lparr>us_isServer = isServer, us_rd = URLoop, us_wr = UWSelect False, us_writeCh = [],
      us_closeOnce = False, us_closeCh = False, us_wg = 2, us_connClosed = False,
      us_writeErr = None, us_panic = None, us_sent = [], us_lost = [], us_accepted = [], us_closedAt = 0\<rparr>"

section \<open>Operations\<close>

definition udp_sendMsg :: "udp_socket \<Rightarrow> udpDatagram \<Rightarrow> (go_error option \<times> udp_socket) list" where
  "udp_sendMsg s d =
     map (\<lambda>(r, ch). (r, s\<lparr>us_writeCh := ch, us_accepted := us_accepted s @ (if r = None then [d] else [])\<rparr>))
       (select_send udpWriteLimit SockAlreadyClose MsgOverflow (us_writeCh s) (us_closeCh s) d)"

definition udp_forceClose :: "udp_socket \<Rightarrow> udp_socket" where
  "udp_forceClose s =
     (if us_closeOnce s then s
      else if us_closeCh s then s\<lparr>us_closeOnce := True, us_panic := Some CloseOfClosed\<rparr>
      else s\<lparr>us_closeOnce := True, us_closeCh := True, us_closedAt := length (us_accepted s)\<rparr>)"

text \<open>\<open>close\<close> is \<open>forceClose\<close> and the wait for both goroutines.\<close>

definition udp_close_returns :: "udp_socket \<Rightarrow> bool" where
  "udp_close_returns s \<longleftrightarrow> us_closeOnce s \<and> us_wg s = 0"

definition udp_wg_Done :: "udp_socket \<Rightarrow> udp_socket" where
  "udp_wg_Done s = (if us_wg s \<le> 0 then s\<lparr>us_panic := Some NegativeWaitGroup\<rparr> else s\<lparr>us_wg := us_wg s - 1\<rparr>)"

text \<open>\<open>WriteToUDP\<close> for a server, \<open>Write\<close> on the connected socket of a client.\<close>

definition udp_out :: "udp_socket \<Rightarrow> udpDatagram \<Rightarrow> bytes \<times> string option" where
  "udp_out s d = (ug_msg d, if us_isServer s then Some (ug_addr d) else None)"

inductive udp_read_step :: "udp_socket \<Rightarrow> udp_socket \<Rightarrow> bool" where
  urd_datagram: "us_rd s = URLoop \<Longrightarrow> udp_read_step s s"
| urd_err: "us_rd s = URLoop \<Longrightarrow> udp_read_step s (s\<lparr>us_rd := URDone\<rparr>)"
| urd_wg: "us_rd s = URDone \<Longrightarrow> udp_read_step s (udp_wg_Done (s\<lparr>us_rd := URForceClose\<rparr>))"
| urd_close: "us_rd s = URForceClose \<Longrightarrow> udp_read_step s (udp_forceClose (s\<lparr>us_rd := URExit\<rparr>))"

inductive udp_write_step :: "udp_socket \<Rightarrow> udp_socket \<Rightarrow> bool" where
  uwr_take: "us_wr s = UWSelect close \<Longrightarrow> us_writeCh s = d # q \<Longrightarrow>
    udp_write_step s (s\<lparr>us_wr := UWSend d close, us_writeCh := q\<rparr>)"
| uwr_closed: "us_wr s = UWSelect False \<Longrightarrow> us_closeCh s \<Longrightarrow> udp_write_step s (s\<lparr>us_wr := UWSelect True\<rparr>)"
| uwr_empty: "us_wr s = UWSelect True \<Longrightarrow> us_writeCh s = [] \<Longrightarrow> udp_write_step s (s\<lparr>us_wr := UWDone\<rparr>)"
| uwr_send: "us_wr s = UWSend d close \<Longrightarrow>
    udp_write_step s (s\<lparr>us_wr := UWSelect close, us_sent := us_sent s @ [udp_out s d]\<rparr>)"
| uwr_fail: "us_wr s = UWSend d close \<Longrightarrow>
    udp_write_step s (s\<lparr>us_wr := UWDone, us_writeErr := Some err, us_lost := [d]\<rparr>)"
| uwr_wg: "us_wr s = UWDone \<Longrightarrow> udp_write_step s (udp_wg_Done (s\<lparr>us_wr := UWConnClose\<rparr>))"
| uwr_conn: "us_wr s = UWConnClose \<Longrightarrow> udp_write_step s (s\<lparr>us_wr := UWExit, us_connClosed := True\<rparr>)"

inductive udp_step :: "udp_socket \<Rightarrow> udp_socket \<Rightarrow> bool" where
  ustep_read: "udp_read_step s t \<Longrightarrow> udp_step s t"
| ustep_write: "udp_write_step s t \<Longrightarrow> udp_step s t"
| ustep_send: "(r, t) \<in> set (udp_sendMsg s d) \<Longrightarrow> udp_step s t"
| ustep_close: "udp_step s (udp_forceClose s)"

definition udp_init :: "bool \<Rightarrow> udp_socket \<Rightarrow> bool" where
  "udp_init isServer s \<longleftrightarrow> s = NewUDPSocket isServer"

interpretation udp_port: send_port us_writeCh us_closeCh udpWriteLimit SockAlreadyClose MsgOverflow
    "\<lambda>s d. d" udp_sendMsg
  by unfold_locales (auto simp: udp_sendMsg_def in_select_send, force simp: in_select_send)

section \<open>Invariant\<close>

fun uwr_pending :: "uwr_pc \<Rightarrow> udpDatagram list" where
  "uwr_pending (UWSend d close) = [d]"
| "uwr_pending _ = []"

fun uwr_left :: "uwr_pc \<Rightarrow> bool" where
  "uwr_left (UWSelect close) = False"
| "uwr_left (UWSend d close) = False"
| "uwr_left _ = True"

fun uwr_closing :: "uwr_pc \<Rightarrow> bool" where
  "uwr_closing (UWSelect close) = close"
| "uwr_closing (UWSend d close) = close"
| "uwr_closing _ = False"

definition udp_data_inv :: "udp_socket \<Rightarrow> bool" where
  "udp_data_inv s \<longleftrightarrow>
     us_sent s @ map (udp_out s) (us_lost s @ uwr_pending (us_wr s) @ us_writeCh s) = map (udp_out s) (us_accepted s)
     \<and> (us_writeErr s = None \<longrightarrow> us_lost s = [])
     \<and> (us_writeErr s \<noteq> None \<longrightarrow> uwr_left (us_wr s))
     \<and> length (us_writeCh s) \<le> udpWriteLimit"

definition udp_control_inv :: "udp_socket \<Rightarrow> bool" where
  "udp_control_inv s \<longleftrightarrow> us_panic s = None \<and> us_closeOnce s = us_closeCh s
     \<and> us_wg s = (if us_rd s = URLoop \<or> us_rd s = URDone then 1 else 0)
          + (if us_wr s = UWConnClose \<or> us_wr s = UWExit then 0 else 1)
     \<and> (us_connClosed s \<longleftrightarrow> us_wr s = UWExit)
     \<and> (uwr_closing (us_wr s) \<longrightarrow> us_closeCh s)
     \<and> (us_rd s = URExit \<longrightarrow> us_closeCh s)"

definition udp_flush_inv :: "udp_socket \<Rightarrow> bool" where
  "udp_flush_inv s \<longleftrightarrow> us_closedAt s \<le> length (us_accepted s)
     \<and> (uwr_left (us_wr s) \<and> us_writeErr s = None \<longrightarrow> us_closeCh s \<and> us_closedAt s \<le> length (us_sent s))"

definition udp_inv :: "udp_socket \<Rightarrow> bool" where
  "udp_inv s \<longleftrightarrow> udp_data_inv s \<and> udp_control_inv s \<and> udp_flush_inv s"

lemmas udp_ops = udp_wg_Done_def udp_forceClose_def

lemma udp_out_frame [simp]:
  "udp_out (s\<lparr>us_rd := a\<rparr>) = udp_out s" "udp_out (s\<lparr>us_wr := b\<rparr>) = udp_out s"
  "udp_out (s\<lparr>us_writeCh := q\<rparr>) = udp_out s" "udp_out (s\<lparr>us_sent := x\<rparr>) = udp_out s"
  "udp_out (s\<lparr>us_lost := l\<rparr>) = udp_out s" "udp_out (s\<lparr>us_writeErr := e\<rparr>) = udp_out s"
  "udp_out (s\<lparr>us_wg := n\<rparr>) = udp_out s" "udp_out (s\<lparr>us_panic := p\<rparr>) = udp_out s"
  "udp_out (s\<lparr>us_connClosed := c\<rparr>) = udp_out s" "udp_out (s\<lparr>us_accepted := acc\<rparr>) = udp_out s"
  "udp_out (s\<lparr>us_closeOnce := c\<rparr>) = udp_out s" "udp_out (s\<lparr>us_closeCh := c\<rparr>) = udp_out s"
  "udp_out (s\<lparr>us_closedAt := m\<rparr>) = udp_out s"
  by (simp_all add: udp_out_def fun_eq_iff)

lemma udp_forceClose_inv: "udp_inv s \<Longrightarrow> udp_inv (udp_forceClose s)"
  by (auto simp: udp_inv_def udp_data_inv_def udp_control_inv_def udp_flush_inv_def udp_ops)

lemma udp_read_step_inv: "udp_read_step s t \<Longrightarrow> udp_inv s \<Longrightarrow> udp_inv t"
proof (induction rule: udp_read_step.induct)
  case (urd_close s)
  have "udp_inv (udp_forceClose s)" using urd_close.prems by (rule udp_forceClose_inv)
  with urd_close show ?case
    by (auto simp: udp_inv_def udp_data_inv_def udp_control_inv_def udp_flush_inv_def udp_ops split: if_splits)
qed (auto simp: udp_inv_def udp_data_inv_def udp_control_inv_def udp_flush_inv_def udp_ops)

lemma udp_write_step_data: "udp_write_step s t \<Longrightarrow> udp_data_inv s \<Longrightarrow> udp_data_inv t"
  by (induction rule: udp_write_step.induct) (auto simp: udp_data_inv_def udp_ops)

lemma udp_write_step_control: "udp_write_step s t \<Longrightarrow> udp_control_inv s \<Longrightarrow> udp_control_inv t"
  by (induction rule: udp_write_step.induct) (auto simp: udp_control_inv_def udp_ops)

lemma udp_write_step_flush: "udp_write_step s t \<Longrightarrow> udp_inv s \<Longrightarrow> udp_flush_inv t"
proof (induction rule: udp_write_step.induct)
  case (uwr_empty s)
  then have "map (udp_out s) (us_accepted s) = us_sent s" and "us_closeCh s"
    if "us_writeErr s = None" using that by (auto simp: udp_inv_def udp_data_inv_def udp_control_inv_def)
  then have "length (us_accepted s) = length (us_sent s)" if "us_writeErr s = None"
    using that by (metis length_map)
  with uwr_empty show ?case by (auto simp: udp_inv_def udp_flush_inv_def udp_control_inv_def)
qed (auto simp: udp_inv_def udp_flush_inv_def udp_ops)

lemma udp_sendMsg_cases:
  "(r, t) \<in> set (udp_sendMsg s d) \<Longrightarrow>
     t = s \<or> length (us_writeCh s) < udpWriteLimit
       \<and> t = s\<lparr>us_writeCh := us_writeCh s @ [d], us_accepted := us_accepted s @ [d]\<rparr>"
  by (cases s) (auto simp: udp_sendMsg_def in_select_send)

lemma udp_sendMsg_inv:
  assumes "(r, t) \<in> set (udp_sendMsg s d)" and "udp_inv s"
  shows "udp_inv t"
  using udp_sendMsg_cases [OF assms(1)]
proof (elim disjE conjE)
  assume room: "length (us_writeCh s) < udpWriteLimit"
    and t: "t = s\<lparr>us_writeCh := us_writeCh s @ [d], us_accepted := us_accepted s @ [d]\<rparr>"
  have inv: "udp_data_inv s" "udp_control_inv s" "udp_flush_inv s" using assms(2) by (simp_all add: udp_inv_def)
  have "udp_data_inv t" using inv(1) room unfolding t udp_data_inv_def by (simp flip: append_assoc)
  moreover have "udp_control_inv t" using inv(2) by (simp add: t udp_control_inv_def)
  moreover have "udp_flush_inv t" using inv(3) by (simp add: t udp_flush_inv_def)
  ultimately show ?thesis by (simp add: udp_inv_def)
qed (use assms in simp)

interpretation udp_sys: inductive_invariant "udp_init isServer" udp_step udp_inv for isServer
proof
  show "udp_inv s" if "udp_init isServer s" for s
    using that by (simp add: udp_init_def NewUDPSocket_def udp_inv_def udp_data_inv_def udp_control_inv_def udp_flush_inv_def)
  show "udp_inv t" if "udp_inv s" "udp_step s t" for s t
    using that(2,1)
  proof (induction rule: udp_step.induct)
    case (ustep_write s t)
    then show ?case
      using udp_write_step_data udp_write_step_control udp_write_step_flush by (auto simp: udp_inv_def)
  qed (auto intro: udp_read_step_inv udp_sendMsg_inv udp_forceClose_inv)
qed

section \<open>The shut down ends\<close>

text \<open>
  The socket's own steps after a close: the reader ends on the closed connection, no write fails.
\<close>

inductive udp_own_step :: "udp_socket \<Rightarrow> udp_socket \<Rightarrow> bool" where
  uown_end: "us_rd s = URLoop \<Longrightarrow> us_connClosed s \<Longrightarrow> udp_own_step s (s\<lparr>us_rd := URDone\<rparr>)"
| uown_read: "udp_read_step s t \<Longrightarrow> us_rd s \<noteq> URLoop \<Longrightarrow> udp_own_step s t"
| uown_write: "udp_write_step s t \<Longrightarrow> us_writeErr t = us_writeErr s \<Longrightarrow> udp_own_step s t"

fun urd_rank :: "urd_pc \<Rightarrow> nat" where
  "urd_rank URLoop = 3"
| "urd_rank URDone = 2"
| "urd_rank URForceClose = 1"
| "urd_rank URExit = 0"

fun uwr_rank :: "uwr_pc \<Rightarrow> nat \<Rightarrow> nat" where
  "uwr_rank (UWSelect close) q = 2 * q + (if close then 3 else 4)"
| "uwr_rank (UWSend d close) q = 2 * q + (if close then 4 else 5)"
| "uwr_rank UWDone q = 2"
| "uwr_rank UWConnClose q = 1"
| "uwr_rank UWExit q = 0"

definition udp_rank :: "udp_socket \<Rightarrow> nat" where
  "udp_rank s = urd_rank (us_rd s) + uwr_rank (us_wr s) (length (us_writeCh s))"

definition udp_closing :: "udpDatagram list \<Rightarrow> bool \<Rightarrow> udp_socket \<Rightarrow> bool" where
  "udp_closing acc srv s \<longleftrightarrow> udp_inv s \<and> us_closeOnce s \<and> us_writeErr s = None
     \<and> us_accepted s = acc \<and> us_closedAt s = length acc \<and> us_isServer s = srv"

lemma udp_own_step_sys: "udp_own_step s t \<Longrightarrow> udp_step s t"
  by (erule udp_own_step.cases) (auto intro: udp_step.intros udp_read_step.intros)

lemma udp_wg_Done_frame [simp]:
  "us_closeOnce (udp_wg_Done s) = us_closeOnce s" "us_writeErr (udp_wg_Done s) = us_writeErr s"
  "us_accepted (udp_wg_Done s) = us_accepted s" "us_closedAt (udp_wg_Done s) = us_closedAt s"
  "us_isServer (udp_wg_Done s) = us_isServer s"
  by (simp_all add: udp_wg_Done_def)

lemma udp_forceClose_again: "us_closeOnce s \<Longrightarrow> udp_forceClose s = s"
  by (simp add: udp_forceClose_def)

definition udp_fate :: "udp_socket \<Rightarrow> udpDatagram list \<times> nat \<times> bool \<times> bool" where
  "udp_fate s = (us_accepted s, us_closedAt s, us_isServer s, us_closeOnce s)"

lemma udp_read_step_fate:
  "udp_read_step s t \<Longrightarrow> us_closeOnce s \<Longrightarrow> udp_fate t = udp_fate s \<and> us_writeErr t = us_writeErr s"
  by (induction rule: udp_read_step.induct) (simp_all add: udp_fate_def udp_forceClose_again)

lemma udp_write_step_fate: "udp_write_step s t \<Longrightarrow> udp_fate t = udp_fate s"
  by (induction rule: udp_write_step.induct) (simp_all add: udp_fate_def)

lemma udp_own_step_fate:
  "udp_own_step s t \<Longrightarrow> us_closeOnce s \<Longrightarrow> udp_fate t = udp_fate s \<and> us_writeErr t = us_writeErr s"
  by (induction rule: udp_own_step.induct)
    (simp add: udp_fate_def, erule (1) udp_read_step_fate, simp add: udp_write_step_fate)

lemma udp_own_step_closing: "udp_closing acc srv s \<Longrightarrow> udp_own_step s t \<Longrightarrow> udp_closing acc srv t"
  using udp_own_step_fate [of s t] udp_sys.inv_step [of s t, OF _ udp_own_step_sys]
  by (simp add: udp_closing_def udp_fate_def)

lemma udp_own_step_rank: "udp_own_step s t \<Longrightarrow> udp_rank t < udp_rank s"
proof (induction rule: udp_own_step.induct)
  case (uown_end s)
  then show ?case by (simp add: udp_rank_def)
next
  case (uown_read s t)
  then show ?case by (cases rule: udp_read_step.cases) (auto simp: udp_rank_def udp_ops)
next
  case (uown_write s t)
  then show ?case by (cases rule: udp_write_step.cases) (auto simp: udp_rank_def udp_ops)
qed

lemma udp_own_step_enabled:
  assumes c: "udp_closing acc srv s" and pos: "0 < udp_rank s"
  shows "\<exists>t. udp_own_step s t"
proof (cases "us_wr s")
  case (UWSelect close)
  have open': "us_closeCh s" using c by (auto simp: udp_closing_def udp_inv_def udp_control_inv_def)
  show ?thesis
  proof (cases "us_writeCh s")
    case Nil
    then show ?thesis
      using UWSelect open' by (cases close) (auto intro!: exI uown_write [OF uwr_empty] uown_write [OF uwr_closed])
  next
    case (Cons d q)
    show ?thesis by (rule exI, rule uown_write [OF uwr_take [OF UWSelect Cons]]) simp
  qed
next
  case (UWSend d close)
  show ?thesis by (rule exI, rule uown_write [OF uwr_send [OF UWSend]]) simp
next
  case UWDone
  show ?thesis by (rule exI, rule uown_write [OF uwr_wg [OF UWDone]]) (simp add: udp_ops)
next
  case UWConnClose
  show ?thesis by (rule exI, rule uown_write [OF uwr_conn [OF UWConnClose]]) simp
next
  case UWExit
  then have conn: "us_connClosed s" using c by (simp add: udp_closing_def udp_inv_def udp_control_inv_def)
  show ?thesis
  proof (cases "us_rd s")
    case URLoop
    with conn show ?thesis by (blast intro: uown_end)
  next
    case URDone
    then show ?thesis using uown_read [OF urd_wg [OF URDone]] by auto
  next
    case URForceClose
    then show ?thesis using uown_read [OF urd_close [OF URForceClose]] by auto
  qed (use pos UWExit in \<open>simp add: udp_rank_def\<close>)
qed

interpretation udp_shutdown: progress_measure "udp_closing acc srv" udp_own_step "udp_closing acc srv" udp_own_step udp_rank
  for acc srv
  by unfold_locales (auto intro: udp_own_step_closing udp_own_step_rank udp_own_step_enabled)

lemma udp_rank_0: "udp_rank s = 0 \<Longrightarrow> us_rd s = URExit \<and> us_wr s = UWExit"
  by (cases "us_rd s"; cases "us_wr s") (auto simp: udp_rank_def split: if_splits)

text \<open>A socket that is closed sends what it accepted, and both goroutines end.\<close>

lemma udp_ends:
  assumes inv: "udp_inv s" and "us_writeErr s = None" and "\<not> us_closeOnce s"
  shows "runs_end udp_own_step (\<lambda>t. udp_close_returns t \<and> us_connClosed t
    \<and> us_sent t = map (udp_out s) (us_accepted s)) (udp_forceClose s)"
proof (rule udp_shutdown.every_run_ends)
  let ?s = "udp_forceClose s"
  from inv have open': "\<not> us_closeCh s" using assms(3) by (simp add: udp_inv_def udp_control_inv_def)
  show "udp_closing (us_accepted s) (us_isServer s) ?s"
    using udp_forceClose_inv [OF inv] assms(2,3) open' by (simp add: udp_closing_def udp_forceClose_def)
  fix t assume t: "udp_rank t = 0" and c: "udp_closing (us_accepted s) (us_isServer s) t"
  have pcs: "us_rd t = URExit" "us_wr t = UWExit" using udp_rank_0 [OF t] by auto
  have i: "udp_data_inv t" "udp_control_inv t" "udp_flush_inv t" and acc: "us_accepted t = us_accepted s"
    "us_closedAt t = length (us_accepted s)" "us_writeErr t = None" "us_isServer t = us_isServer s" "us_closeOnce t"
    using c by (auto simp: udp_closing_def udp_inv_def)
  have out: "udp_out t = udp_out s" using acc(4) by (simp add: udp_out_def fun_eq_iff)
  have pre: "us_sent t @ map (udp_out s) (us_writeCh t) = map (udp_out s) (us_accepted s)"
    using i(1) acc pcs out by (auto simp: udp_data_inv_def)
  have "length (us_sent t) + length (us_writeCh t) = length (us_accepted s)"
    using arg_cong [OF pre, of length] by simp
  moreover have "length (us_accepted s) \<le> length (us_sent t)"
    using i(3) acc pcs by (simp add: udp_flush_inv_def)
  ultimately have "us_writeCh t = []" by (simp flip: length_0_conv)
  with pre have "us_sent t = map (udp_out s) (us_accepted s)" by simp
  moreover have "udp_close_returns t" "us_connClosed t"
    using i(2) acc(5) pcs by (auto simp: udp_control_inv_def udp_close_returns_def)
  ultimately show "udp_close_returns t \<and> us_connClosed t \<and> us_sent t = map (udp_out s) (us_accepted s)" by simp
qed

section \<open>Properties\<close>

text \<open>
  Datagrams stay whole, in order, and come out once: at any time those sent, then one lost by a failed
  write, the one in hand and those queued are the ones \<open>sendMsg\<close> accepted, in that order and each with its
  address on a server's socket; the queue holds at most 2000; nothing panics, and once the socket has
  closed without a write error every datagram accepted before the first close has been sent.
\<close>

theorem udp_datagrams_in_order:
  assumes "reachable (udp_init isServer) udp_step s"
  shows "us_sent s @ map (udp_out s) (us_lost s @ uwr_pending (us_wr s) @ us_writeCh s) = map (udp_out s) (us_accepted s)
    \<and> length (us_writeCh s) \<le> 2000 \<and> us_panic s = None
    \<and> (udp_close_returns s \<and> us_writeErr s = None \<longrightarrow> us_connClosed s \<or> us_wr s = UWConnClose)
    \<and> (udp_close_returns s \<and> us_writeErr s = None \<longrightarrow>
         take (us_closedAt s) (us_sent s) = map (udp_out s) (take (us_closedAt s) (us_accepted s)))"
proof -
  have inv: "udp_data_inv s" "udp_control_inv s" "udp_flush_inv s"
    using udp_sys.inv_reachable [OF assms] by (auto simp: udp_inv_def)
  have all: "us_sent s @ map (udp_out s) (us_lost s @ uwr_pending (us_wr s) @ us_writeCh s) = map (udp_out s) (us_accepted s)"
    using inv(1) by (simp add: udp_data_inv_def)
  have ret: "us_wr s = UWConnClose \<or> us_wr s = UWExit" if "udp_close_returns s"
    using inv(2) that by (auto simp: udp_control_inv_def udp_close_returns_def split: if_splits)
  have "take (us_closedAt s) (us_sent s) = map (udp_out s) (take (us_closedAt s) (us_accepted s))"
    if "udp_close_returns s" "us_writeErr s = None"
  proof -
    have "uwr_left (us_wr s)" using ret [OF that(1)] by auto
    then have "us_closedAt s \<le> length (us_sent s)" using inv(3) that(2) by (simp add: udp_flush_inv_def)
    with arg_cong [OF all, of "take (us_closedAt s)"] show ?thesis by (simp add: take_map)
  qed
  with all inv ret show ?thesis
    by (auto simp: udp_data_inv_def udp_control_inv_def udpWriteLimit_def writeChanLimit_def)
qed

theorem udp_datagrams_in_order_witness:
  "us_panic (udp_forceClose (NewUDPSocket True)) = None"
proof -
  have "reachable (udp_init True) udp_step (NewUDPSocket True)" by (rule reach_init) (simp add: udp_init_def)
  then have "reachable (udp_init True) udp_step (udp_forceClose (NewUDPSocket True))"
    by (rule reach_step) (rule ustep_close)
  from udp_datagrams_in_order [OF this] show ?thesis by simp
qed

text \<open>C25.
  \<open>close\<close> returns: from any reachable state that is not yet closed and in which no write has failed, every run of the two
  goroutines in which no further write fails and nothing more is sent is finite and ends in a state in which \<open>close\<close>
  returns, the connection is closed and exactly the datagrams accepted so far have been sent.
\<close>

theorem udp_close_flushes:
  assumes "reachable (udp_init isServer) udp_step s" and "us_writeErr s = None" and "\<not> us_closeOnce s"
  shows "runs_end udp_own_step (\<lambda>t. udp_close_returns t \<and> us_connClosed t
    \<and> us_sent t = map (udp_out s) (us_accepted s)) (udp_forceClose s)"
  by (rule udp_ends [OF udp_sys.inv_reachable [OF assms(1)] assms(2,3)])

theorem udp_close_flushes_witness:
  "\<exists>t. steps udp_own_step (udp_forceClose (NewUDPSocket False)) t \<and> udp_close_returns t \<and> us_sent t = []"
proof -
  have "reachable (udp_init False) udp_step (NewUDPSocket False)" by (rule reach_init) (simp add: udp_init_def)
  from udp_close_flushes [OF this]
  have "runs_end udp_own_step (\<lambda>t. udp_close_returns t \<and> us_connClosed t \<and> us_sent t = []) (udp_forceClose (NewUDPSocket False))"
    by (simp add: NewUDPSocket_def)
  from runs_end_reaches [OF this] show ?thesis by blast
qed

end
