(* ===== verification/Buffer_Pool.thy ===== *)
theory Buffer_Pool
  imports Gotu_Prelude
begin

text \<open>
  The read buffers of \<open>pkg/xnet/buffer.go\<close>. A socket gives the bytes it no longer needs back to
  its \<open>bufferPool\<close> with \<open>put\<close>, which collects them in \<open>cache\<close> and hands every full
  \<open>readBufferSize\<close> bytes to the \<open>sync.Pool\<close> its server shares among the sockets; \<open>get\<close> takes a
  buffer from there. The buffers are modelled by their contents.
\<close>

section \<open>State and operations\<close>

definition readBufferSize :: nat where
  "readBufferSize = 1024"

lemma readBufferSize_pos [simp]: "0 < readBufferSize"
  by (simp add: readBufferSize_def)

text \<open>
  The shared pool is the list of the buffers it currently holds; \<open>sync.Pool\<close> fixes no order, and
  \<open>New\<close> makes a zeroed buffer.
\<close>

record buffer_pool =
  bp_pool :: "bytes list"
  bp_cache :: bytes

definition newBufferPool :: "bytes list \<Rightarrow> buffer_pool" where
  "newBufferPool pool = \<lparr>bp_pool = pool, bp_cache = []\<rparr>"

definition pool_New :: bytes where
  "pool_New = replicate readBufferSize 0"

text \<open>The loop of \<open>put\<close>: cut \<open>readBufferSize\<close> bytes off the cache while it has that many.\<close>

function put_loop :: "bytes list \<Rightarrow> bytes \<Rightarrow> bytes list \<times> bytes" where
  "put_loop pool cache =
     (if readBufferSize \<le> length cache
      then put_loop (pool @ [take readBufferSize cache]) (drop readBufferSize cache)
      else (pool, cache))"
  by pat_completeness auto
termination
  by (relation "measure (\<lambda>(pool, cache). length cache)") (auto simp: readBufferSize_def)

declare put_loop.simps [simp del]

definition bp_put :: "buffer_pool \<Rightarrow> bytes \<Rightarrow> buffer_pool" where
  "bp_put bp c =
     (let (pool, cache) = put_loop (bp_pool bp) (bp_cache bp @ c)
      in bp\<lparr>bp_pool := pool, bp_cache := cache\<rparr>)"

text \<open>
  \<open>get\<close> may return any buffer the pool holds, or a new one when the pool is empty, or at any
  time after a garbage collection emptied it: every possible result with the state after it.
\<close>

definition bp_get :: "buffer_pool \<Rightarrow> (bytes \<times> buffer_pool) list" where
  "bp_get bp =
     (pool_New, bp) #
     map (\<lambda>i. (bp_pool bp ! i, bp\<lparr>bp_pool := take i (bp_pool bp) @ drop (Suc i) (bp_pool bp)\<rparr>))
       [0..<length (bp_pool bp)]"

section \<open>What put does\<close>

lemma put_loop_done: "length cache < readBufferSize \<Longrightarrow> put_loop pool cache = (pool, cache)"
  by (simp add: put_loop.simps)

lemma put_loop_step: "readBufferSize \<le> length cache \<Longrightarrow>
    put_loop pool cache = put_loop (pool @ [take readBufferSize cache]) (drop readBufferSize cache)"
  by (subst put_loop.simps) simp

lemma put_loop_spec:
  "put_loop pool cache = (pool', cache') \<Longrightarrow>
     \<exists>given. pool' = pool @ given \<and> concat given @ cache' = cache
       \<and> (\<forall>b \<in> set given. length b = readBufferSize) \<and> length cache' < readBufferSize"
proof (induction pool cache rule: put_loop.induct)
  case (1 pool cache)
  show ?case
  proof (cases "readBufferSize \<le> length cache")
    case True
    with "1" obtain given where "pool' = (pool @ [take readBufferSize cache]) @ given"
      "concat given @ cache' = drop readBufferSize cache"
      "\<forall>b \<in> set given. length b = readBufferSize" "length cache' < readBufferSize"
      by (auto simp: put_loop_step)
    with True show ?thesis
      by (intro exI [of _ "take readBufferSize cache # given"]) simp
  next
    case False
    with "1.prems" show ?thesis by (simp add: put_loop_done)
  qed
qed

text \<open>Every buffer a well formed pool holds has the read size, and the cache is below it.\<close>

definition pool_ok :: "buffer_pool \<Rightarrow> bool" where
  "pool_ok bp \<longleftrightarrow> list_all (\<lambda>b. length b = readBufferSize) (bp_pool bp)
     \<and> length (bp_cache bp) < readBufferSize"

lemma bp_put_split:
  obtains given where "bp_pool (bp_put bp c) = bp_pool bp @ given"
    "concat given @ bp_cache (bp_put bp c) = bp_cache bp @ c"
    "list_all (\<lambda>b. length b = readBufferSize) given"
    "length (bp_cache (bp_put bp c)) < readBufferSize"
proof -
  obtain pool cache where e: "put_loop (bp_pool bp) (bp_cache bp @ c) = (pool, cache)"
    by fastforce
  from put_loop_spec [OF this] obtain given where "pool = bp_pool bp @ given"
    "concat given @ cache = bp_cache bp @ c"
    "\<forall>b \<in> set given. length b = readBufferSize" "length cache < readBufferSize" by auto
  with e that [of given] show ?thesis by (simp add: bp_put_def list_all_iff)
qed

lemma pool_ok_put [simp]: "pool_ok bp \<Longrightarrow> pool_ok (bp_put bp c)"
  by (rule bp_put_split [of bp c]) (auto simp: pool_ok_def)

lemma pool_ok_get: "pool_ok bp \<Longrightarrow> (b, bp') \<in> set (bp_get bp) \<Longrightarrow>
    length b = readBufferSize \<and> pool_ok bp' \<and> bp_cache bp' = bp_cache bp"
  by (auto simp: bp_get_def pool_ok_def pool_New_def list_all_iff
      dest!: in_set_takeD in_set_dropD)

text \<open>
  \<open>get\<close> hands out a buffer the pool held, which it holds once less then, or a zeroed one.
\<close>

lemma mset_remove_nth: "i < length xs \<Longrightarrow> mset xs = add_mset (xs ! i) (mset (take i xs @ drop (Suc i) xs))"
  by (metis Cons_nth_drop_Suc append_take_drop_id mset.simps(2) mset_append union_mset_add_mset_right)

lemma bp_get_cases: "(b, bp') \<in> set (bp_get bp) \<Longrightarrow>
    (b = pool_New \<and> bp' = bp) \<or> mset (bp_pool bp) = add_mset b (mset (bp_pool bp'))"
  by (auto simp: bp_get_def mset_remove_nth simp del: mset_append)

section \<open>The pool in use\<close>

text \<open>
  What can happen to a pool: a socket puts bytes back or takes a buffer, and the garbage
  collector drops buffers.
\<close>

inductive pool_step :: "buffer_pool \<Rightarrow> buffer_pool \<Rightarrow> bool" where
  pool_put: "pool_step bp (bp_put bp c)"
| pool_get: "(b, bp') \<in> set (bp_get bp) \<Longrightarrow> pool_step bp bp'"
| pool_gc: "mset pool' \<subseteq># mset (bp_pool bp) \<Longrightarrow> pool_step bp (bp\<lparr>bp_pool := pool'\<rparr>)"

definition pool_init :: "buffer_pool \<Rightarrow> bool" where
  "pool_init bp \<longleftrightarrow> bp = newBufferPool []"

interpretation pool_inv: inductive_invariant pool_init pool_step pool_ok
proof
  show "pool_init bp \<Longrightarrow> pool_ok bp" for bp
    by (simp add: pool_init_def newBufferPool_def pool_ok_def)
  show "pool_ok bp \<Longrightarrow> pool_step bp bp' \<Longrightarrow> pool_ok bp'" for bp bp'
    by (erule pool_step.cases)
      (auto simp: pool_ok_get, auto simp: pool_ok_def list_all_iff dest!: set_mset_mono)
qed

text \<open>
  Giving bytes back to the pool of buffers neither loses, invents nor reorders any: the buffers of the
  shared pool followed by the local remainder spell what they spelled before followed by the new
  bytes; the remainder stays shorter than a buffer, and as many buffers were made as fit.
\<close>

theorem put_conserves_bytes:
  "concat (bp_pool (bp_put bp c)) @ bp_cache (bp_put bp c)
     = concat (bp_pool bp) @ bp_cache bp @ c
   \<and> length (bp_cache (bp_put bp c)) < readBufferSize
   \<and> length (bp_pool (bp_put bp c)) =
       length (bp_pool bp) + (length (bp_cache bp) + length c) div readBufferSize"
proof (rule bp_put_split [of bp c])
  fix given
  assume pool: "bp_pool (bp_put bp c) = bp_pool bp @ given"
    and cat: "concat given @ bp_cache (bp_put bp c) = bp_cache bp @ c"
    and full: "list_all (\<lambda>b. length b = readBufferSize) given"
    and short: "length (bp_cache (bp_put bp c)) < readBufferSize"
  from full have "length (concat given) = readBufferSize * length given"
    by (induction given) simp_all
  moreover have "length (concat given) + length (bp_cache (bp_put bp c)) = length (bp_cache bp) + length c"
    using arg_cong [OF cat, of length] by simp
  ultimately have "(length (bp_cache bp) + length c) div readBufferSize = length given"
    using short by (metis div_mult_self4 readBufferSize_pos div_less add.right_neutral less_not_refl2)
  with pool cat short show ?thesis by simp
qed

text \<open>C0.
  Whatever sockets put into the pool and take from it, and whatever the garbage collector drops, \<open>get\<close>
  always returns a buffer of exactly \<open>readBufferSize\<close> bytes, so a read loop never reads into a shorter one.
\<close>

theorem pool_buffers_have_read_size:
  assumes "reachable pool_init pool_step bp" and "(b, bp') \<in> set (bp_get bp)"
  shows "length b = readBufferSize"
  using pool_inv.inv_reachable [OF assms(1)] pool_ok_get assms(2) by blast

theorem pool_buffers_have_read_size_witness:
  "length (pool_New) = readBufferSize"
proof -
  let ?bp = "bp_put (newBufferPool []) [1, 2, 3]"
  have "reachable pool_init pool_step ?bp"
    by (rule reach_step [where s = "newBufferPool []"]) (auto intro: reach_init pool_put simp: pool_init_def)
  then show ?thesis by (rule pool_buffers_have_read_size [where bp' = ?bp]) (simp add: bp_get_def)
qed

end
