(* ===== verification/Stream_Read.thy ===== *)
theory Stream_Read
  imports Buffer_Pool
begin

text \<open>
  The read side of the stream sockets: the \<open>readLoop\<close> of \<open>pkg/xnet/tcp_socket.go\<close> and the one of
  \<open>pkg/xnet/kcp_socket.go\<close>. Both append what the connection delivers to \<open>readCaches\<close> and call
  the message handler on the whole cache until it consumes nothing. The handler is an
  \<open>OnHandlerOnce\<close> of \<open>pkg/xnet/common.go\<close>: it is given the connection's state and the cache, and
  returns how many bytes it used and an error.
\<close>

section \<open>Handlers\<close>

text \<open>
  The state type \<open>'st\<close> is everything a handler can read and change, the value \<open>OnConnect\<close>
  returned included. The returned count is Go's \<open>int\<close> (64 bits, so the sums of the code do not
  overflow).
\<close>

type_synonym 'st on_handler_once = "'st \<Rightarrow> bytes \<Rightarrow> ('st \<times> int \<times> go_error option) go"

section \<open>The inner loop\<close>

datatype 'st inner_out =
    InnerKeep 'st buffer_pool bytes
  | InnerErr 'st buffer_pool bytes go_error
  | InnerPanic go_panic

text \<open>
  \<open>for !isKeepCache\<close>: an error leaves the read loop, a zero count keeps the cache for the next
  read, any other count gives the handled bytes back to the pool and drops them. A count the
  cache does not have panics in the slice expression \<open>readCaches[reqCount:]\<close>.
\<close>

function inner_loop :: "'st on_handler_once \<Rightarrow> 'st \<Rightarrow> buffer_pool \<Rightarrow> bytes \<Rightarrow> 'st inner_out" where
  "inner_loop onMsg st bp cache =
     (case onMsg st cache of
        Panic p \<Rightarrow> InnerPanic p
      | Ret (st', reqCount, Some err) \<Rightarrow> InnerErr st' bp cache err
      | Ret (st', reqCount, None) \<Rightarrow>
          (if reqCount = 0 then InnerKeep st' bp cache
           else case go_slice_from cache reqCount of
               Panic p \<Rightarrow> InnerPanic p
             | Ret rest \<Rightarrow> inner_loop onMsg st' (bp_put bp (take (nat reqCount) cache)) rest))"
  by pat_completeness auto
termination
  by (relation "measure (\<lambda>(onMsg, st, bp, cache). length cache)")
    (auto simp: go_slice_from_def split: if_splits)

declare inner_loop.simps [simp del]

section \<open>The read loops\<close>

record 'st reader =
  rd_state :: 'st
  rd_pool :: buffer_pool
  readCaches :: bytes

text \<open>
  What one iteration meets: \<open>SetReadDeadline\<close> fails, \<open>conn.Read\<close> fails, or it fills the first
  bytes of the buffer \<open>buf\<close> the pool gave with \<open>data\<close>. For KCP the close flag is read after it.
\<close>

datatype read_event =
    DeadlineFails go_error
  | ReadFails go_error
  | ReadOk bytes bytes

text \<open>
  A read loop is still waiting for the connection, has ended with the error it logs (if it
  logs one), or panicked.
\<close>

datatype 'st read_out =
    Reading "'st reader"
  | ReadEnd "'st reader" "go_error option"
  | ReadPanic go_panic

text \<open>
  The part both loops share after a successful read: the unused part of the buffer goes back to
  the pool, the data to the cache, then the inner loop runs.
\<close>

definition read_chunk :: "'st on_handler_once \<Rightarrow> (go_error \<Rightarrow> go_error option) \<Rightarrow> 'st reader \<Rightarrow>
    bytes \<Rightarrow> bytes \<Rightarrow> 'st read_out" where
  "read_chunk onMsg logged r buf data =
     (case inner_loop onMsg (rd_state r) (bp_put (rd_pool r) (drop (length data) buf))
             (readCaches r @ data) of
        InnerKeep st bp cache \<Rightarrow> Reading \<lparr>rd_state = st, rd_pool = bp, readCaches = cache\<rparr>
      | InnerErr st bp cache err \<Rightarrow>
          ReadEnd \<lparr>rd_state = st, rd_pool = bp, readCaches = cache\<rparr> (logged err)
      | InnerPanic p \<Rightarrow> ReadPanic p)"

fun tcp_read_loop :: "'st on_handler_once \<Rightarrow> 'st reader \<Rightarrow> read_event list \<Rightarrow> 'st read_out" where
  "tcp_read_loop onMsg r [] = Reading r"
| "tcp_read_loop onMsg r (DeadlineFails err # evs) = ReadEnd r (Some err)"
| "tcp_read_loop onMsg r (ReadFails err # evs) =
     ReadEnd r (if err \<noteq> IoEOF then Some err else None)"
| "tcp_read_loop onMsg r (ReadOk buf data # evs) =
     (case read_chunk onMsg Some r buf data of
        Reading r' \<Rightarrow> tcp_read_loop onMsg r' evs
      | out \<Rightarrow> out)"

text \<open>
  KCP: a set close flag ends the loop after the read, whatever it delivered; the errors of a
  closed connection are not logged, nor is the end of the closing handshake (\<open>io.EOF\<close>).
\<close>

definition kcp_read_logged :: "go_error \<Rightarrow> go_error option" where
  "kcp_read_logged err = (if err \<noteq> ErrClosedPipe \<and> err \<noteq> ErrNetClosed then Some err else None)"

definition kcp_handler_logged :: "go_error \<Rightarrow> go_error option" where
  "kcp_handler_logged err = (if err \<noteq> IoEOF then Some err else None)"

fun kcp_read_loop :: "'st on_handler_once \<Rightarrow> 'st reader \<Rightarrow> (read_event \<times> bool) list \<Rightarrow> 'st read_out" where
  "kcp_read_loop onMsg r [] = Reading r"
| "kcp_read_loop onMsg r ((DeadlineFails err, closed) # evs) = ReadEnd r (Some err)"
| "kcp_read_loop onMsg r ((ReadFails err, closed) # evs) = ReadEnd r (kcp_read_logged err)"
| "kcp_read_loop onMsg r ((ReadOk buf data, closed) # evs) =
     (if closed then ReadEnd r None
      else case read_chunk onMsg kcp_handler_logged r buf data of
          Reading r' \<Rightarrow> kcp_read_loop onMsg r' evs
        | out \<Rightarrow> out)"

section \<open>The loops without the buffers\<close>

text \<open>
  What a read loop does to the connection's state, the pool left out: the specification the
  loops refine. \<open>logged\<close> is what becomes of an error of the handler.
\<close>

datatype 'st stream_out =
    Waiting 'st bytes
  | Failed 'st "go_error option"
  | Crashed go_panic

function drain :: "(go_error \<Rightarrow> go_error option) \<Rightarrow> 'st on_handler_once \<Rightarrow> 'st \<Rightarrow> bytes \<Rightarrow> 'st stream_out" where
  "drain logged onMsg st cache =
     (case onMsg st cache of
        Panic p \<Rightarrow> Crashed p
      | Ret (st', n, Some err) \<Rightarrow> Failed st' (logged err)
      | Ret (st', n, None) \<Rightarrow>
          (if n = 0 then Waiting st' cache
           else case go_slice_from cache n of
               Panic p \<Rightarrow> Crashed p
             | Ret rest \<Rightarrow> drain logged onMsg st' rest))"
  by pat_completeness auto
termination
  by (relation "measure (\<lambda>(logged, onMsg, st, cache). length cache)")
    (auto simp: go_slice_from_def split: if_splits)

declare drain.simps [simp del]

fun erase_inner :: "(go_error \<Rightarrow> go_error option) \<Rightarrow> 'st inner_out \<Rightarrow> 'st stream_out" where
  "erase_inner logged (InnerKeep st bp cache) = Waiting st cache"
| "erase_inner logged (InnerErr st bp cache err) = Failed st (logged err)"
| "erase_inner logged (InnerPanic p) = Crashed p"

fun erase_read :: "'st read_out \<Rightarrow> 'st stream_out" where
  "erase_read (Reading r) = Waiting (rd_state r) (readCaches r)"
| "erase_read (ReadEnd r err) = Failed (rd_state r) err"
| "erase_read (ReadPanic p) = Crashed p"

lemma inner_loop_refines: "erase_inner logged (inner_loop onMsg st bp cache) = drain logged onMsg st cache"
proof (induction onMsg st bp cache rule: inner_loop.induct)
  case (1 onMsg st bp cache)
  then show ?case
    by (subst inner_loop.simps, subst drain.simps) (auto split: go.splits option.splits)
qed

lemma read_chunk_refines:
  "erase_read (read_chunk onMsg logged r buf data) = drain logged onMsg (rd_state r) (readCaches r @ data)"
  unfolding read_chunk_def
    inner_loop_refines [of logged onMsg _ "bp_put (rd_pool r) (drop (length data) buf)", symmetric]
  by (auto split: inner_out.splits)

fun inner_pool_ok :: "'st inner_out \<Rightarrow> bool" where
  "inner_pool_ok (InnerKeep st bp cache) = pool_ok bp"
| "inner_pool_ok (InnerErr st bp cache err) = pool_ok bp"
| "inner_pool_ok (InnerPanic p) = True"

lemma inner_loop_pool_ok: "pool_ok bp \<Longrightarrow> inner_pool_ok (inner_loop onMsg st bp cache)"
proof (induction onMsg st bp cache rule: inner_loop.induct)
  case (1 onMsg st bp cache)
  then show ?case
    by (subst inner_loop.simps) (simp split: go.split option.split prod.split)
qed

lemma read_chunk_pool_ok:
  "pool_ok (rd_pool r) \<Longrightarrow> read_chunk onMsg logged r buf data = Reading r' \<Longrightarrow> pool_ok (rd_pool r')"
  using inner_loop_pool_ok [of "bp_put (rd_pool r) (drop (length data) buf)" onMsg
      "rd_state r" "readCaches r @ data"]
  by (auto simp: read_chunk_def split: inner_out.splits)

section \<open>Handlers of a byte stream\<close>

text \<open>
  What the loops expect of a handler: it uses at most the bytes it is given, it changes nothing
  while it waits for more, it waits on an empty cache, and what it decides does not depend on
  the bytes that follow. Then the way the network cuts the stream does not matter.
\<close>

locale stream_handler =
  fixes onMsg :: "'st on_handler_once"
  assumes count_bounds: "onMsg st msg = Ret (st', n, None) \<Longrightarrow> 0 \<le> n \<and> n \<le> int (length msg)"
    and wait_unchanged: "onMsg st msg = Ret (st', 0, None) \<Longrightarrow> st' = st"
    and wait_empty: "onMsg st [] = Ret (st, 0, None)"
    and stable: "onMsg st msg \<noteq> Ret (st, 0, None) \<Longrightarrow> onMsg st (msg @ ext) = onMsg st msg"
begin

lemma drain_wait: "onMsg st cache = Ret (st', 0, None) \<Longrightarrow> drain logged onMsg st cache = Waiting st cache"
  using wait_unchanged by (subst drain.simps) auto

lemma drain_step:
  assumes "onMsg st cache = Ret (st', n, None)" and "n \<noteq> 0"
  shows "drain logged onMsg st cache = drain logged onMsg st' (drop (nat n) cache)"
    and "0 < nat n" and "nat n \<le> length cache"
  using assms count_bounds [OF assms(1)]
  by (auto simp: drain.simps [of logged onMsg st cache] go_slice_from_def)

text \<open>The cases of one call of the handler.\<close>

lemma handler_cases [case_names panic error wait used]:
  obtains p where "onMsg st cache = Panic p"
  | st' n e where "onMsg st cache = Ret (st', n, Some e)"
  | "onMsg st cache = Ret (st, 0, None)"
  | st' n where "onMsg st cache = Ret (st', n, None)" "n \<noteq> 0"
  using wait_unchanged by (cases "onMsg st cache") (auto, metis not_None_eq prod.exhaust)

lemma drain_waits: "drain logged onMsg st a = Waiting st' rest \<Longrightarrow> onMsg st' rest = Ret (st', 0, None)"
proof (induction "length a" arbitrary: st a rule: less_induct)
  case less
  show ?case
  proof (cases st a rule: handler_cases)
    case (used st1 n)
    note step = drain_step [OF used]
    have "length (drop (nat n) a) < length a" using step(2,3) by simp
    with less step(1) show ?thesis by metis
  qed (use less.prems in \<open>auto simp: drain.simps [of logged onMsg st a]\<close>)
qed

text \<open>
  Draining a stream in two parts: what the first part leaves is put before the second.
\<close>

lemma drain_append:
  "drain logged onMsg st (a @ b) =
     (case drain logged onMsg st a of
        Waiting st' rest \<Rightarrow> drain logged onMsg st' (rest @ b)
      | out \<Rightarrow> out)"
proof (induction "length a" arbitrary: st a rule: less_induct)
  case less
  show ?case
  proof (cases st a rule: handler_cases)
    case (panic p)
    then show ?thesis
      using stable [of st a b] by (simp add: drain.simps [of logged onMsg st])
  next
    case (error st' n e)
    then show ?thesis
      using stable [of st a b] by (simp add: drain.simps [of logged onMsg st])
  next
    case wait
    then show ?thesis by (simp add: drain_wait)
  next
    case (used st' n)
    note step = drain_step [OF used]
    have same: "onMsg st (a @ b) = Ret (st', n, None)"
      using stable [of st a b] used by simp
    have "length (drop (nat n) a) < length a" using step(2,3) by simp
    with less [of "drop (nat n) a" st'] step show ?thesis
      by (simp add: drain_step(1) [OF same \<open>n \<noteq> 0\<close>])
  qed
qed

text \<open>
  The TCP loop over any sequence of reads does what the specification does on the bytes they
  deliver together.
\<close>

lemma tcp_loop_stream:
  "onMsg (rd_state r) (readCaches r) = Ret (rd_state r, 0, None) \<Longrightarrow>
   erase_read (tcp_read_loop onMsg r (map (\<lambda>(buf, data). ReadOk buf data) cs)) =
     drain Some onMsg (rd_state r) (readCaches r @ concat (map snd cs))"
proof (induction cs arbitrary: r)
  case Nil
  then show ?case by (simp add: drain_wait)
next
  case (Cons c cs)
  obtain buf data where c: "c = (buf, data)" by fastforce
  let ?d = "drain Some onMsg (rd_state r) (readCaches r @ data)"
  have chunk: "erase_read (read_chunk onMsg Some r buf data) = ?d"
    by (rule read_chunk_refines)
  have all: "drain Some onMsg (rd_state r) (readCaches r @ data @ concat (map snd cs)) =
      (case ?d of Waiting st' rest \<Rightarrow> drain Some onMsg st' (rest @ concat (map snd cs)) | out \<Rightarrow> out)"
    using drain_append [of Some "rd_state r" "readCaches r @ data"] by simp
  show ?case
  proof (cases "read_chunk onMsg Some r buf data")
    case (Reading r')
    with chunk have d: "?d = Waiting (rd_state r') (readCaches r')" by simp
    from Cons.IH [OF drain_waits [OF d]] Reading all d c show ?thesis by simp
  next
    case (ReadEnd r' err)
    with chunk [symmetric] all c show ?thesis by simp
  next
    case (ReadPanic p)
    with chunk [symmetric] all c show ?thesis by simp
  qed
qed

lemma kcp_loop_stream:
  "onMsg (rd_state r) (readCaches r) = Ret (rd_state r, 0, None) \<Longrightarrow>
   erase_read (kcp_read_loop onMsg r (map (\<lambda>(buf, data). (ReadOk buf data, False)) cs)) =
     drain kcp_handler_logged onMsg (rd_state r) (readCaches r @ concat (map snd cs))"
proof (induction cs arbitrary: r)
  case Nil
  then show ?case by (simp add: drain_wait)
next
  case (Cons c cs)
  obtain buf data where c: "c = (buf, data)" by fastforce
  let ?d = "drain kcp_handler_logged onMsg (rd_state r) (readCaches r @ data)"
  have chunk: "erase_read (read_chunk onMsg kcp_handler_logged r buf data) = ?d"
    by (rule read_chunk_refines)
  have all: "drain kcp_handler_logged onMsg (rd_state r) (readCaches r @ data @ concat (map snd cs)) =
      (case ?d of Waiting st' rest \<Rightarrow> drain kcp_handler_logged onMsg st' (rest @ concat (map snd cs))
        | out \<Rightarrow> out)"
    using drain_append [of kcp_handler_logged "rd_state r" "readCaches r @ data"] by simp
  show ?case
  proof (cases "read_chunk onMsg kcp_handler_logged r buf data")
    case (Reading r')
    with chunk have d: "?d = Waiting (rd_state r') (readCaches r')" by simp
    from Cons.IH [OF drain_waits [OF d]] Reading all d c show ?thesis by simp
  next
    case (ReadEnd r' err)
    with chunk [symmetric] all c show ?thesis by simp
  next
    case (ReadPanic p)
    with chunk [symmetric] all c show ?thesis by simp
  qed
qed

end

text \<open>A new socket reads with an empty cache.\<close>

definition new_reader :: "'st \<Rightarrow> bytes list \<Rightarrow> 'st reader" where
  "new_reader st pool = \<lparr>rd_state = st, rd_pool = newBufferPool pool, readCaches = []\<rparr>"

lemma new_reader_simps [simp]:
  "rd_state (new_reader st pool) = st" "readCaches (new_reader st pool) = []"
  "rd_pool (new_reader st pool) = newBufferPool pool"
  by (simp_all add: new_reader_def)

end
