(* ===== verification/Udp_Session.thy ===== *)
theory Udp_Session
  imports Send_Port Stream_Read
begin

text \<open>
  The UDP session of \<open>pkg/xnet/udp_session.go\<close>: what a server or a client keeps for one remote address. A
  goroutine takes the datagrams from a bounded channel and hands them, one at a time, to the
  application's handler. The connect callback's result for an address and the handler are arguments.
\<close>

section \<open>State\<close>

definition udpMsgChanLimit :: nat where "udpMsgChanLimit = 1024"

text \<open>
  \<open>handlerLoop\<close>: before \<open>onConnect\<close>, in the loop and in \<open>onDisconnect\<close> (with the application's
  state), in \<open>wg.Done\<close>, gone.
\<close>

datatype 'st sh_pc = SHConnect | SHLoop 'st | SHDisconnect 'st | SHDone | SHExit

text \<open>
  The last three fields are history: the datagrams \<open>recvMsg\<close> took, those the handler was given, and the
  state \<open>onDisconnect\<close> was called with.
\<close>

record 'st udp_session =
  se_addr :: string
  se_activeAt :: i64
  se_pc :: "'st sh_pc"
  se_msgCh :: "bytes list"
  se_closeOnce :: bool
  se_closeCh :: bool
  se_wg :: int
  se_handlerErr :: "go_error option"
  se_panic :: "go_panic option"
  se_accepted :: "bytes list"
  se_handled :: "bytes list"
  se_disconnected :: "'st option"

definition NewUDPSession :: "string \<Rightarrow> i64 \<Rightarrow> 'st udp_session" where
  "NewUDPSession addr now =
     \<lparr>se_addr = addr, se_activeAt = now, se_pc = SHConnect, se_msgCh = [], se_closeOnce = False,
      se_closeCh = False, se_wg = 1, se_handlerErr = None, se_panic = None, se_accepted = [],
      se_handled = [], se_disconnected = None\<rparr>"

section \<open>Operations\<close>

text \<open>A datagram that is queued is activity; one that is refused is not.\<close>

definition session_recvMsg :: "'st udp_session \<Rightarrow> bytes \<Rightarrow> i64 \<Rightarrow> (go_error option \<times> 'st udp_session) list" where
  "session_recvMsg s msg now =
     map (\<lambda>(r, ch). (r, if r = None
                        then s\<lparr>se_msgCh := ch, se_activeAt := now, se_accepted := se_accepted s @ [msg]\<rparr>
                        else s\<lparr>se_msgCh := ch\<rparr>))
       (select_send udpMsgChanLimit SessionAlreadyClose SessionOverflow (se_msgCh s) (se_closeCh s) msg)"

definition session_forceClose :: "'st udp_session \<Rightarrow> 'st udp_session" where
  "session_forceClose s =
     (if se_closeOnce s then s
      else if se_closeCh s then s\<lparr>se_closeOnce := True, se_panic := Some CloseOfClosed\<rparr>
      else s\<lparr>se_closeOnce := True, se_closeCh := True\<rparr>)"

text \<open>\<open>Close\<close> is \<open>forceClose\<close> and the wait for the handler goroutine.\<close>

definition session_Close_returns :: "'st udp_session \<Rightarrow> bool" where
  "session_Close_returns s \<longleftrightarrow> se_closeOnce s \<and> se_wg s = 0"

definition session_wg_Done :: "'st udp_session \<Rightarrow> 'st udp_session" where
  "session_wg_Done s =
     (if se_wg s \<le> 0 then s\<lparr>se_panic := Some NegativeWaitGroup\<rparr> else s\<lparr>se_wg := se_wg s - 1\<rparr>)"

text \<open>One round of the loop with a datagram taken; a panic of the handler ends the process.\<close>

definition session_handle :: "'st on_handler_once \<Rightarrow> 'st \<Rightarrow> bytes \<Rightarrow> 'st udp_session \<Rightarrow> 'st udp_session" where
  "session_handle onMsg st msg s =
     (let s = s\<lparr>se_handled := se_handled s @ [msg]\<rparr> in
      case onMsg st msg of
        Panic p \<Rightarrow> s\<lparr>se_panic := Some p\<rparr>
      | Ret (st', _, None) \<Rightarrow> s\<lparr>se_pc := SHLoop st'\<rparr>
      | Ret (st', _, Some err) \<Rightarrow> s\<lparr>se_pc := SHDisconnect st', se_handlerErr := Some err\<rparr>)"

text \<open>The steps of \<open>handlerLoop\<close>; \<open>conn\<close> is what \<open>onConnect\<close> returns for a session.\<close>

inductive session_step :: "(string \<Rightarrow> 'st) \<Rightarrow> 'st on_handler_once \<Rightarrow> 'st udp_session \<Rightarrow> 'st udp_session \<Rightarrow> bool"
  for conn onMsg where
  sh_connect: "se_panic s = None \<Longrightarrow> se_pc s = SHConnect \<Longrightarrow>
    session_step conn onMsg s (s\<lparr>se_pc := SHLoop (conn (se_addr s))\<rparr>)"
| sh_msg: "se_panic s = None \<Longrightarrow> se_pc s = SHLoop st \<Longrightarrow> se_msgCh s = msg # q \<Longrightarrow>
    session_step conn onMsg s (session_handle onMsg st msg (s\<lparr>se_msgCh := q\<rparr>))"
| sh_closed: "se_panic s = None \<Longrightarrow> se_pc s = SHLoop st \<Longrightarrow> se_closeCh s \<Longrightarrow>
    session_step conn onMsg s (s\<lparr>se_pc := SHDisconnect st\<rparr>)"
| sh_disconnect: "se_panic s = None \<Longrightarrow> se_pc s = SHDisconnect st \<Longrightarrow>
    session_step conn onMsg s (s\<lparr>se_pc := SHDone, se_disconnected := Some st\<rparr>)"
| sh_done: "se_panic s = None \<Longrightarrow> se_pc s = SHDone \<Longrightarrow>
    session_step conn onMsg s (session_wg_Done (s\<lparr>se_pc := SHExit\<rparr>))"

text \<open>All steps: the handler goroutine, and callers of \<open>recvMsg\<close> and \<open>Close\<close>.\<close>

inductive session_sys :: "(string \<Rightarrow> 'st) \<Rightarrow> 'st on_handler_once \<Rightarrow> 'st udp_session \<Rightarrow> 'st udp_session \<Rightarrow> bool"
  for conn onMsg where
  sys_own: "session_step conn onMsg s t \<Longrightarrow> session_sys conn onMsg s t"
| sys_recv: "(r, t) \<in> set (session_recvMsg s msg now) \<Longrightarrow> session_sys conn onMsg s t"
| sys_close: "session_sys conn onMsg s (session_forceClose s)"

definition session_init :: "'st udp_session \<Rightarrow> bool" where
  "session_init s \<longleftrightarrow> (\<exists>addr now. s = NewUDPSession addr now)"

interpretation session_port: send_port se_msgCh se_closeCh udpMsgChanLimit SessionAlreadyClose SessionOverflow
    "\<lambda>s (m, now). m" "\<lambda>s (m, now). session_recvMsg s m now"
proof
  fix s s' :: "'a udp_session" and m :: "bytes \<times> i64" and e
  obtain msg now where m: "m = (msg, now)" by (cases m)
  note defs = m session_recvMsg_def in_select_send
  show "(case m of (m, now) \<Rightarrow> session_recvMsg s m now) \<noteq> []" by (simp add: defs)
  show "(None, s') \<in> set (case m of (m, now) \<Rightarrow> session_recvMsg s m now) \<Longrightarrow>
      length (se_msgCh s) < udpMsgChanLimit \<and> se_msgCh s' = se_msgCh s @ [case m of (m, now) \<Rightarrow> m]
      \<and> se_closeCh s' = se_closeCh s"
    by (auto simp: defs)
  show "(Some e, s') \<in> set (case m of (m, now) \<Rightarrow> session_recvMsg s m now) \<Longrightarrow>
      s' = s \<and> (e = SessionAlreadyClose \<and> se_closeCh s
        \<or> e = SessionOverflow \<and> \<not> se_closeCh s \<and> udpMsgChanLimit \<le> length (se_msgCh s))"
    by (cases s) (auto simp: defs)
  show "length (se_msgCh s) < udpMsgChanLimit \<Longrightarrow> \<exists>s'. (None, s') \<in> set (case m of (m, now) \<Rightarrow> session_recvMsg s m now)"
    by (force simp: defs)
qed simp

section \<open>Invariant\<close>

text \<open>
  The serial reference: the datagrams handled one after another up to the first error, with the state,
  the error and the datagrams left over.
\<close>

fun serve :: "'st on_handler_once \<Rightarrow> 'st \<Rightarrow> bytes list \<Rightarrow> ('st \<times> go_error option \<times> bytes list) go" where
  "serve onMsg st [] = Ret (st, None, [])"
| "serve onMsg st (m # ms) =
     (case onMsg st m of
        Panic p \<Rightarrow> Panic p
      | Ret (st', _, None) \<Rightarrow> serve onMsg st' ms
      | Ret (st', _, Some err) \<Rightarrow> Ret (st', Some err, ms))"

lemma serve_snoc:
  "serve onMsg st ms = Ret (st1, None, []) \<Longrightarrow> serve onMsg st (ms @ [m]) = serve onMsg st1 [m]"
  by (induction ms arbitrary: st) (auto split: go.splits option.splits)

text \<open>How far the goroutine has come: still connected, on its way out, past \<open>onDisconnect\<close>.\<close>

definition session_outcome :: "'st udp_session \<Rightarrow> ('st \<times> go_error option \<times> bytes list) go \<Rightarrow> bool" where
  "session_outcome s r \<longleftrightarrow>
     (case se_panic s of
        Some p \<Rightarrow> r = Panic p \<and> se_disconnected s = None \<and> (\<exists>st. se_pc s = SHLoop st)
      | None \<Rightarrow>
          (case se_pc s of
             SHConnect \<Rightarrow> se_handled s = [] \<and> se_handlerErr s = None \<and> se_disconnected s = None
           | SHLoop st \<Rightarrow> r = Ret (st, None, []) \<and> se_handlerErr s = None \<and> se_disconnected s = None
           | SHDisconnect st \<Rightarrow> r = Ret (st, se_handlerErr s, []) \<and> se_disconnected s = None
           | _ \<Rightarrow> \<exists>st. r = Ret (st, se_handlerErr s, []) \<and> se_disconnected s = Some st))"

fun sh_leaving :: "'st sh_pc \<Rightarrow> bool" where
  "sh_leaving SHConnect = False"
| "sh_leaving (SHLoop st) = False"
| "sh_leaving _ = True"

definition session_queue_inv :: "'st udp_session \<Rightarrow> bool" where
  "session_queue_inv s \<longleftrightarrow> se_handled s @ se_msgCh s = se_accepted s \<and> length (se_msgCh s) \<le> udpMsgChanLimit"

definition session_control_inv :: "'st udp_session \<Rightarrow> bool" where
  "session_control_inv s \<longleftrightarrow> se_closeOnce s = se_closeCh s
     \<and> se_wg s = (case se_pc s of SHExit \<Rightarrow> 0 | _ \<Rightarrow> 1)
     \<and> (sh_leaving (se_pc s) \<longrightarrow> se_closeCh s \<or> se_handlerErr s \<noteq> None)"

definition session_inv :: "(string \<Rightarrow> 'st) \<Rightarrow> 'st on_handler_once \<Rightarrow> 'st udp_session \<Rightarrow> bool" where
  "session_inv conn onMsg s \<longleftrightarrow> session_outcome s (serve onMsg (conn (se_addr s)) (se_handled s))
     \<and> session_queue_inv s \<and> session_control_inv s"

lemmas session_inv_defs = session_inv_def session_outcome_def session_queue_inv_def session_control_inv_def

lemma session_step_panic: "session_step conn onMsg s t \<Longrightarrow> se_panic s = None"
  by (cases rule: session_step.cases) auto

lemma session_step_inv: "session_step conn onMsg s t \<Longrightarrow> session_inv conn onMsg s \<Longrightarrow> session_inv conn onMsg t"
proof (induction rule: session_step.induct)
  case (sh_msg s st msg q)
  then have so: "serve onMsg (conn (se_addr s)) (se_handled s) = Ret (st, None, [])"
    by (simp add: session_inv_defs)
  note snoc = serve_snoc [OF so, of msg]
  show ?case using sh_msg
    by (auto simp: session_inv_defs session_handle_def Let_def snoc split: go.splits option.splits)
qed (auto simp: session_inv_defs session_wg_Done_def split: sh_pc.splits)

lemma session_recvMsg_cases:
  "(r, t) \<in> set (session_recvMsg s msg now) \<Longrightarrow>
     t = s \<and> r \<noteq> None \<or> r = None \<and> length (se_msgCh s) < udpMsgChanLimit
       \<and> t = s\<lparr>se_msgCh := se_msgCh s @ [msg], se_activeAt := now, se_accepted := se_accepted s @ [msg]\<rparr>"
  by (cases s) (auto simp: session_recvMsg_def in_select_send)

lemma session_outcome_recv [simp]:
  "session_outcome (s\<lparr>se_msgCh := q, se_activeAt := now, se_accepted := a\<rparr>) r = session_outcome s r"
  "session_outcome (s\<lparr>se_closeOnce := b, se_closeCh := c\<rparr>) r = session_outcome s r"
  by (simp_all add: session_outcome_def split: option.split sh_pc.split)

lemma session_recvMsg_inv:
  assumes "(r, t) \<in> set (session_recvMsg s msg now)" and "session_inv conn onMsg s"
  shows "session_inv conn onMsg t"
  using session_recvMsg_cases [OF assms(1)] assms(2)
  by (elim disjE conjE)
    (simp_all add: session_inv_def session_queue_inv_def session_control_inv_def flip: append_assoc)

lemma session_forceClose_inv: "session_inv conn onMsg s \<Longrightarrow> session_inv conn onMsg (session_forceClose s)"
  by (simp add: session_inv_def session_queue_inv_def session_control_inv_def session_forceClose_def)

interpretation session_sys: inductive_invariant session_init "session_sys conn onMsg" "session_inv conn onMsg"
  for conn onMsg
proof
  show "session_inv conn onMsg s" if "session_init s" for s
    using that by (auto simp: session_init_def NewUDPSession_def session_inv_defs)
  show "session_inv conn onMsg t" if "session_inv conn onMsg s" "session_sys conn onMsg s t" for s t
    using that(2,1)
    by (induction rule: session_sys.induct)
      (auto intro: session_step_inv session_recvMsg_inv session_forceClose_inv)
qed

section \<open>Closing\<close>

fun sh_rank :: "'st sh_pc \<Rightarrow> nat \<Rightarrow> nat" where
  "sh_rank SHConnect q = q + 4"
| "sh_rank (SHLoop st) q = q + 3"
| "sh_rank (SHDisconnect st) q = 2"
| "sh_rank SHDone q = 1"
| "sh_rank SHExit q = 0"

definition session_rank :: "'st udp_session \<Rightarrow> nat" where
  "session_rank s = sh_rank (se_pc s) (length (se_msgCh s))"

definition session_closing :: "(string \<Rightarrow> 'st) \<Rightarrow> 'st on_handler_once \<Rightarrow> 'st udp_session \<Rightarrow> bool" where
  "session_closing conn onMsg s \<longleftrightarrow> session_inv conn onMsg s \<and> se_closeOnce s \<and> se_panic s = None
     \<and> (\<forall>st m. no_panic (onMsg st m))"

lemma session_step_closing:
  assumes "session_closing conn onMsg s" and "session_step conn onMsg s t"
  shows "session_closing conn onMsg t"
proof -
  have "se_closeOnce t \<and> se_panic t = None" using assms(2,1)
  proof (induction rule: session_step.induct)
    case (sh_msg s st msg q)
    then have "no_panic (onMsg st msg)" "se_closeOnce s" by (simp_all add: session_closing_def)
    with sh_msg show ?case by (auto simp: session_handle_def Let_def split: go.splits option.splits)
  next
    case (sh_done s)
    then show ?case by (auto simp: session_closing_def session_inv_defs session_wg_Done_def)
  qed (simp_all add: session_closing_def)
  with assms show ?thesis by (auto simp: session_closing_def intro: session_step_inv)
qed

lemma session_step_rank: "session_step conn onMsg s t \<Longrightarrow> session_rank t < session_rank s \<or> se_panic t \<noteq> None"
  by (induction rule: session_step.induct)
    (auto simp: session_rank_def session_handle_def session_wg_Done_def Let_def split: go.splits option.splits)

lemma session_step_enabled:
  "session_closing conn onMsg s \<Longrightarrow> 0 < session_rank s \<Longrightarrow> \<exists>t. session_step conn onMsg s t"
  by (cases "se_pc s")
    (auto simp: session_closing_def session_rank_def session_inv_defs intro: session_step.intros)

interpretation session_shutdown: progress_measure "session_closing conn onMsg" "session_step conn onMsg"
    "session_closing conn onMsg" "session_step conn onMsg" session_rank for conn onMsg
proof
  fix s t
  assume c: "session_closing conn onMsg s"
  show "session_closing conn onMsg t" if "session_step conn onMsg s t"
    by (rule session_step_closing [OF c that])
  show "session_rank t < session_rank s" if "session_step conn onMsg s t"
    using session_step_rank [OF that] session_step_closing [OF c that] by (auto simp: session_closing_def)
  show "\<exists>t. session_step conn onMsg s t" if "0 < session_rank s"
    by (rule session_step_enabled [OF c that])
qed

text \<open>The goroutine of a session that is closed comes to its end.\<close>

lemma session_ends:
  assumes inv: "session_inv conn onMsg s" and "se_panic s = None" and "\<forall>st m. no_panic (onMsg st m)"
  shows "\<exists>t. steps (session_step conn onMsg) (session_forceClose s) t \<and> session_Close_returns t
    \<and> se_disconnected t \<noteq> None \<and> se_panic t = None"
proof -
  let ?s = "session_forceClose s"
  have "session_closing conn onMsg ?s"
    using session_forceClose_inv [OF inv] inv assms(2,3)
    by (auto simp: session_closing_def session_forceClose_def session_inv_def session_control_inv_def)
  then obtain t where t: "steps (session_step conn onMsg) ?s t" "session_rank t = 0"
    and c: "session_closing conn onMsg t" using session_shutdown.reaches_goal by blast
  have pc: "se_pc t = SHExit" using t(2) by (cases "se_pc t") (simp_all add: session_rank_def)
  with c have "session_Close_returns t" "se_disconnected t \<noteq> None" "se_panic t = None"
    by (auto simp: session_closing_def session_inv_defs session_Close_returns_def)
  with t(1) show ?thesis by blast
qed

section \<open>After a handler error\<close>

definition session_dead :: "'st udp_session \<Rightarrow> bool" where
  "session_dead s \<longleftrightarrow> sh_leaving (se_pc s)"

lemma session_step_dead: "session_step conn onMsg s t \<Longrightarrow> session_dead s \<Longrightarrow> session_dead t \<and> se_handled t = se_handled s"
  by (induction rule: session_step.induct) (auto simp: session_dead_def session_wg_Done_def)

lemma session_sys_dead: "session_sys conn onMsg s t \<Longrightarrow> session_dead s \<Longrightarrow> session_dead t \<and> se_handled t = se_handled s"
proof (induction rule: session_sys.induct)
  case (sys_own s t)
  then show ?case by (rule session_step_dead)
next
  case (sys_recv r t s msg now)
  then show ?case using session_recvMsg_cases [OF sys_recv.hyps] by (auto simp: session_dead_def)
qed (simp add: session_dead_def session_forceClose_def)

lemma session_steps_dead:
  "steps (session_sys conn onMsg) s t \<Longrightarrow> session_dead s \<Longrightarrow> session_dead t \<and> se_handled t = se_handled s"
  by (induction rule: steps.induct) (auto dest: session_sys_dead)

lemma handlerErr_dead: "session_inv conn onMsg s \<Longrightarrow> se_handlerErr s = Some e \<Longrightarrow> se_panic s = None \<Longrightarrow> session_dead s"
  by (cases "se_pc s") (auto simp: session_inv_defs session_dead_def)

section \<open>Properties\<close>

text \<open>C34.
  The session hands the datagrams it accepted to the handler one at a time and in order: at any time they
  are the handled ones followed by at most 1024 queued ones, and the application's state (in the
  loop, and at \<open>onDisconnect\<close>) is what handling the first ones serially from \<open>onConnect\<close>'s state gives. Nothing is
  handled after an error, no close or wait group panics, and a panic is the handler's own.
\<close>

theorem udp_session_serves_in_order:
  assumes "reachable session_init (session_sys conn onMsg) s"
  shows "se_handled s @ se_msgCh s = se_accepted s \<and> length (se_msgCh s) \<le> udpMsgChanLimit
    \<and> (se_pc s = SHLoop st \<and> se_panic s = None \<longrightarrow> serve onMsg (conn (se_addr s)) (se_handled s) = Ret (st, None, []))
    \<and> (se_disconnected s = Some st \<longrightarrow> serve onMsg (conn (se_addr s)) (se_handled s) = Ret (st, se_handlerErr s, []))
    \<and> (se_panic s = Some p \<longrightarrow> serve onMsg (conn (se_addr s)) (se_handled s) = Panic p)"
proof -
  have inv: "session_queue_inv s" "session_outcome s (serve onMsg (conn (se_addr s)) (se_handled s))"
    using session_sys.inv_reachable [OF assms] by (simp_all add: session_inv_def)
  then show ?thesis
    by (auto simp: session_queue_inv_def session_outcome_def split: option.splits sh_pc.splits)
qed

text \<open>
  \<open>Close\<close> of a session completes when the handler does not panic: the handler goroutine alone leads from any state of the session
  to one where \<open>Close\<close> returns, and \<open>onDisconnect\<close> has been called with the application's state.
\<close>

theorem udp_session_close_completes:
  assumes "reachable session_init (session_sys conn onMsg) s" and "se_panic s = None"
    and "\<forall>st m. no_panic (onMsg st m)"
  shows "\<exists>t. steps (session_step conn onMsg) (session_forceClose s) t \<and> session_Close_returns t
    \<and> se_disconnected t \<noteq> None \<and> se_panic t = None"
  using session_ends [OF session_sys.inv_reachable [OF assms(1)] assms(2,3)] .

text \<open>
  A session whose handler returned an error is not closed: while nobody closes it, it goes on taking datagrams
  and counting them as activity until its channel holds 1024 of them, refuses the rest, and none of them is ever
  handled.
\<close>

theorem udp_session_zombie:
  assumes "reachable session_init (session_sys conn onMsg) s" and "se_handlerErr s = Some e" and "se_panic s = None"
    and "steps (session_sys conn onMsg) s t" and "\<not> se_closeOnce t"
  shows "se_handled t = se_handled s
    \<and> session_recvMsg t msg now =
        (if length (se_msgCh t) < udpMsgChanLimit
         then [(None, t\<lparr>se_msgCh := se_msgCh t @ [msg], se_activeAt := now, se_accepted := se_accepted t @ [msg]\<rparr>)]
         else [(Some SessionOverflow, t)])"
proof -
  have inv: "session_inv conn onMsg s" by (rule session_sys.inv_reachable [OF assms(1)])
  have "session_inv conn onMsg t" by (rule session_sys.inv_steps [OF assms(4) inv])
  then have open': "\<not> se_closeCh t" using assms(5) by (simp add: session_inv_def session_control_inv_def)
  have "se_handled t = se_handled s"
    using session_steps_dead [OF assms(4)] handlerErr_dead [OF inv assms(2,3)] by blast
  with open' show ?thesis by (cases t) (simp add: session_recvMsg_def select_send_def)
qed

section \<open>Witnesses\<close>

text \<open>A handler that counts the bytes and fails on an empty datagram.\<close>

definition sum_handler :: "nat on_handler_once" where
  "sum_handler st m = (if m = [] then Ret (st, 0, Some (ExtErr ''empty'')) else Ret (st + length m, 0, None))"

definition sess_run :: "nat udp_session" where
  "sess_run = (NewUDPSession ''a'' 5)\<lparr>se_pc := SHLoop 2, se_activeAt := 8, se_accepted := [[1, 2], []],
     se_handled := [[1, 2]], se_msgCh := [[]]\<rparr>"

definition sess_failed :: "nat udp_session" where
  "sess_failed = sess_run\<lparr>se_pc := SHDisconnect 2, se_handled := [[1, 2], []], se_msgCh := [],
     se_handlerErr := Some (ExtErr ''empty'')\<rparr>"

lemma sess_run_reachable: "reachable session_init (session_sys (\<lambda>_. 0) sum_handler) sess_run"
proof -
  let ?R = "reachable session_init (session_sys (\<lambda>_. 0) sum_handler)"
  let ?s0 = "NewUDPSession ''a'' 5 :: nat udp_session"
  have r0: "?R ?s0" by (rule reach_init) (auto simp: session_init_def)
  let ?s1 = "?s0\<lparr>se_pc := SHLoop 0\<rparr>"
  have "session_step (\<lambda>_. 0) sum_handler ?s0 (?s0\<lparr>se_pc := SHLoop ((\<lambda>_. 0) (se_addr ?s0))\<rparr>)"
    by (rule sh_connect) (simp_all add: NewUDPSession_def)
  then have r1: "?R ?s1" using reach_step [OF r0 sys_own] by simp
  let ?s2 = "?s1\<lparr>se_msgCh := [[1, 2]], se_activeAt := 8, se_accepted := [[1, 2]]\<rparr>"
  have "(None, ?s2) \<in> set (session_recvMsg ?s1 [1, 2] 8)"
    by (simp add: session_recvMsg_def NewUDPSession_def select_send_def udpMsgChanLimit_def)
  then have r2: "?R ?s2" by (rule reach_step [OF r1 sys_recv])
  let ?s3 = "?s2\<lparr>se_msgCh := [], se_handled := [[1, 2]], se_pc := SHLoop 2\<rparr>"
  have "session_step (\<lambda>_. 0) sum_handler ?s2 (session_handle sum_handler 0 [1, 2] (?s2\<lparr>se_msgCh := []\<rparr>))"
    by (rule sh_msg) (simp_all add: NewUDPSession_def)
  then have "session_sys (\<lambda>_. 0) sum_handler ?s2 ?s3"
    by (simp add: session_handle_def sum_handler_def NewUDPSession_def numeral_2_eq_2 session_sys.sys_own)
  then have r3: "?R ?s3" by (rule reach_step [OF r2])
  have "(None, sess_run) \<in> set (session_recvMsg ?s3 [] 8)"
    by (simp add: session_recvMsg_def NewUDPSession_def select_send_def udpMsgChanLimit_def sess_run_def)
  then show ?thesis by (rule reach_step [OF r3 sys_recv])
qed

lemma sess_failed_reachable: "reachable session_init (session_sys (\<lambda>_. 0) sum_handler) sess_failed"
proof -
  have "session_step (\<lambda>_. 0) sum_handler sess_run (session_handle sum_handler 2 [] (sess_run\<lparr>se_msgCh := []\<rparr>))"
    by (rule sh_msg) (simp_all add: sess_run_def NewUDPSession_def)
  then have "session_step (\<lambda>_. 0) sum_handler sess_run sess_failed"
    by (simp add: session_handle_def sum_handler_def sess_run_def sess_failed_def NewUDPSession_def)
  then show ?thesis by (rule reach_step [OF sess_run_reachable sys_own])
qed

theorem udp_session_serves_in_order_witness:
  "se_pc sess_run = SHLoop 2 \<and> serve sum_handler 0 [[1, 2]] = Ret (2, None, [])"
  using udp_session_serves_in_order [OF sess_run_reachable, of 2] by (simp add: sess_run_def NewUDPSession_def)

theorem udp_session_close_completes_witness:
  "\<exists>t. steps (session_step (\<lambda>_. 0) sum_handler) (session_forceClose sess_run) t \<and> session_Close_returns t
     \<and> se_disconnected t \<noteq> None"
  using udp_session_close_completes [OF sess_run_reachable] by (force simp: sess_run_def NewUDPSession_def sum_handler_def)

theorem udp_session_zombie_witness:
  "session_recvMsg sess_failed [7] 99 =
     [(None, sess_failed\<lparr>se_msgCh := [[7]], se_activeAt := 99, se_accepted := [[1, 2], [], [7]]\<rparr>)]"
  using udp_session_zombie [OF sess_failed_reachable _ _ steps_refl, of "ExtErr ''empty''" "[7]" 99]
  by (simp add: sess_failed_def sess_run_def NewUDPSession_def udpMsgChanLimit_def)

end
