(* ===== verification/Go_Strings.thy ===== *)
theory Go_Strings
  imports Gotu_Prelude
begin

text \<open>
  Go's strings as the code uses them: the conversions between strings and byte slices, the decimal form \<open>fmt.Sprintf("%d", i)\<close>
  gives an integer (\<open>%v\<close> gives the same) and \<open>strconv.Atoi\<close>, which reads it back. A string is a list of characters of one byte.
\<close>

section \<open>Conversions\<close>

text \<open>\<open>[]byte(s)\<close> and \<open>string(b)\<close>\<close>

definition bytes_of :: "string \<Rightarrow> bytes" where
  "bytes_of s = map of_char s"

definition string_of :: "bytes \<Rightarrow> string" where
  "string_of b = map (\<lambda>x. char_of (unat x)) b"

lemma string_of_bytes_of [simp]: "string_of (bytes_of s) = s"
proof -
  have "char_of (unat (of_char c :: byte)) = c" for c
  proof -
    have "unat (word_of_nat (of_char c) :: byte) = of_char c mod 256" by (simp add: unat_of_nat)
    then have "unat (of_char c :: byte) = of_char c" by (simp only: of_nat_of_char of_char_mod_256)
    then show ?thesis by simp
  qed
  then show ?thesis by (simp add: string_of_def bytes_of_def comp_def)
qed

lemma length_bytes_of [simp]: "length (bytes_of s) = length s"
  by (simp add: bytes_of_def)

section \<open>Decimals\<close>

definition digit :: "nat \<Rightarrow> char" where
  "digit d = char_of (48 + d)"

function decimal :: "nat \<Rightarrow> string" where
  "decimal n = (if n < 10 then [digit n] else decimal (n div 10) @ [digit (n mod 10)])"
  by pat_completeness auto
termination by (relation "measure id") auto

declare decimal.simps [simp del]

definition itoa :: "int \<Rightarrow> string" where
  "itoa i = (if i < 0 then CHR ''-'' # decimal (nat (- i)) else decimal (nat i))"

text \<open>
  \<open>Atoi\<close>: an optional sign, then at least one digit and only digits, and a value an \<open>int\<close> (64 bits) holds. \<open>None\<close> is any of its
  errors; the code asks only whether there was one.
\<close>

definition digit_val :: "char \<Rightarrow> nat option" where
  "digit_val c = (let v = of_char c :: nat in if 48 \<le> v \<and> v \<le> 57 then Some (v - 48) else None)"

fun read_digits :: "nat \<Rightarrow> string \<Rightarrow> nat option" where
  "read_digits n [] = Some n"
| "read_digits n (c # cs) = (case digit_val c of None \<Rightarrow> None | Some d \<Rightarrow> read_digits (10 * n + d) cs)"

fun split_sign :: "string \<Rightarrow> bool \<times> string" where
  "split_sign [] = (False, [])"
| "split_sign (c # cs) = (if c = CHR ''-'' then (True, cs) else if c = CHR ''+'' then (False, cs) else (False, c # cs))"

definition Atoi :: "string \<Rightarrow> int option" where
  "Atoi s =
     (let (neg, ds) = split_sign s in
      if ds = [] then None
      else case read_digits 0 ds of
          None \<Rightarrow> None
        | Some n \<Rightarrow>
            let i = (if neg then - int n else int n) in
            if - (2 ^ 63) \<le> i \<and> i < 2 ^ 63 then Some i else None)"

section \<open>Facts\<close>

lemma of_char_digit: "d < 10 \<Longrightarrow> (of_char (digit d) :: nat) = 48 + d"
  by (simp add: digit_def)

lemma digit_val_digit [simp]: "d < 10 \<Longrightarrow> digit_val (digit d) = Some d"
  by (simp add: digit_val_def of_char_digit)

text \<open>The characters of a decimal.\<close>

definition is_digit :: "char \<Rightarrow> bool" where
  "is_digit c \<longleftrightarrow> digit_val c \<noteq> None"

lemma is_digit_digit [simp]: "d < 10 \<Longrightarrow> is_digit (digit d)"
  by (simp add: is_digit_def)

lemma not_is_digit [simp]: "\<not> is_digit (CHR ''-'')" "\<not> is_digit (CHR ''+'')" "\<not> is_digit (CHR ''m'')"
  by (simp_all add: is_digit_def digit_val_def)

lemma decimal_digits: "list_all is_digit (decimal n)"
proof (induction n rule: decimal.induct)
  case (1 n)
  then show ?case by (subst decimal.simps) simp
qed

lemma decimal_nonempty [simp]: "decimal n \<noteq> []"
  by (subst decimal.simps) simp

lemma read_digits_append:
  "read_digits n (xs @ ys) = (case read_digits n xs of None \<Rightarrow> None | Some k \<Rightarrow> read_digits k ys)"
  by (induction n xs rule: read_digits.induct) (auto split: option.split)

lemma read_decimal [simp]: "read_digits 0 (decimal n) = Some n"
proof (induction n rule: decimal.induct)
  case (1 n)
  show ?case
  proof (cases "n < 10")
    case True
    then show ?thesis by (simp add: decimal.simps [of n])
  next
    case False
    with 1 show ?thesis by (simp add: decimal.simps [of n] read_digits_append)
  qed
qed

lemma split_sign_decimal: "split_sign (decimal n) = (False, decimal n)"
proof (cases "decimal n")
  case (Cons c cs)
  with decimal_digits [of n] have "is_digit c" by simp
  then have "c \<noteq> CHR ''-''" "c \<noteq> CHR ''+''" by auto
  with Cons show ?thesis by simp
qed simp

lemma Atoi_itoa: "- (2 ^ 63) \<le> i \<Longrightarrow> i < 2 ^ 63 \<Longrightarrow> Atoi (itoa i) = Some i"
  by (simp add: Atoi_def itoa_def split_sign_decimal)

lemma decimal_inject [simp]: "decimal m = decimal n \<longleftrightarrow> m = n"
  by (metis option.inject read_decimal)

lemma itoa_inject [simp]: "itoa i = itoa j \<longleftrightarrow> i = j"
proof -
  have neq: "decimal m \<noteq> CHR ''-'' # cs" for m cs
    using decimal_digits [of m] by auto
  show ?thesis by (auto simp: itoa_def neq neq [symmetric])
qed

text \<open>The bytes of a printed \<open>int64\<close> are read back to it.\<close>

lemma Atoi_i64 [simp]: "Atoi (itoa (sint (w :: i64))) = Some (sint w)"
  using sint_ge [of w] sint_lt [of w] by (intro Atoi_itoa) simp_all

lemma length_decimal: "0 < k \<Longrightarrow> n < 10 ^ k \<Longrightarrow> length (decimal n) \<le> k"
proof (induction k arbitrary: n)
  case (Suc k)
  show ?case
  proof (cases "n < 10")
    case False
    then have "0 < k" using Suc.prems(2) by (cases k) auto
    moreover have "n div 10 < 10 ^ k" using Suc.prems(2) by (simp add: less_mult_imp_div_less mult.commute)
    ultimately have "length (decimal (n div 10)) \<le> k" by (rule Suc.IH)
    with False show ?thesis by (simp add: decimal.simps [of n])
  qed (simp add: decimal.simps [of n])
qed simp

lemma length_itoa_i64: "length (itoa (sint (w :: i64))) \<le> 20"
proof -
  have "length (decimal (nat \<bar>sint w\<bar>)) \<le> 19"
    using sint_ge [of w] sint_lt [of w] by (intro length_decimal) auto
  then show ?thesis by (auto simp: itoa_def abs_if split: if_splits)
qed

end
