(* ===== verification/Udp_Addr.thy ===== *)
theory Udp_Addr
  imports Go_Strings
begin

text \<open>
  The addresses of datagrams, \<open>net.UDPAddr\<close>, and the keys \<open>addrToString\<close> of \<open>pkg/xnet/common.go\<close> makes of them for the session
  table of the UDP server, with \<open>net.IP.String\<close> as the standard library has it: dotted decimals, or groups of hexadecimals with
  the longest run of zero groups left out.
\<close>

section \<open>Texts\<close>

text \<open>Fields put together with a separator, and taken apart at it.\<close>

fun join_with :: "char \<Rightarrow> string list \<Rightarrow> string" where
  "join_with c [] = []"
| "join_with c [x] = x"
| "join_with c (x # y # ys) = x @ c # join_with c (y # ys)"

fun split_at :: "char \<Rightarrow> string \<Rightarrow> string list" where
  "split_at c [] = [[]]"
| "split_at c (x # xs) =
     (if x = c then [] # split_at c xs else (x # hd (split_at c xs)) # tl (split_at c xs))"

lemma split_at_nonempty [simp]: "split_at c xs \<noteq> []"
  by (cases xs) simp_all

lemma split_at_append: "c \<notin> set x \<Longrightarrow> split_at c (x @ c # s) = x # split_at c s"
  by (induction x) auto

lemma split_at_field: "c \<notin> set x \<Longrightarrow> split_at c x = [x]"
  by (induction x) auto

lemma split_join:
  "xs \<noteq> [] \<Longrightarrow> \<forall>x \<in> set xs. c \<notin> set x \<Longrightarrow> split_at c (join_with c xs) = xs"
  "xs \<noteq> [] \<Longrightarrow> \<forall>x \<in> set xs. c \<notin> set x \<Longrightarrow> split_at c (join_with c xs @ c # s) = xs @ split_at c s"
  by (induction c xs rule: join_with.induct) (simp_all add: split_at_append split_at_field)

lemma set_join: "set (join_with c xs) \<subseteq> insert c (\<Union> (set ` set xs))"
  by (induction c xs rule: join_with.induct) auto

lemma join_inject:
  assumes "\<forall>x \<in> set xs. c \<notin> set x" and "\<forall>y \<in> set ys. c \<notin> set y" and "xs \<noteq> []" and "ys \<noteq> []"
    and "join_with c xs = join_with c ys"
  shows "xs = ys"
  using assms split_join(1) by metis

text \<open>The last separator tells where the fields before it end.\<close>

lemma last_separator:
  fixes c :: char
  assumes "xs @ c # ys = xs' @ c # ys'" and "c \<notin> set ys" and "c \<notin> set ys'"
  shows "xs = xs' \<and> ys = ys'"
proof -
  have "split_at c (rev ys @ c # rev xs) = split_at c (rev ys' @ c # rev xs')"
    using arg_cong [OF assms(1), of rev] by simp
  then have "ys = ys'" using assms(2,3) by (simp add: split_at_append)
  with assms(1) show ?thesis by simp
qed

section \<open>Hexadecimals\<close>

definition hex_digit :: "nat \<Rightarrow> char" where
  "hex_digit d = (if d < 10 then digit d else char_of (87 + d))"

definition hex_val :: "char \<Rightarrow> nat" where
  "hex_val c = (let v = of_char c :: nat in if v < 58 then v - 48 else v - 87)"

text \<open>\<open>appendHex\<close>: no leading zeros.\<close>

function appendHex :: "nat \<Rightarrow> string" where
  "appendHex n = (if n < 16 then [hex_digit n] else appendHex (n div 16) @ [hex_digit (n mod 16)])"
  by pat_completeness auto
termination by (relation "measure id") auto

declare appendHex.simps [simp del]

text \<open>\<open>hexString\<close>: two digits for each byte.\<close>

definition hexString :: "bytes \<Rightarrow> string" where
  "hexString b = concat (map (\<lambda>x. [hex_digit (unat x div 16), hex_digit (unat x mod 16)]) b)"

definition hex_chars :: "char set" where
  "hex_chars = hex_digit ` {..<16}"

lemma hex_val_digit [simp]: "d < 16 \<Longrightarrow> hex_val (hex_digit d) = d"
  by (auto simp: hex_val_def hex_digit_def of_char_digit)

lemma hex_digit_inject: "d < 16 \<Longrightarrow> e < 16 \<Longrightarrow> hex_digit d = hex_digit e \<longleftrightarrow> d = e"
  by (metis hex_val_digit)

lemma hex_digit_chars [simp]: "d < 16 \<Longrightarrow> hex_digit d \<in> hex_chars"
  by (simp add: hex_chars_def)

lemma hex_chars_code: "c \<in> hex_chars \<Longrightarrow> 48 \<le> (of_char c :: nat) \<and> (of_char c :: nat) \<noteq> 58"
  by (auto simp: hex_chars_def hex_digit_def of_char_digit)

lemma not_hex_char [simp]: "CHR '':'' \<notin> hex_chars" "CHR ''.'' \<notin> hex_chars"
  using hex_chars_code [of "CHR '':''"] hex_chars_code [of "CHR ''.''"] by auto

lemma appendHex_chars: "set (appendHex n) \<subseteq> hex_chars"
  by (induction n rule: appendHex.induct) (subst appendHex.simps, auto)

lemma appendHex_nonempty [simp]: "appendHex n \<noteq> []"
  by (subst appendHex.simps) simp

definition hex_read :: "string \<Rightarrow> nat" where
  "hex_read = foldl (\<lambda>n c. 16 * n + hex_val c) 0"

lemma hex_read_append [simp]: "hex_read (appendHex n) = n"
proof (induction n rule: appendHex.induct)
  case (1 n)
  then show ?case by (subst appendHex.simps) (simp add: hex_read_def)
qed

lemma appendHex_sep [simp]: "CHR '':'' \<notin> set (appendHex n)" "CHR ''.'' \<notin> set (appendHex n)"
  using appendHex_chars [of n] not_hex_char by blast+

lemma hexString_inject: "hexString a = hexString b \<longleftrightarrow> a = b"
proof
  assume "hexString a = hexString b"
  then show "a = b"
  proof (induction a arbitrary: b)
    case Nil
    then show ?case by (cases b) (simp_all add: hexString_def)
  next
    case (Cons x a)
    then obtain y b' where b: "b = y # b'" by (cases b) (simp_all add: hexString_def)
    have lt: "unat (z :: byte) div 16 < 16" for z using unsigned_less [of z, where 'a = nat] by simp
    with Cons b have "unat x div 16 = unat y div 16" "unat x mod 16 = unat y mod 16" "hexString a = hexString b'"
      by (simp_all add: hexString_def hex_digit_inject)
    then have "unat x = unat y" by (metis div_mult_mod_eq)
    with Cons b \<open>hexString a = hexString b'\<close> show ?case by (simp add: word_unat_eq_iff)
  qed
qed simp

section \<open>IP addresses\<close>

text \<open>\<open>net.IP\<close>: a slice of bytes, 4 or 16 of them when the address comes from a socket. \<open>To4\<close> gives the 4 bytes of an address mapped into IPv6.\<close>

definition To4 :: "bytes \<Rightarrow> bytes option" where
  "To4 ip =
     (if length ip = 4 then Some ip
      else if length ip = 16 \<and> take 10 ip = replicate 10 0 \<and> ip ! 10 = 255 \<and> ip ! 11 = 255 then Some (drop 12 ip)
      else None)"

definition dotted :: "bytes \<Rightarrow> string" where
  "dotted p = join_with (CHR ''.'') (map (\<lambda>x. itoa (uint x)) p)"

text \<open>The groups of two bytes.\<close>

fun ip_groups :: "bytes \<Rightarrow> nat list" where
  "ip_groups (x # y # p) = (unat x * 256 + unat y) # ip_groups p"
| "ip_groups _ = []"

text \<open>The loop for the longest run of zero groups: \<open>e\<close> is where the best one so far begins, and its length.\<close>

function zero_run :: "nat list \<Rightarrow> nat \<Rightarrow> nat \<times> nat \<Rightarrow> nat \<times> nat" where
  "zero_run gs i e =
     (if i < length gs then
        (let n = length (takeWhile (\<lambda>g. g = 0) (drop i gs)) in
         if snd e < n then zero_run gs (i + n + 1) (i, n) else zero_run gs (i + 1) e)
      else e)"
  by pat_completeness auto
termination by (relation "measure (\<lambda>(gs, i, e). length gs - i)") auto

declare zero_run.simps [simp del]

definition colons :: "bytes \<Rightarrow> string" where
  "colons p =
     (let gs = ip_groups p; (e0, n) = zero_run gs 0 (0, 0); field = (\<lambda>xs. join_with (CHR '':'') (map appendHex xs)) in
      if n \<le> 1 then field gs else field (take e0 gs) @ ''::'' @ field (drop (e0 + n) gs))"

definition IP_String :: "bytes \<Rightarrow> string" where
  "IP_String ip =
     (if ip = [] then ''<nil>''
      else case To4 ip of Some p4 \<Rightarrow> dotted p4
      | None \<Rightarrow> if length ip \<noteq> 16 then CHR ''?'' # hexString ip else colons ip)"

record UDPAddr =
  ua_IP :: bytes
  ua_Port :: i64
  ua_Zone :: string

definition addrToString :: "UDPAddr \<Rightarrow> string" where
  "addrToString addr = IP_String (ua_IP addr) @ '':'' @ itoa (sint (ua_Port addr))"

section \<open>Reading the texts back\<close>

lemma itoa_byte_chars: "CHR ''.'' \<notin> set (itoa (uint (x :: byte)))" "CHR '':'' \<notin> set (itoa (uint (x :: byte)))"
  using decimal_digits [of "nat (uint x)"] by (auto simp: itoa_def list_all_iff is_digit_def digit_val_def)

lemma dotted_inject: "p \<noteq> [] \<Longrightarrow> q \<noteq> [] \<Longrightarrow> dotted p = dotted q \<Longrightarrow> p = q"
proof -
  assume "p \<noteq> []" "q \<noteq> []" "dotted p = dotted q"
  then have "map (\<lambda>x. itoa (uint x)) p = map (\<lambda>x. itoa (uint x)) q"
    by (intro join_inject [of _ "CHR ''.''"]) (auto simp: itoa_byte_chars dotted_def)
  moreover have "inj (\<lambda>x :: byte. itoa (uint x))" by (intro injI) (auto intro: iffD2 [OF word_eq_iff_unsigned])
  ultimately show "p = q" by (simp add: inj_map_eq_map)
qed

lemma length_ip_groups: "length (ip_groups p) = length p div 2"
  by (induction p rule: ip_groups.induct) auto

lemma pair_inject: "a * 256 + b = c * 256 + d \<Longrightarrow> b < 256 \<Longrightarrow> d < 256 \<Longrightarrow> a = c \<and> b = (d :: nat)"
proof -
  assume eq: "a * 256 + b = c * 256 + d" and lt: "b < 256" "d < 256"
  have "(a * 256 + b) mod 256 = b" "(c * 256 + d) mod 256 = d" using lt by (simp_all add: mod_add_eq)
  with eq have "b = d" by simp
  with eq show ?thesis by simp
qed

lemma ip_groups_inject:
  "even (length p) \<Longrightarrow> length p = length q \<Longrightarrow> ip_groups p = ip_groups q \<Longrightarrow> p = q"
proof (induction p arbitrary: q rule: ip_groups.induct)
  case (1 x y p)
  have "2 \<le> length q" using 1 by simp
  then obtain x' y' q' where q: "q = x' # y' # q'" by (cases q; cases "tl q") auto
  have lt: "unat z < 256" for z :: byte using unsigned_less [of z, where 'a = nat] by simp
  have "unat x * 256 + unat y = unat x' * 256 + unat y'" "ip_groups p = ip_groups q'" using 1(4) q by simp_all
  moreover have "p = q'" using 1(1) [of q'] 1(2,3) q calculation(2) by simp
  ultimately show ?case using q pair_inject [OF _ lt lt] by (metis word_unat_eq_iff)
qed auto

text \<open>What the loop finds is a run of zeros.\<close>

definition is_zero_run :: "nat list \<Rightarrow> nat \<times> nat \<Rightarrow> bool" where
  "is_zero_run gs e \<longleftrightarrow> fst e + snd e \<le> length gs \<and> take (snd e) (drop (fst e) gs) = replicate (snd e) 0"

lemma take_zeros: "take (length (takeWhile (\<lambda>g. g = (0 :: nat)) xs)) xs = replicate (length (takeWhile (\<lambda>g. g = 0) xs)) 0"
  by (induction xs) auto

lemma zero_run_zeros: "is_zero_run gs e \<Longrightarrow> is_zero_run gs (zero_run gs i e)"
proof (induction gs i e rule: zero_run.induct)
  case (1 gs i e)
  define n where "n = length (takeWhile (\<lambda>g. g = 0) (drop i gs))"
  have "is_zero_run gs (i, n)" if "i < length gs"
    using that length_takeWhile_le [of "\<lambda>g. g = 0" "drop i gs"] take_zeros [of "drop i gs"]
    by (simp add: is_zero_run_def n_def)
  with 1 show ?case by (subst zero_run.simps) (simp add: n_def Let_def)
qed

text \<open>A reader of the groups; an empty field stands for the run that was left out.\<close>

definition read_groups :: "string \<Rightarrow> nat list" where
  "read_groups s =
     (let fs = split_at (CHR '':'') s; l = takeWhile (\<lambda>x. x \<noteq> []) fs; r = takeWhile (\<lambda>x. x \<noteq> []) (rev fs) in
      if l = fs then map hex_read fs
      else map hex_read l @ replicate (8 - length l - length r) 0 @ map hex_read (rev r))"

abbreviation hex_fields :: "nat list \<Rightarrow> string" where
  "hex_fields gs \<equiv> join_with (CHR '':'') (map appendHex gs)"

lemma takeWhile_fields:
  "takeWhile (\<lambda>x. x \<noteq> []) (map appendHex gs) = map appendHex gs"
  "takeWhile (\<lambda>x. x \<noteq> []) (map appendHex gs @ [] # xs) = map appendHex gs"
  by (induction gs) simp_all

lemma split_fields:
  "gs \<noteq> [] \<Longrightarrow> split_at (CHR '':'') (hex_fields gs) = map appendHex gs"
  "gs \<noteq> [] \<Longrightarrow> split_at (CHR '':'') (hex_fields gs @ CHR '':'' # s) = map appendHex gs @ split_at (CHR '':'') s"
  using split_join [of "map appendHex gs" "CHR '':''"] by auto

lemma split_run:
  "split_at (CHR '':'') (hex_fields l @ ''::'' @ hex_fields r)
     = (if l = [] then [[]] else map appendHex l) @ [] # (if r = [] then [[]] else map appendHex r)"
  by (cases "l = []"; cases "r = []") (simp_all add: split_fields)

lemma read_run: "read_groups (hex_fields l @ ''::'' @ hex_fields r) = l @ replicate (8 - length l - length r) 0 @ r"
proof -
  define f where "f = split_at (CHR '':'') (hex_fields l @ ''::'' @ hex_fields r)"
  have f: "f = (if l = [] then [[]] else map appendHex l) @ [] # (if r = [] then [[]] else map appendHex r)"
    unfolding f_def by (rule split_run)
  have "takeWhile (\<lambda>x. x \<noteq> []) f = map appendHex l"
    unfolding f using takeWhile_fields(2) [of l] by (cases "l = []") simp_all
  moreover have "takeWhile (\<lambda>x. x \<noteq> []) (rev f) = map appendHex (rev r)"
    unfolding f using takeWhile_fields(2) [of "rev r"] by (cases "r = []") (simp_all add: rev_map)
  moreover have "\<not> (\<forall>x \<in> set f. x \<noteq> [])" by (simp add: f)
  ultimately show ?thesis unfolding read_groups_def f_def [symmetric] by (auto simp: Let_def rev_map comp_def)
qed

lemma read_colons:
  assumes "length p = 16"
  shows "read_groups (colons p) = ip_groups p"
proof -
  let ?gs = "ip_groups p"
  obtain e0 n where e: "zero_run ?gs 0 (0, 0) = (e0, n)" by fastforce
  have len: "length ?gs = 8" by (simp add: length_ip_groups assms)
  have run: "is_zero_run ?gs (e0, n)"
    using zero_run_zeros [of ?gs "(0, 0)" 0] e by (simp add: is_zero_run_def)
  have "take e0 ?gs @ take n (drop e0 ?gs) @ drop (e0 + n) ?gs = ?gs"
    by (metis append_take_drop_id drop_drop add.commute)
  then have gs: "take e0 ?gs @ replicate n 0 @ drop (e0 + n) ?gs = ?gs" using run by (simp add: is_zero_run_def)
  show ?thesis
  proof (cases "n \<le> 1")
    case True
    have "?gs \<noteq> []" using len by auto
    then show ?thesis using True e by (simp add: colons_def read_groups_def split_fields takeWhile_fields comp_def)
  next
    case False
    have "8 - length (take e0 ?gs) - length (drop (e0 + n) ?gs) = n" using run len by (simp add: is_zero_run_def)
    then show ?thesis using False e gs read_run [of "take e0 ?gs" "drop (e0 + n) ?gs"]
      by (simp add: colons_def Let_def del: length_take length_drop)
  qed
qed

section \<open>Keys\<close>

text \<open>The characters that tell the kinds of texts apart.\<close>

lemma dotted_chars: "CHR '':'' \<notin> set (dotted p)" "set (dotted p) \<inter> {CHR ''<'', CHR ''?''} = {}"
proof -
  have "set (itoa (uint x)) \<inter> {CHR ''<'', CHR ''?''} = {}" for x :: byte
    using decimal_digits [of "nat (uint x)"] by (auto simp: itoa_def list_all_iff is_digit_def digit_val_def)
  then show "CHR '':'' \<notin> set (dotted p)" "set (dotted p) \<inter> {CHR ''<'', CHR ''?''} = {}"
    using set_join [of "CHR ''.''" "map (\<lambda>x. itoa (uint x)) p"] itoa_byte_chars by (fastforce simp: dotted_def)+
qed

lemma hex_fields_chars: "set (hex_fields gs) \<subseteq> insert (CHR '':'') hex_chars"
  using set_join [of "CHR '':''" "map appendHex gs"] appendHex_chars by fastforce

lemma not_hex_mark [simp]: "CHR ''<'' \<notin> hex_chars" "CHR ''?'' \<notin> hex_chars"
proof -
  have "(of_char (hex_digit d) :: nat) \<notin> {60, 63}" if "d < 16" for d
    using that by (auto simp: hex_digit_def of_char_digit)
  then show "CHR ''<'' \<notin> hex_chars" "CHR ''?'' \<notin> hex_chars"
    by (force simp: hex_chars_def dest: arg_cong [of _ _ "of_char :: char \<Rightarrow> nat"])+
qed

lemma colons_chars: "set (colons p) \<inter> {CHR ''<'', CHR ''?''} = {}"
proof -
  have "CHR ''<'' \<notin> set (hex_fields gs)" "CHR ''?'' \<notin> set (hex_fields gs)" for gs
    using hex_fields_chars [of gs] not_hex_mark by auto
  then show ?thesis by (simp add: colons_def Let_def split: prod.splits)
qed

lemma colons_colon:
  assumes "length p = 16"
  shows "CHR '':'' \<in> set (colons p)"
proof -
  have "length (ip_groups p) = 8" using assms by (simp add: length_ip_groups)
  then obtain a b gs where gs: "ip_groups p = a # b # gs" by (cases "ip_groups p"; cases "tl (ip_groups p)") auto
  obtain e0 n where e: "zero_run (a # b # gs) 0 (0, 0) = (e0, n)" by fastforce
  show ?thesis by (simp add: colons_def gs e Let_def)
qed

text \<open>The address that counts: its 4 bytes when it has them.\<close>

definition canonical :: "bytes \<Rightarrow> bytes" where
  "canonical ip = (case To4 ip of Some p4 \<Rightarrow> p4 | None \<Rightarrow> ip)"

datatype ip_text = NilText | DotText bytes | HexText bytes | ColonText bytes

definition ip_kind :: "bytes \<Rightarrow> ip_text" where
  "ip_kind ip =
     (if ip = [] then NilText
      else case To4 ip of Some p4 \<Rightarrow> DotText p4 | None \<Rightarrow> if length ip \<noteq> 16 then HexText ip else ColonText ip)"

fun kind_text :: "ip_text \<Rightarrow> string" where
  "kind_text NilText = ''<nil>''"
| "kind_text (DotText p) = dotted p"
| "kind_text (HexText p) = CHR ''?'' # hexString p"
| "kind_text (ColonText p) = colons p"

fun kind_ok :: "ip_text \<Rightarrow> bool" where
  "kind_ok (DotText p) = (length p = 4)"
| "kind_ok (ColonText p) = (length p = 16)"
| "kind_ok _ = True"

text \<open>The kind of a text.\<close>

definition text_tag :: "string \<Rightarrow> nat" where
  "text_tag s = (if CHR ''?'' \<in> set s then 0 else if CHR ''<'' \<in> set s then 1 else if CHR '':'' \<in> set s then 2 else 3)"

fun kind_tag :: "ip_text \<Rightarrow> nat" where
  "kind_tag (HexText p) = 0"
| "kind_tag NilText = 1"
| "kind_tag (ColonText p) = 2"
| "kind_tag (DotText p) = 3"

lemma text_tag_kind: "kind_ok k \<Longrightarrow> text_tag (kind_text k) = kind_tag k"
proof (induction k)
  case (DotText p)
  then show ?case using dotted_chars [of p] by (auto simp: text_tag_def)
next
  case (ColonText p)
  then show ?case using colons_chars [of p] colons_colon [of p] by (auto simp: text_tag_def)
qed (simp_all add: text_tag_def)

lemma colons_inject: "length p = 16 \<Longrightarrow> length q = 16 \<Longrightarrow> colons p = colons q \<Longrightarrow> p = q"
  using read_colons [of p] read_colons [of q] by (intro ip_groups_inject) simp_all

lemma dotted_inject_4: "length p = 4 \<Longrightarrow> length q = 4 \<Longrightarrow> dotted p = dotted q \<Longrightarrow> p = q"
  by (rule dotted_inject) auto

lemma kind_text_inject:
  assumes "kind_ok a" and "kind_ok b" and "kind_text a = kind_text b"
  shows "a = b"
proof -
  have "kind_tag a = kind_tag b" using assms text_tag_kind by metis
  with assms show ?thesis
    by (cases a; cases b) (simp_all add: hexString_inject colons_inject dotted_inject_4)
qed

lemma To4_length: "To4 ip = Some p \<Longrightarrow> length p = 4"
  by (auto simp: To4_def split: if_splits)

lemma ip_kind_ok: "kind_ok (ip_kind ip)"
  using To4_length [of ip] by (auto simp: ip_kind_def split: option.splits)

lemma IP_String_kind: "IP_String ip = kind_text (ip_kind ip)"
  by (auto simp: IP_String_def ip_kind_def split: option.splits)

lemma canonical_cases:
  "canonical ip = [] \<longleftrightarrow> ip = []" "To4 ip = Some p \<Longrightarrow> canonical ip = p" "To4 ip = None \<Longrightarrow> canonical ip = ip"
  "length ip = 4 \<Longrightarrow> To4 ip = Some ip"
  by (auto simp: canonical_def To4_def split: option.splits if_splits)

lemma ip_kind_canonical: "ip_kind a = ip_kind b \<longleftrightarrow> canonical a = canonical b"
proof
  assume eq: "canonical a = canonical b"
  have "ip_kind ip = (if canonical ip = [] then NilText else if length (canonical ip) = 4 then DotText (canonical ip)
      else if length (canonical ip) \<noteq> 16 then HexText (canonical ip) else ColonText (canonical ip))" for ip
    using canonical_cases [of ip] To4_length [of ip] by (cases "To4 ip") (auto simp: ip_kind_def)
  with eq show "ip_kind a = ip_kind b" by simp
qed (auto simp: ip_kind_def canonical_def split: option.splits if_splits)

lemma IP_String_canonical: "IP_String a = IP_String b \<longleftrightarrow> canonical a = canonical b"
  unfolding IP_String_kind ip_kind_canonical [symmetric] using kind_text_inject ip_kind_ok by metis

lemma itoa_no_colon: "CHR '':'' \<notin> set (itoa i)"
  using decimal_digits [of "nat i"] decimal_digits [of "nat (- i)"]
  by (auto simp: itoa_def list_all_iff is_digit_def digit_val_def)

text \<open>
  Two addresses have the same key exactly when they have the same IP, an IPv4 address and its form in IPv6 being the same, and
  the same port. The zone of an IPv6 address is not in the key: two link-local senders on different interfaces share it.
\<close>

theorem addrToString_same:
  "addrToString x = addrToString y \<longleftrightarrow> canonical (ua_IP x) = canonical (ua_IP y) \<and> ua_Port x = ua_Port y"
proof -
  have "addrToString x = addrToString y \<longleftrightarrow> IP_String (ua_IP x) = IP_String (ua_IP y) \<and> itoa (sint (ua_Port x)) = itoa (sint (ua_Port y))"
    using last_separator [OF _ itoa_no_colon itoa_no_colon] by (auto simp: addrToString_def)
  then show ?thesis unfolding IP_String_canonical by (auto intro: iffD2 [OF word_eq_iff_signed])
qed

theorem addrToString_drops_zone: "addrToString (x\<lparr>ua_Zone := z\<rparr>) = addrToString x"
  by (simp add: addrToString_def)

theorem addrToString_example:
  "addrToString \<lparr>ua_IP = [127, 0, 0, 1], ua_Port = 6000, ua_Zone = ''''\<rparr> = ''127.0.0.1:6000''"
  by (simp add: addrToString_def IP_String_def To4_def dotted_def itoa_def decimal.simps digit_def char_of_eq_iff)

end
