(* ===== verification/Udp_Server.thy ===== *)
theory Udp_Server
  imports Udp_Socket Udp_Session Udp_Addr
begin

text \<open>
  The UDP server of \<open>pkg/xnet/udp_server.go\<close>: the socket's read goroutine, which finds or makes the session of a
  datagram's address, the check loop, which ends idle sessions, and the goroutine that makes and closes
  the server, over the sessions of \<open>Udp_Session\<close>. Addresses are the strings \<open>addrToString\<close> makes of them, and
  the sessions live at addresses of a store, since the goroutines share pointers to them.
\<close>

section \<open>State\<close>

text \<open>The read goroutine in \<open>udpOnMsg\<close>: between datagrams, with no session found, with a new one not yet in the table, about to deliver, gone.\<close>

datatype srd_pc =
    UsIdle
  | UsNew string bytes i64
  | UsAdd nat bytes i64
  | UsDeliver nat bytes i64
  | UsExit

text \<open>\<open>checkLoop\<close>: not started, waiting, at a session's \<open>forceClose\<close>, its \<open>wg.Wait\<close>, its \<open>delSession\<close>, gone.\<close>

datatype ck_pc =
    CkOff
  | CkWait
  | CkClose "nat list"
  | CkJoin "nat list"
  | CkDel "nat list"
  | CkExit

text \<open>\<open>NewUDPServer\<close> after the socket was started, and \<open>Close\<close>; it holds the mutex in the two states with a list.\<close>

datatype svr_pc =
    MnStore
  | MnStart
  | MnServing
  | MnCloseSess "nat list"
  | MnJoin "nat list"
  | MnCloseSock
  | MnCloseCh
  | MnWait
  | MnClosed

record 'st udp_server =
  sv_main :: svr_pc
  sv_ck :: ck_pc
  sv_rd :: srd_pc
  sv_sock :: bool
  sv_sessions :: "string \<rightharpoonup> nat"
  sv_store :: "nat \<Rightarrow> 'st udp_session"
  sv_next :: nat
  sv_closeCh :: bool
  sv_wg :: int
  sv_panic :: "go_panic option"

definition NewUDPServer :: "'st udp_server" where
  "NewUDPServer =
     \<lparr>sv_main = MnStore, sv_ck = CkOff, sv_rd = UsIdle, sv_sock = False, sv_sessions = Map.empty,
      sv_store = (\<lambda>_. NewUDPSession '''' 0), sv_next = 0, sv_closeCh = False, sv_wg = 0, sv_panic = None\<rparr>"

section \<open>Operations\<close>

fun mu_held :: "svr_pc \<Rightarrow> bool" where
  "mu_held (MnCloseSess xs) = True"
| "mu_held (MnJoin xs) = True"
| "mu_held _ = False"

definition svr_put :: "nat \<Rightarrow> 'st udp_session \<Rightarrow> 'st udp_server \<Rightarrow> 'st udp_server" where
  "svr_put a x s = s\<lparr>sv_store := (sv_store s)(a := x)\<rparr>"

definition getSession :: "'st udp_server \<Rightarrow> string \<Rightarrow> nat option" where
  "getSession s i = sv_sessions s i"

definition addSession :: "nat \<Rightarrow> 'st udp_server \<Rightarrow> 'st udp_server" where
  "addSession a s = s\<lparr>sv_sessions := (sv_sessions s)(se_addr (sv_store s a) \<mapsto> a)\<rparr>"

definition delSession :: "nat \<Rightarrow> 'st udp_server \<Rightarrow> 'st udp_server" where
  "delSession a s = s\<lparr>sv_sessions := (sv_sessions s)(se_addr (sv_store s a) := None)\<rparr>"

text \<open>\<open>udpOnMsg\<close>; \<open>svr.sock.Load().(*UDPSocket)\<close> panics while nothing is stored.\<close>

inductive svr_read_step :: "'st udp_server \<Rightarrow> 'st udp_server \<Rightarrow> bool" where
  sr_get: "sv_rd s = UsIdle \<Longrightarrow> \<not> mu_held (sv_main s) \<Longrightarrow>
    svr_read_step s (s\<lparr>sv_rd := (case getSession s i of
        Some a \<Rightarrow> UsDeliver a msg now | None \<Rightarrow> UsNew i msg now)\<rparr>)"
| sr_err: "sv_rd s = UsIdle \<Longrightarrow> svr_read_step s (s\<lparr>sv_rd := UsExit\<rparr>)"
| sr_new: "sv_rd s = UsNew i msg now \<Longrightarrow>
    svr_read_step s
      (if sv_sock s
       then s\<lparr>sv_store := (sv_store s)(sv_next s := NewUDPSession i now), sv_next := sv_next s + 1,
              sv_rd := UsAdd (sv_next s) msg now\<rparr>
       else s\<lparr>sv_panic := Some InterfaceConversion\<rparr>)"
| sr_add: "sv_rd s = UsAdd a msg now \<Longrightarrow> \<not> mu_held (sv_main s) \<Longrightarrow>
    svr_read_step s ((addSession a s)\<lparr>sv_rd := UsDeliver a msg now\<rparr>)"
| sr_deliver: "sv_rd s = UsDeliver a msg now \<Longrightarrow> (r, x) \<in> set (session_recvMsg (sv_store s a) msg now) \<Longrightarrow>
    svr_read_step s ((svr_put a x s)\<lparr>sv_rd := UsIdle\<rparr>)"

text \<open>Idle for longer than the timeout, at a clock of \<open>now\<close> seconds.\<close>

definition expired :: "i64 \<Rightarrow> i64 \<Rightarrow> 'st udp_session \<Rightarrow> bool" where
  "expired timeout now x \<longleftrightarrow> sint (se_activeAt x) < sint (now - timeout)"

definition svr_wg_Done :: "'st udp_server \<Rightarrow> 'st udp_server" where
  "svr_wg_Done s = (if sv_wg s \<le> 0 then s\<lparr>sv_panic := Some NegativeWaitGroup\<rparr> else s\<lparr>sv_wg := sv_wg s - 1\<rparr>)"

text \<open>\<open>checkLoop\<close>; the table is ranged over in any order.\<close>

inductive svr_check_step :: "i64 \<Rightarrow> 'st udp_server \<Rightarrow> 'st udp_server \<Rightarrow> bool" for timeout where
  ck_tick: "sv_ck s = CkWait \<Longrightarrow> \<not> mu_held (sv_main s) \<Longrightarrow> distinct xs \<Longrightarrow>
    set xs = {a \<in> ran (sv_sessions s). expired timeout now (sv_store s a)} \<Longrightarrow>
    svr_check_step timeout s (s\<lparr>sv_ck := CkClose xs\<rparr>)"
| ck_exit: "sv_ck s = CkWait \<Longrightarrow> sv_closeCh s \<Longrightarrow> svr_check_step timeout s (svr_wg_Done (s\<lparr>sv_ck := CkExit\<rparr>))"
| ck_close: "sv_ck s = CkClose (a # xs) \<Longrightarrow>
    svr_check_step timeout s ((svr_put a (session_forceClose (sv_store s a)) s)\<lparr>sv_ck := CkJoin (a # xs)\<rparr>)"
| ck_join: "sv_ck s = CkJoin (a # xs) \<Longrightarrow> session_Close_returns (sv_store s a) \<Longrightarrow>
    svr_check_step timeout s (s\<lparr>sv_ck := CkDel (a # xs)\<rparr>)"
| ck_del: "sv_ck s = CkDel (a # xs) \<Longrightarrow> \<not> mu_held (sv_main s) \<Longrightarrow>
    svr_check_step timeout s ((delSession a s)\<lparr>sv_ck := CkClose xs\<rparr>)"
| ck_again: "sv_ck s = CkClose [] \<Longrightarrow> svr_check_step timeout s (s\<lparr>sv_ck := CkWait\<rparr>)"

text \<open>
  The rest of \<open>NewUDPServer\<close>, and \<open>Close\<close>, which returns from \<open>svr.sock.close\<close> once the socket's
  read goroutine is gone.
\<close>

inductive svr_main_step :: "'st udp_server \<Rightarrow> 'st udp_server \<Rightarrow> bool" where
  mn_store: "sv_main s = MnStore \<Longrightarrow> svr_main_step s (s\<lparr>sv_sock := True, sv_main := MnStart\<rparr>)"
| mn_start: "sv_main s = MnStart \<Longrightarrow>
    svr_main_step s (s\<lparr>sv_wg := sv_wg s + 1, sv_ck := CkWait, sv_main := MnServing\<rparr>)"
| mn_lock: "sv_main s = MnServing \<or> sv_main s = MnClosed \<Longrightarrow> distinct xs \<Longrightarrow> set xs = ran (sv_sessions s) \<Longrightarrow>
    svr_main_step s (s\<lparr>sv_main := MnCloseSess xs\<rparr>)"
| mn_close: "sv_main s = MnCloseSess (a # xs) \<Longrightarrow>
    svr_main_step s ((svr_put a (session_forceClose (sv_store s a)) s)\<lparr>sv_main := MnJoin (a # xs)\<rparr>)"
| mn_join: "sv_main s = MnJoin (a # xs) \<Longrightarrow> session_Close_returns (sv_store s a) \<Longrightarrow>
    svr_main_step s (s\<lparr>sv_main := MnCloseSess xs\<rparr>)"
| mn_unlock: "sv_main s = MnCloseSess [] \<Longrightarrow> svr_main_step s (s\<lparr>sv_main := MnCloseSock\<rparr>)"
| mn_sock: "sv_main s = MnCloseSock \<Longrightarrow> sv_rd s = UsExit \<Longrightarrow> svr_main_step s (s\<lparr>sv_main := MnCloseCh\<rparr>)"
| mn_closeCh: "sv_main s = MnCloseCh \<Longrightarrow>
    svr_main_step s (if sv_closeCh s then s\<lparr>sv_panic := Some CloseOfClosed\<rparr>
                     else s\<lparr>sv_closeCh := True, sv_main := MnWait\<rparr>)"
| mn_wait: "sv_main s = MnWait \<Longrightarrow> sv_wg s = 0 \<Longrightarrow> svr_main_step s (s\<lparr>sv_main := MnClosed\<rparr>)"

text \<open>Everything that runs, until a panic: the three goroutines and the sessions' own.\<close>

inductive svr_step :: "i64 \<Rightarrow> (string \<Rightarrow> 'st) \<Rightarrow> 'st on_handler_once \<Rightarrow> 'st udp_server \<Rightarrow> 'st udp_server \<Rightarrow> bool"
  for timeout conn onMsg where
  svr_read: "sv_panic s = None \<Longrightarrow> svr_read_step s t \<Longrightarrow> svr_step timeout conn onMsg s t"
| svr_check: "sv_panic s = None \<Longrightarrow> svr_check_step timeout s t \<Longrightarrow> svr_step timeout conn onMsg s t"
| svr_main: "sv_panic s = None \<Longrightarrow> svr_main_step s t \<Longrightarrow> svr_step timeout conn onMsg s t"
| svr_session: "sv_panic s = None \<Longrightarrow> a < sv_next s \<Longrightarrow> session_step conn onMsg (sv_store s a) x \<Longrightarrow>
    svr_step timeout conn onMsg s (svr_put a x s)"

definition svr_init :: "'st udp_server \<Rightarrow> bool" where
  "svr_init s \<longleftrightarrow> s = NewUDPServer"

text \<open>A session answers through the server's socket, to its own address.\<close>

definition session_SendMsg :: "'st udp_session \<Rightarrow> bytes \<Rightarrow> udp_socket \<Rightarrow> (go_error option \<times> udp_socket) list" where
  "session_SendMsg x msg sock = udp_sendMsg sock \<lparr>ug_msg = msg, ug_addr = se_addr x\<rparr>"

section \<open>What a session never undoes\<close>

definition evolves :: "(string \<Rightarrow> 'st) \<Rightarrow> 'st on_handler_once \<Rightarrow> 'st udp_session \<Rightarrow> 'st udp_session \<Rightarrow> bool" where
  "evolves conn onMsg x y \<longleftrightarrow> se_addr y = se_addr x \<and> (se_closeOnce x \<longrightarrow> se_closeOnce y)
     \<and> (session_Close_returns x \<longrightarrow> session_Close_returns y)
     \<and> (session_inv conn onMsg x \<longrightarrow> session_inv conn onMsg y)"

lemma evolves_step:
  assumes "session_step conn onMsg x y" and "session_inv conn onMsg x"
  shows "evolves conn onMsg x y"
proof -
  have "se_addr y = se_addr x \<and> se_closeOnce y = se_closeOnce x" using assms(1)
    by (induction rule: session_step.induct)
      (auto simp: session_handle_def session_wg_Done_def Let_def split: go.splits option.splits)
  moreover have "\<not> session_Close_returns x" using assms
    by (cases rule: session_step.cases)
      (auto simp: session_Close_returns_def session_inv_def session_control_inv_def)
  ultimately show ?thesis using session_step_inv [OF assms(1)] by (simp add: evolves_def)
qed

lemma evolves_recvMsg: "(r, y) \<in> set (session_recvMsg x msg now) \<Longrightarrow> evolves conn onMsg x y"
  using session_recvMsg_cases [of r y x msg now] session_recvMsg_inv [of r y x msg now conn onMsg]
  by (auto simp: evolves_def session_Close_returns_def)

lemma evolves_forceClose: "evolves conn onMsg x (session_forceClose x)"
  using session_forceClose_inv [of conn onMsg x]
  by (auto simp: evolves_def session_Close_returns_def session_forceClose_def)

lemma session_forceClose_closed [simp]: "se_closeOnce (session_forceClose x)"
  by (simp add: session_forceClose_def)

section \<open>Invariant\<close>

definition in_table :: "'st udp_server \<Rightarrow> nat \<Rightarrow> bool" where
  "in_table s a \<longleftrightarrow> sv_sessions s (se_addr (sv_store s a)) = Some a"

fun rd_adding :: "srd_pc \<Rightarrow> nat option" where
  "rd_adding (UsAdd a msg now) = Some a"
| "rd_adding _ = None"

fun ck_list :: "ck_pc \<Rightarrow> nat list" where
  "ck_list (CkClose xs) = xs"
| "ck_list (CkJoin xs) = xs"
| "ck_list (CkDel xs) = xs"
| "ck_list _ = []"

fun mn_list :: "svr_pc \<Rightarrow> nat list" where
  "mn_list (MnCloseSess xs) = xs"
| "mn_list (MnJoin xs) = xs"
| "mn_list _ = []"

text \<open>Every session is in the table, about to be put there, or closed with its goroutine gone.\<close>

definition svr_table_inv :: "'st udp_server \<Rightarrow> bool" where
  "svr_table_inv s \<longleftrightarrow>
     (\<forall>i a. sv_sessions s i = Some a \<longrightarrow> a < sv_next s \<and> se_addr (sv_store s a) = i)
     \<and> (\<forall>a < sv_next s. in_table s a \<or> rd_adding (sv_rd s) = Some a \<or> session_Close_returns (sv_store s a))"

definition svr_read_inv :: "'st udp_server \<Rightarrow> bool" where
  "svr_read_inv s \<longleftrightarrow>
     (\<forall>i msg now. sv_rd s = UsNew i msg now \<longrightarrow> sv_sessions s i = None)
     \<and> (\<forall>a msg now. sv_rd s = UsAdd a msg now \<longrightarrow>
          a < sv_next s \<and> sv_sessions s (se_addr (sv_store s a)) = None)
     \<and> (\<forall>a msg now. sv_rd s = UsDeliver a msg now \<longrightarrow> a < sv_next s)"

definition svr_check_inv :: "'st udp_server \<Rightarrow> bool" where
  "svr_check_inv s \<longleftrightarrow> distinct (ck_list (sv_ck s)) \<and> (\<forall>a \<in> set (ck_list (sv_ck s)). in_table s a)
     \<and> (\<forall>xs. sv_ck s = CkJoin xs \<longrightarrow> xs \<noteq> [] \<and> se_closeOnce (sv_store s (hd xs)))
     \<and> (\<forall>xs. sv_ck s = CkDel xs \<longrightarrow> xs \<noteq> [] \<and> session_Close_returns (sv_store s (hd xs)))"

definition svr_main_inv :: "'st udp_server \<Rightarrow> bool" where
  "svr_main_inv s \<longleftrightarrow> (\<forall>a \<in> set (mn_list (sv_main s)). a < sv_next s)
     \<and> (\<forall>xs. sv_main s = MnJoin xs \<longrightarrow> xs \<noteq> [] \<and> se_closeOnce (sv_store s (hd xs)))"

definition svr_life_inv :: "'st udp_server \<Rightarrow> bool" where
  "svr_life_inv s \<longleftrightarrow> (sv_sock s \<longleftrightarrow> sv_main s \<noteq> MnStore)
     \<and> (sv_ck s = CkOff \<longleftrightarrow> sv_main s = MnStore \<or> sv_main s = MnStart)
     \<and> sv_wg s = (if sv_ck s = CkOff \<or> sv_ck s = CkExit then 0 else 1)
     \<and> (sv_ck s = CkExit \<longrightarrow> sv_closeCh s)
     \<and> (sv_main s = MnWait \<longrightarrow> sv_closeCh s)
     \<and> (sv_main s = MnStore \<or> sv_main s = MnStart \<or> sv_main s = MnServing \<longrightarrow> \<not> sv_closeCh s)"

definition svr_sessions_inv :: "(string \<Rightarrow> 'st) \<Rightarrow> 'st on_handler_once \<Rightarrow> 'st udp_server \<Rightarrow> bool" where
  "svr_sessions_inv conn onMsg s \<longleftrightarrow> (\<forall>a < sv_next s. session_inv conn onMsg (sv_store s a))"

definition svr_inv :: "(string \<Rightarrow> 'st) \<Rightarrow> 'st on_handler_once \<Rightarrow> 'st udp_server \<Rightarrow> bool" where
  "svr_inv conn onMsg s \<longleftrightarrow> svr_table_inv s \<and> svr_read_inv s \<and> svr_check_inv s \<and> svr_main_inv s
     \<and> svr_life_inv s \<and> svr_sessions_inv conn onMsg s"

lemma svr_frame [simp]:
  "in_table (s\<lparr>sv_rd := srd\<rparr>) a = in_table s a"
  "in_table (s\<lparr>sv_ck := c\<rparr>) a = in_table s a"
  "in_table (s\<lparr>sv_main := m\<rparr>) a = in_table s a"
  "in_table (s\<lparr>sv_sock := k\<rparr>) a = in_table s a"
  "in_table (s\<lparr>sv_closeCh := cc\<rparr>) a = in_table s a"
  "in_table (s\<lparr>sv_wg := w\<rparr>) a = in_table s a"
  "in_table (s\<lparr>sv_panic := p\<rparr>) a = in_table s a"
  "svr_table_inv (s\<lparr>sv_ck := c\<rparr>) = svr_table_inv s"
  "svr_table_inv (s\<lparr>sv_main := m\<rparr>) = svr_table_inv s"
  "svr_table_inv (s\<lparr>sv_sock := k\<rparr>) = svr_table_inv s"
  "svr_table_inv (s\<lparr>sv_closeCh := cc\<rparr>) = svr_table_inv s"
  "svr_table_inv (s\<lparr>sv_wg := w\<rparr>) = svr_table_inv s"
  "svr_table_inv (s\<lparr>sv_panic := p\<rparr>) = svr_table_inv s"
  "svr_read_inv (s\<lparr>sv_ck := c\<rparr>) = svr_read_inv s"
  "svr_read_inv (s\<lparr>sv_main := m\<rparr>) = svr_read_inv s"
  "svr_read_inv (s\<lparr>sv_sock := k\<rparr>) = svr_read_inv s"
  "svr_read_inv (s\<lparr>sv_closeCh := cc\<rparr>) = svr_read_inv s"
  "svr_read_inv (s\<lparr>sv_wg := w\<rparr>) = svr_read_inv s"
  "svr_read_inv (s\<lparr>sv_panic := p\<rparr>) = svr_read_inv s"
  "svr_check_inv (s\<lparr>sv_rd := srd\<rparr>) = svr_check_inv s"
  "svr_check_inv (s\<lparr>sv_main := m\<rparr>) = svr_check_inv s"
  "svr_check_inv (s\<lparr>sv_sock := k\<rparr>) = svr_check_inv s"
  "svr_check_inv (s\<lparr>sv_closeCh := cc\<rparr>) = svr_check_inv s"
  "svr_check_inv (s\<lparr>sv_wg := w\<rparr>) = svr_check_inv s"
  "svr_check_inv (s\<lparr>sv_panic := p\<rparr>) = svr_check_inv s"
  "svr_main_inv (s\<lparr>sv_rd := srd\<rparr>) = svr_main_inv s"
  "svr_main_inv (s\<lparr>sv_ck := c\<rparr>) = svr_main_inv s"
  "svr_main_inv (s\<lparr>sv_sock := k\<rparr>) = svr_main_inv s"
  "svr_main_inv (s\<lparr>sv_closeCh := cc\<rparr>) = svr_main_inv s"
  "svr_main_inv (s\<lparr>sv_wg := w\<rparr>) = svr_main_inv s"
  "svr_main_inv (s\<lparr>sv_panic := p\<rparr>) = svr_main_inv s"
  "svr_life_inv (s\<lparr>sv_rd := srd\<rparr>) = svr_life_inv s"
  "svr_life_inv (s\<lparr>sv_panic := p\<rparr>) = svr_life_inv s"
  "svr_sessions_inv conn onMsg (s\<lparr>sv_rd := srd\<rparr>) = svr_sessions_inv conn onMsg s"
  "svr_sessions_inv conn onMsg (s\<lparr>sv_ck := c\<rparr>) = svr_sessions_inv conn onMsg s"
  "svr_sessions_inv conn onMsg (s\<lparr>sv_main := m\<rparr>) = svr_sessions_inv conn onMsg s"
  "svr_sessions_inv conn onMsg (s\<lparr>sv_sock := k\<rparr>) = svr_sessions_inv conn onMsg s"
  "svr_sessions_inv conn onMsg (s\<lparr>sv_closeCh := cc\<rparr>) = svr_sessions_inv conn onMsg s"
  "svr_sessions_inv conn onMsg (s\<lparr>sv_wg := w\<rparr>) = svr_sessions_inv conn onMsg s"
  "svr_sessions_inv conn onMsg (s\<lparr>sv_panic := p\<rparr>) = svr_sessions_inv conn onMsg s"
  "svr_inv conn onMsg (s\<lparr>sv_panic := p\<rparr>) = svr_inv conn onMsg s"
  by (simp_all add: svr_inv_def svr_table_inv_def svr_read_inv_def svr_check_inv_def svr_main_inv_def
        svr_life_inv_def svr_sessions_inv_def in_table_def)

lemma svr_put_fields [simp]:
  "sv_main (svr_put a x s) = sv_main s" "sv_ck (svr_put a x s) = sv_ck s" "sv_rd (svr_put a x s) = sv_rd s"
  "sv_sock (svr_put a x s) = sv_sock s" "sv_sessions (svr_put a x s) = sv_sessions s"
  "sv_next (svr_put a x s) = sv_next s" "sv_closeCh (svr_put a x s) = sv_closeCh s"
  "sv_wg (svr_put a x s) = sv_wg s" "sv_panic (svr_put a x s) = sv_panic s"
  "sv_store (svr_put a x s) = (sv_store s)(a := x)"
  by (simp_all add: svr_put_def)

text \<open>A session that evolves keeps the server's invariant.\<close>

lemma svr_put_inv:
  assumes "svr_inv conn onMsg s" and "evolves conn onMsg (sv_store s a) x"
  shows "svr_inv conn onMsg (svr_put a x s)"
proof -
  have addr: "se_addr (((sv_store s)(a := x)) b) = se_addr (sv_store s b)" for b
    using assms(2) by (auto simp: evolves_def)
  have closed: "se_closeOnce (sv_store s b) \<Longrightarrow> se_closeOnce (((sv_store s)(a := x)) b)" for b
    using assms(2) by (auto simp: evolves_def)
  have ended: "session_Close_returns (sv_store s b) \<Longrightarrow> session_Close_returns (((sv_store s)(a := x)) b)" for b
    using assms(2) by (auto simp: evolves_def)
  have sess: "session_inv conn onMsg (sv_store s b) \<Longrightarrow> session_inv conn onMsg (((sv_store s)(a := x)) b)" for b
    using assms(2) by (auto simp: evolves_def)
  have tab: "in_table (svr_put a x s) b = in_table s b" for b
    using addr [of b] by (simp add: in_table_def del: fun_upd_apply)
  have i: "svr_table_inv s" "svr_read_inv s" "svr_check_inv s" "svr_main_inv s" "svr_life_inv s"
    "svr_sessions_inv conn onMsg s" using assms(1) by (simp_all add: svr_inv_def)
  have "svr_table_inv (svr_put a x s)"
    using i(1) ended by (simp add: svr_table_inv_def tab addr del: fun_upd_apply) blast
  moreover have "svr_read_inv (svr_put a x s)"
    using i(2) by (simp add: svr_read_inv_def addr del: fun_upd_apply)
  moreover have "svr_check_inv (svr_put a x s)"
    using i(3) closed ended by (simp add: svr_check_inv_def tab del: fun_upd_apply)
  moreover have "svr_main_inv (svr_put a x s)"
    using i(4) closed by (simp add: svr_main_inv_def del: fun_upd_apply)
  moreover have "svr_life_inv (svr_put a x s)" using i(5) by (simp add: svr_life_inv_def)
  moreover have "svr_sessions_inv conn onMsg (svr_put a x s)"
    using i(6) sess by (simp add: svr_sessions_inv_def del: fun_upd_apply)
  ultimately show ?thesis by (simp add: svr_inv_def)
qed

lemma svr_table_unique: "svr_table_inv s \<Longrightarrow> in_table s a \<Longrightarrow> in_table s b \<Longrightarrow>
    se_addr (sv_store s a) = se_addr (sv_store s b) \<Longrightarrow> a = b"
  by (simp add: in_table_def)

section \<open>Every step keeps it\<close>

lemma svr_new_inv:
  assumes inv: "svr_inv conn onMsg s" and rd: "sv_rd s = UsNew i msg now"
  shows "svr_inv conn onMsg (s\<lparr>sv_store := (sv_store s)(sv_next s := NewUDPSession i now),
    sv_next := sv_next s + 1, sv_rd := UsAdd (sv_next s) msg now\<rparr>)" (is "svr_inv conn onMsg ?t")
proof -
  have i: "svr_table_inv s" "svr_read_inv s" "svr_check_inv s" "svr_main_inv s" "svr_life_inv s"
    "svr_sessions_inv conn onMsg s" using inv by (simp_all add: svr_inv_def)
  have old: "b < sv_next s \<Longrightarrow> in_table ?t b = in_table s b" for b by (simp add: in_table_def)
  have lt: "in_table s b \<Longrightarrow> b < sv_next s" for b using i(1) by (simp add: svr_table_inv_def in_table_def)
  have fresh: "session_inv conn onMsg (NewUDPSession i now)"
    by (rule session_sys.inv_init) (auto simp: session_init_def)
  have "svr_table_inv ?t"
    using i(1) rd old by (auto simp: svr_table_inv_def less_Suc_eq)
  moreover have "svr_read_inv ?t" using i(2) rd by (simp add: svr_read_inv_def NewUDPSession_def)
  moreover have "svr_check_inv ?t"
  proof -
    have lt': "\<forall>b \<in> set (ck_list (sv_ck s)). b < sv_next s" using i(3) lt by (auto simp: svr_check_inv_def)
    then have keep: "xs \<noteq> [] \<Longrightarrow> sv_ck s = CkJoin xs \<or> sv_ck s = CkDel xs \<Longrightarrow> hd xs \<noteq> sv_next s" for xs
      by (cases xs) auto
    show ?thesis using i(3) lt' keep old unfolding svr_check_inv_def by auto
  qed
  moreover have "svr_main_inv ?t"
  proof -
    have keep: "xs \<noteq> [] \<Longrightarrow> sv_main s = MnJoin xs \<Longrightarrow> hd xs \<noteq> sv_next s" for xs
      using i(4) by (cases xs) (auto simp: svr_main_inv_def)
    show ?thesis using i(4) keep unfolding svr_main_inv_def by (auto simp: less_Suc_eq)
  qed
  moreover have "svr_life_inv ?t" using i(5) by (simp add: svr_life_inv_def)
  moreover have "svr_sessions_inv conn onMsg ?t"
    using i(6) fresh by (simp add: svr_sessions_inv_def less_Suc_eq)
  ultimately show ?thesis by (simp add: svr_inv_def)
qed

lemma svr_add_inv:
  assumes inv: "svr_inv conn onMsg s" and rd: "sv_rd s = UsAdd a msg now"
  shows "svr_inv conn onMsg ((addSession a s)\<lparr>sv_rd := UsDeliver a msg now\<rparr>)" (is "svr_inv conn onMsg ?t")
proof -
  have i: "svr_table_inv s" "svr_read_inv s" "svr_check_inv s" "svr_main_inv s" "svr_life_inv s"
    "svr_sessions_inv conn onMsg s" using inv by (simp_all add: svr_inv_def)
  have a: "a < sv_next s" "sv_sessions s (se_addr (sv_store s a)) = None"
    using i(2) rd by (simp_all add: svr_read_inv_def)
  have tab: "in_table ?t b = (b = a \<or> in_table s b)" for b
    using a(2) by (auto simp: in_table_def addSession_def)
  have "svr_table_inv ?t" using i(1) rd a tab by (auto simp: svr_table_inv_def addSession_def)
  moreover have "svr_read_inv ?t" using a by (simp add: svr_read_inv_def addSession_def)
  moreover have "svr_check_inv ?t" using i(3) tab by (simp add: svr_check_inv_def addSession_def)
  moreover have "svr_main_inv ?t" using i(4) by (simp add: svr_main_inv_def addSession_def)
  moreover have "svr_life_inv ?t" using i(5) by (simp add: svr_life_inv_def addSession_def)
  moreover have "svr_sessions_inv conn onMsg ?t" using i(6) by (simp add: svr_sessions_inv_def addSession_def)
  ultimately show ?thesis by (simp add: svr_inv_def)
qed

lemma svr_read_step_inv: "svr_read_step s t \<Longrightarrow> svr_inv conn onMsg s \<Longrightarrow> svr_inv conn onMsg t"
proof (induction rule: svr_read_step.induct)
  case (sr_get s i msg now)
  then have "svr_table_inv (s\<lparr>sv_rd := rd\<rparr>)" if "rd_adding rd = None" for rd
    using that by (simp add: svr_inv_def svr_table_inv_def)
  with sr_get show ?case
    by (auto simp: svr_inv_def getSession_def svr_read_inv_def svr_table_inv_def split: option.split)
next
  case (sr_err s)
  then show ?case by (simp add: svr_inv_def svr_table_inv_def svr_read_inv_def)
next
  case (sr_new s i msg now)
  then show ?case using svr_new_inv [OF sr_new(2,1)] by simp
next
  case (sr_add s a msg now)
  then show ?case by (intro svr_add_inv)
next
  case (sr_deliver s a msg now r x)
  have "svr_inv conn onMsg (svr_put a x s)"
    by (rule svr_put_inv [OF sr_deliver.prems evolves_recvMsg [OF sr_deliver.hyps(2)]])
  then show ?case using sr_deliver.hyps(1)
    by (simp add: svr_inv_def svr_table_inv_def svr_read_inv_def del: svr_put_fields(10))
qed

lemma svr_del_inv:
  assumes inv: "svr_inv conn onMsg s" and ck: "sv_ck s = CkDel (a # xs)"
  shows "svr_inv conn onMsg ((delSession a s)\<lparr>sv_ck := CkClose xs\<rparr>)" (is "svr_inv conn onMsg ?t")
proof -
  have i: "svr_table_inv s" "svr_read_inv s" "svr_check_inv s" "svr_main_inv s" "svr_life_inv s"
    "svr_sessions_inv conn onMsg s" using inv by (simp_all add: svr_inv_def)
  have a: "in_table s a" "session_Close_returns (sv_store s a)" "a \<notin> set xs" "distinct xs" "\<forall>b \<in> set xs. in_table s b"
    using i(3) ck by (simp_all add: svr_check_inv_def)
  have tab: "in_table ?t b = (b \<noteq> a \<and> in_table s b)" for b
    using a(1) by (auto simp: in_table_def delSession_def)
  have "svr_table_inv ?t" using i(1) a(2) tab by (auto simp: svr_table_inv_def delSession_def)
  moreover have "svr_read_inv ?t" using i(2) by (auto simp: svr_read_inv_def delSession_def)
  moreover have "svr_check_inv ?t" using a tab by (auto simp: svr_check_inv_def)
  moreover have "svr_main_inv ?t" using i(4) by (simp add: svr_main_inv_def delSession_def)
  moreover have "svr_life_inv ?t" using i(5) ck by (simp add: svr_life_inv_def delSession_def)
  moreover have "svr_sessions_inv conn onMsg ?t" using i(6) by (simp add: svr_sessions_inv_def delSession_def)
  ultimately show ?thesis by (simp add: svr_inv_def)
qed

lemma svr_check_step_inv: "svr_check_step timeout s t \<Longrightarrow> svr_inv conn onMsg s \<Longrightarrow> svr_inv conn onMsg t"
proof (induction rule: svr_check_step.induct)
  case (ck_tick s xs now)
  then have "\<forall>a \<in> set xs. in_table s a" by (auto simp: svr_inv_def svr_table_inv_def in_table_def ran_def)
  with ck_tick show ?case by (simp add: svr_inv_def svr_check_inv_def svr_life_inv_def)
next
  case (ck_exit s)
  then show ?case by (simp add: svr_inv_def svr_check_inv_def svr_life_inv_def svr_wg_Done_def)
next
  case (ck_close s a xs)
  have "svr_inv conn onMsg (svr_put a (session_forceClose (sv_store s a)) s)"
    by (rule svr_put_inv [OF ck_close.prems evolves_forceClose])
  then show ?case using ck_close.hyps by (simp add: svr_inv_def svr_check_inv_def svr_life_inv_def)
next
  case (ck_join s a xs)
  then show ?case by (simp add: svr_inv_def svr_check_inv_def svr_life_inv_def)
next
  case (ck_del s a xs)
  then show ?case by (intro svr_del_inv)
next
  case (ck_again s)
  then show ?case by (simp add: svr_inv_def svr_check_inv_def svr_life_inv_def)
qed

lemma svr_main_step_inv: "svr_main_step s t \<Longrightarrow> svr_inv conn onMsg s \<Longrightarrow> svr_inv conn onMsg t"
proof (induction rule: svr_main_step.induct)
  case (mn_store s)
  then show ?case by (simp add: svr_inv_def svr_main_inv_def svr_life_inv_def)
next
  case (mn_start s)
  then show ?case by (simp add: svr_inv_def svr_main_inv_def svr_check_inv_def svr_life_inv_def)
next
  case (mn_lock s xs)
  then have "\<forall>a \<in> set xs. a < sv_next s" by (auto simp: svr_inv_def svr_table_inv_def ran_def)
  with mn_lock show ?case by (auto simp: svr_inv_def svr_main_inv_def svr_life_inv_def)
next
  case (mn_close s a xs)
  have "svr_inv conn onMsg (svr_put a (session_forceClose (sv_store s a)) s)"
    by (rule svr_put_inv [OF mn_close.prems evolves_forceClose])
  then show ?case using mn_close.hyps by (simp add: svr_inv_def svr_main_inv_def svr_life_inv_def)
next
  case (mn_wait s)
  then show ?case by (auto simp: svr_inv_def svr_main_inv_def svr_life_inv_def split: if_splits)
qed (simp_all add: svr_inv_def svr_main_inv_def svr_life_inv_def)

interpretation svr_sys: inductive_invariant svr_init "svr_step timeout conn onMsg" "svr_inv conn onMsg"
  for timeout conn onMsg
proof
  show "svr_inv conn onMsg s" if "svr_init s" for s
    using that by (simp add: svr_init_def NewUDPServer_def svr_inv_def svr_table_inv_def svr_read_inv_def
        svr_check_inv_def svr_main_inv_def svr_life_inv_def svr_sessions_inv_def)
  show "svr_inv conn onMsg t" if "svr_inv conn onMsg s" "svr_step timeout conn onMsg s t" for s t
    using that(2,1)
  proof (induction rule: svr_step.induct)
    case (svr_session s a x)
    then have "session_inv conn onMsg (sv_store s a)" by (simp add: svr_inv_def svr_sessions_inv_def)
    with svr_session show ?case by (intro svr_put_inv evolves_step)
  qed (auto intro: svr_read_step_inv svr_check_step_inv svr_main_step_inv)
qed

section \<open>Properties\<close>

text \<open>C35.
  One session for each address: of the sessions that have not ended, no two have the same address, although
  the read goroutine and the check loop find, make and delete them in separate steps. The table maps an address to a session
  of that address, a session that is in neither the table nor about to be put there has been closed and
  its goroutine has ended, and the table gives two senders one session exactly when they have the same IP and port (only
  the zone of an IPv6 address is not told apart).
\<close>

theorem udp_server_one_session_per_address:
  assumes "reachable svr_init (svr_step timeout conn onMsg) s" and "a < sv_next s" and "b < sv_next s"
  shows "(se_addr (sv_store s a) = se_addr (sv_store s b) \<and> \<not> session_Close_returns (sv_store s a)
      \<and> \<not> session_Close_returns (sv_store s b) \<longrightarrow> a = b)
    \<and> (getSession s i = Some a \<longrightarrow> se_addr (sv_store s a) = i)
    \<and> (getSession s (se_addr (sv_store s a)) \<noteq> Some a \<longrightarrow>
        session_Close_returns (sv_store s a) \<or> (\<exists>msg now. sv_rd s = UsAdd a msg now))
    \<and> (getSession s (addrToString x) = Some c \<longrightarrow>
        (getSession s (addrToString y) = Some c \<longleftrightarrow> canonical (ua_IP x) = canonical (ua_IP y) \<and> ua_Port x = ua_Port y))"
proof -
  have "svr_inv conn onMsg s" by (rule svr_sys.inv_reachable [OF assms(1)])
  then have i: "svr_table_inv s" "svr_read_inv s" by (simp_all add: svr_inv_def)
  have adding: "rd_adding (sv_rd s) = Some c \<longleftrightarrow> (\<exists>msg now. sv_rd s = UsAdd c msg now)" for c
    by (cases "sv_rd s") auto
  have cov: "in_table s c \<or> (\<exists>msg now. sv_rd s = UsAdd c msg now) \<or> session_Close_returns (sv_store s c)"
    if "c < sv_next s" for c using i(1) that by (simp add: svr_table_inv_def adding)
  have out: "\<not> in_table s d" if "sv_rd s = UsAdd c msg now" "se_addr (sv_store s c) = se_addr (sv_store s d)" for c d msg now
    using i(2) that by (simp add: svr_read_inv_def in_table_def)
  have "a = b" if same: "se_addr (sv_store s a) = se_addr (sv_store s b)"
    and run: "\<not> session_Close_returns (sv_store s a)" "\<not> session_Close_returns (sv_store s b)"
    using cov [OF assms(2)] cov [OF assms(3)] run svr_table_unique [OF i(1) _ _ same] out [OF _ same] out [OF _ same [symmetric]]
    by auto
  moreover have table: "getSession s i = Some a \<longrightarrow> se_addr (sv_store s a) = i" for i a
    using i(1) by (simp add: svr_table_inv_def getSession_def)
  moreover have "getSession s (addrToString x) = Some c \<longrightarrow>
      (getSession s (addrToString y) = Some c \<longleftrightarrow> canonical (ua_IP x) = canonical (ua_IP y) \<and> ua_Port x = ua_Port y)"
    unfolding addrToString_same [symmetric] using table by metis
  moreover have "getSession s (se_addr (sv_store s a)) \<noteq> Some a \<longrightarrow>
      session_Close_returns (sv_store s a) \<or> (\<exists>msg now. sv_rd s = UsAdd a msg now)"
    using cov [OF assms(2)] by (auto simp: in_table_def getSession_def)
  ultimately show ?thesis by blast
qed

section \<open>Runs\<close>

text \<open>
  A run in which \<open>Close\<close> finds no session and releases the mutex, and the read goroutine then
  takes one more datagram before the socket ends.
\<close>

definition late_run :: "nat \<Rightarrow> nat udp_server" where
  "late_run n =
     (let s0 = NewUDPServer;
          s2 = s0\<lparr>sv_sock := True, sv_wg := 1, sv_ck := CkWait, sv_main := MnServing\<rparr>;
          s5 = s2\<lparr>sv_main := MnCloseSock, sv_rd := UsNew ''a'' [1] 7\<rparr>;
          s6 = s5\<lparr>sv_store := (sv_store s5)(0 := NewUDPSession ''a'' 7), sv_next := 1, sv_rd := UsAdd 0 [1] 7\<rparr>;
          s7 = s6\<lparr>sv_sessions := [''a'' \<mapsto> 0], sv_rd := UsDeliver 0 [1] 7\<rparr>;
          s9 = s7\<lparr>sv_store := (sv_store s7)(0 := (NewUDPSession ''a'' 7)\<lparr>se_msgCh := [[1]], se_accepted := [[1]]\<rparr>),
                  sv_rd := UsExit\<rparr>
      in [s0, s0\<lparr>sv_sock := True, sv_main := MnStart\<rparr>, s2, s2\<lparr>sv_main := MnCloseSess []\<rparr>,
          s2\<lparr>sv_main := MnCloseSock\<rparr>, s5, s6, s7, s9\<lparr>sv_rd := UsIdle\<rparr>, s9, s9\<lparr>sv_main := MnCloseCh\<rparr>,
          s9\<lparr>sv_main := MnWait, sv_closeCh := True\<rparr>,
          s9\<lparr>sv_main := MnWait, sv_closeCh := True, sv_ck := CkExit, sv_wg := 0\<rparr>,
          s9\<lparr>sv_main := MnClosed, sv_closeCh := True, sv_ck := CkExit, sv_wg := 0\<rparr>] ! n)"

abbreviation late_step :: "nat udp_server \<Rightarrow> nat udp_server \<Rightarrow> bool" where
  "late_step \<equiv> svr_step 10 (\<lambda>_. 0) sum_handler"

lemmas late_defs = late_run_def NewUDPServer_def Let_def

lemma late_step_0: "late_step (late_run 0) (late_run 1)"
  using svr_main [OF _ mn_store [of "late_run 0"], of 10 "\<lambda>_. 0" sum_handler]
  by (simp add: late_defs)

lemma late_step_1: "late_step (late_run 1) (late_run 2)"
  using svr_main [OF _ mn_start [of "late_run 1"], of 10 "\<lambda>_. 0" sum_handler]
  by (simp add: late_defs)

lemma late_step_2: "late_step (late_run 2) (late_run 3)"
  using svr_main [OF _ mn_lock [of "late_run 2" "[]"], of 10 "\<lambda>_. 0" sum_handler]
  by (simp add: late_defs)

lemma late_step_3: "late_step (late_run 3) (late_run 4)"
  using svr_main [OF _ mn_unlock [of "late_run 3"], of 10 "\<lambda>_. 0" sum_handler]
  by (simp add: late_defs)

lemma late_step_4: "late_step (late_run 4) (late_run 5)"
  using svr_read [OF _ sr_get [where s = "late_run 4" and i = "''a''" and msg = "[1]" and now = 7], of 10 "\<lambda>_. 0" sum_handler]
  by (simp add: late_defs getSession_def)

lemma late_step_5: "late_step (late_run 5) (late_run 6)"
  using svr_read [OF _ sr_new [of "late_run 5" "''a''" "[1]" 7], of 10 "\<lambda>_. 0" sum_handler]
  by (simp add: late_defs)

lemma late_step_6: "late_step (late_run 6) (late_run 7)"
  using svr_read [OF _ sr_add [of "late_run 6" 0 "[1]" 7], of 10 "\<lambda>_. 0" sum_handler]
  by (simp add: late_defs addSession_def NewUDPSession_def)

lemma late_step_7: "late_step (late_run 7) (late_run 8)"
  using svr_read [OF _ sr_deliver [of "late_run 7" 0 "[1]" 7 None
       "(NewUDPSession ''a'' 7)\<lparr>se_msgCh := [[1]], se_accepted := [[1]]\<rparr>"], of 10 "\<lambda>_. 0" sum_handler]
  by (simp add: late_defs svr_put_def NewUDPSession_def session_recvMsg_def select_send_def udpMsgChanLimit_def)

lemma late_step_8: "late_step (late_run 8) (late_run 9)"
  using svr_read [OF _ sr_err [of "late_run 8"], of 10 "\<lambda>_. 0" sum_handler]
  by (simp add: late_defs)

lemma late_step_9: "late_step (late_run 9) (late_run 10)"
  using svr_main [OF _ mn_sock [of "late_run 9"], of 10 "\<lambda>_. 0" sum_handler]
  by (simp add: late_defs)

lemma late_step_10: "late_step (late_run 10) (late_run 11)"
  using svr_main [OF _ mn_closeCh [of "late_run 10"], of 10 "\<lambda>_. 0" sum_handler]
  by (simp add: late_defs)

lemma late_step_11: "late_step (late_run 11) (late_run 12)"
  using svr_check [OF _ ck_exit [of "late_run 11" 10], of "\<lambda>_. 0" sum_handler]
  by (simp add: late_defs svr_wg_Done_def)

lemma late_step_12: "late_step (late_run 12) (late_run 13)"
  using svr_main [OF _ mn_wait [of "late_run 12"], of 10 "\<lambda>_. 0" sum_handler]
  by (simp add: late_defs)

lemma late_reachable: "n \<le> 13 \<Longrightarrow> reachable svr_init late_step (late_run n)"
proof (induction n)
  case 0
  show ?case by (rule reach_init) (simp add: svr_init_def late_run_def)
next
  case (Suc n)
  then have r: "reachable svr_init late_step (late_run n)" by simp
  have "n = 0 \<or> n = 1 \<or> n = 2 \<or> n = 3 \<or> n = 4 \<or> n = 5 \<or> n = 6 \<or> n = 7 \<or> n = 8 \<or> n = 9 \<or> n = 10 \<or> n = 11 \<or> n = 12"
    using Suc.prems by arith
  then have "late_step (late_run n) (late_run (Suc n))"
    using late_step_0 late_step_1 late_step_2 late_step_3 late_step_4 late_step_5 late_step_6 late_step_7
      late_step_8 late_step_9 late_step_10 late_step_11 late_step_12
    by (auto simp: numeral_eq_Suc)
  with r show ?case by (rule reach_step)
qed

theorem udp_server_one_session_per_address_witness:
  "getSession (late_run 8) ''a'' = Some 0 \<and> se_addr (sv_store (late_run 8) 0) = ''a''"
  using udp_server_one_session_per_address [OF late_reachable, of 8 0 0 "''a''"]
  by (simp add: late_defs getSession_def)

text \<open>
  \<open>Close\<close> gives the mutex back before it ends the read goroutine, so a datagram of a new address can still make a
  session: there is a run after which \<open>Close\<close> has returned and a session is in the table, not closed,
  with its goroutine running, and nothing is left that would ever close it.
\<close>

theorem udp_server_close_leaks_session:
  "\<exists>s. reachable svr_init (svr_step 10 (\<lambda>_. 0 :: nat) sum_handler) s \<and> sv_main s = MnClosed \<and> sv_ck s = CkExit
     \<and> (\<exists>a. getSession s ''a'' = Some a \<and> \<not> se_closeOnce (sv_store s a) \<and> se_wg (sv_store s a) = 1)"
proof (intro exI conjI)
  show "reachable svr_init late_step (late_run 13)" by (rule late_reachable) simp
qed (simp_all add: late_defs getSession_def NewUDPSession_def)

text \<open>
  The socket's read goroutine runs before \<open>NewUDPServer\<close> has stored the socket: a datagram that arrives in between makes
  the type assertion in \<open>udpOnMsg\<close> panic; after the store it never does.
\<close>

theorem udp_server_start_race:
  "(\<exists>s. reachable svr_init (svr_step timeout conn onMsg) s \<and> sv_panic s = Some InterfaceConversion)
   \<and> (\<forall>s t. reachable svr_init (svr_step timeout conn onMsg) s \<and> sv_main s \<noteq> MnStore
        \<and> svr_step timeout conn onMsg s t \<longrightarrow> sv_panic t \<noteq> Some InterfaceConversion)"
proof (intro conjI allI impI)
  let ?s0 = "NewUDPServer :: 'a udp_server"
  let ?s1 = "?s0\<lparr>sv_rd := UsNew ''a'' [] 0\<rparr>"
  have "svr_step timeout conn onMsg ?s0 ?s1"
    using svr_read [OF _ sr_get [where s = ?s0 and i = "''a''" and msg = "[]" and now = 0]]
    by (simp add: NewUDPServer_def getSession_def)
  moreover have "svr_step timeout conn onMsg ?s1 (?s1\<lparr>sv_panic := Some InterfaceConversion\<rparr>)"
    using svr_read [OF _ sr_new [of ?s1 "''a''" "[]" 0]] by (simp add: NewUDPServer_def)
  moreover have "reachable svr_init (svr_step timeout conn onMsg) ?s0" by (rule reach_init) (simp add: svr_init_def)
  ultimately have r: "reachable svr_init (svr_step timeout conn onMsg) (?s1\<lparr>sv_panic := Some InterfaceConversion\<rparr>)"
    by (blast intro: reach_step)
  show "\<exists>s. reachable svr_init (svr_step timeout conn onMsg) s \<and> sv_panic s = Some InterfaceConversion"
    by (rule exI, rule conjI, rule r) (simp add: NewUDPServer_def)
next
  fix s t
  assume "reachable svr_init (svr_step timeout conn onMsg) s \<and> sv_main s \<noteq> MnStore \<and> svr_step timeout conn onMsg s t"
  then have r: "reachable svr_init (svr_step timeout conn onMsg) s" and m: "sv_main s \<noteq> MnStore"
    and st: "svr_step timeout conn onMsg s t" by auto
  have "sv_sock s" using svr_sys.inv_reachable [OF r] m by (simp add: svr_inv_def svr_life_inv_def)
  then show "sv_panic t \<noteq> Some InterfaceConversion"
    using st by (auto elim!: svr_step.cases svr_read_step.cases svr_check_step.cases svr_main_step.cases
        simp: svr_wg_Done_def addSession_def delSession_def split: if_splits)
qed

theorem udp_server_start_race_witness:
  "\<exists>s. reachable svr_init late_step s \<and> sv_panic s = Some InterfaceConversion"
  using udp_server_start_race [of 10 "\<lambda>_. 0" sum_handler] by blast

end
