(* ===== verification/Udp_Server_Close.thy ===== *)
theory Udp_Server_Close
  imports Udp_Server
begin

text \<open>
  \<open>UDPServer.Close\<close> runs to its end: a measure over the three goroutines and the sessions that are closed or listed
  for it, which every step of the server's own decreases, and a step that is enabled while it is not zero.
\<close>

section \<open>Closing\<close>

text \<open>The server's own steps once \<open>Close\<close> has the mutex: no new datagram, no new tick.\<close>

inductive svr_own_step :: "i64 \<Rightarrow> (string \<Rightarrow> 'st) \<Rightarrow> 'st on_handler_once \<Rightarrow> 'st udp_server \<Rightarrow> 'st udp_server \<Rightarrow> bool"
  for timeout conn onMsg where
  own_read: "sv_panic s = None \<Longrightarrow> svr_read_step s t \<Longrightarrow> sv_rd s \<noteq> UsIdle \<Longrightarrow> svr_own_step timeout conn onMsg s t"
| own_end: "sv_panic s = None \<Longrightarrow> sv_rd s = UsIdle \<Longrightarrow> sv_main s = MnCloseSock \<Longrightarrow>
    svr_own_step timeout conn onMsg s (s\<lparr>sv_rd := UsExit\<rparr>)"
| own_check: "sv_panic s = None \<Longrightarrow> svr_check_step timeout s t \<Longrightarrow> sv_ck s = CkWait \<longrightarrow> sv_ck t = CkExit \<Longrightarrow>
    svr_own_step timeout conn onMsg s t"
| own_main: "sv_panic s = None \<Longrightarrow> svr_main_step s t \<Longrightarrow> sv_main s \<noteq> MnServing \<Longrightarrow> sv_main s \<noteq> MnClosed \<Longrightarrow>
    svr_own_step timeout conn onMsg s t"
| own_session: "sv_panic s = None \<Longrightarrow> a < sv_next s \<Longrightarrow> se_closeOnce (sv_store s a) \<Longrightarrow>
    session_step conn onMsg (sv_store s a) x \<Longrightarrow> svr_own_step timeout conn onMsg s (svr_put a x s)"

fun srd_rank :: "srd_pc \<Rightarrow> nat" where
  "srd_rank (UsNew i msg now) = 6"
| "srd_rank (UsAdd a msg now) = 5"
| "srd_rank (UsDeliver a msg now) = 4"
| "srd_rank UsIdle = 1"
| "srd_rank UsExit = 0"

fun ck_rank :: "ck_pc \<Rightarrow> nat" where
  "ck_rank (CkClose xs) = 3 * length xs + 2"
| "ck_rank (CkJoin xs) = 3 * length xs + 1"
| "ck_rank (CkDel xs) = 3 * length xs"
| "ck_rank CkWait = 1"
| "ck_rank _ = 0"

fun mn_rank :: "svr_pc \<Rightarrow> nat" where
  "mn_rank (MnCloseSess xs) = 2 * length xs + 5"
| "mn_rank (MnJoin xs) = 2 * length xs + 4"
| "mn_rank MnCloseSock = 3"
| "mn_rank MnCloseCh = 2"
| "mn_rank MnWait = 1"
| "mn_rank _ = 0"

text \<open>What is left to do in the sessions that are closed or about to be.\<close>

definition svr_weight :: "'st udp_server \<Rightarrow> nat \<Rightarrow> nat" where
  "svr_weight s a =
     (if se_closeOnce (sv_store s a) \<or> a \<in> set (mn_list (sv_main s)) \<or> a \<in> set (ck_list (sv_ck s))
      then session_rank (sv_store s a) else 0)"

definition svr_rank :: "'st udp_server \<Rightarrow> nat" where
  "svr_rank s = (\<Sum>a < sv_next s. svr_weight s a) + srd_rank (sv_rd s) + ck_rank (sv_ck s) + mn_rank (sv_main s)"

fun mn_first_close :: "svr_pc \<Rightarrow> bool" where
  "mn_first_close (MnCloseSess xs) = True"
| "mn_first_close (MnJoin xs) = True"
| "mn_first_close MnCloseSock = True"
| "mn_first_close MnCloseCh = True"
| "mn_first_close _ = False"

lemma svr_own_step_sys: "svr_own_step timeout conn onMsg s t \<Longrightarrow> svr_step timeout conn onMsg s t"
  by (erule svr_own_step.cases) (auto intro: svr_step.intros svr_read_step.intros)

lemma in_lists_lt:
  assumes "svr_inv conn onMsg s" and "a \<in> set (ck_list (sv_ck s)) \<or> a \<in> set (mn_list (sv_main s))"
  shows "a < sv_next s"
  using assms by (auto simp: svr_inv_def svr_check_inv_def svr_main_inv_def svr_table_inv_def in_table_def)

section \<open>Every own step counts down\<close>

lemma svr_weight_put: "b \<noteq> a \<Longrightarrow> svr_weight (svr_put a x s) b = svr_weight s b"
  by (simp add: svr_weight_def)

lemma svr_weight_frame [simp]:
  "svr_weight (s\<lparr>sv_rd := rd\<rparr>) a = svr_weight s a" "svr_weight (s\<lparr>sv_wg := w\<rparr>) a = svr_weight s a"
  "svr_weight (s\<lparr>sv_closeCh := c\<rparr>) a = svr_weight s a" "svr_weight (s\<lparr>sv_panic := p\<rparr>) a = svr_weight s a"
  "svr_weight (addSession d s) a = svr_weight s a"
  by (simp_all add: svr_weight_def addSession_def)

lemma addSession_fields [simp]:
  "sv_main (addSession a s) = sv_main s" "sv_ck (addSession a s) = sv_ck s" "sv_next (addSession a s) = sv_next s"
  "sv_store (addSession a s) = sv_store s" "sv_panic (addSession a s) = sv_panic s"
  "sv_closeCh (addSession a s) = sv_closeCh s"
  by (simp_all add: addSession_def)

lemma delSession_fields [simp]:
  "sv_main (delSession a s) = sv_main s" "sv_rd (delSession a s) = sv_rd s" "sv_next (delSession a s) = sv_next s"
  "sv_store (delSession a s) = sv_store s" "sv_panic (delSession a s) = sv_panic s"
  "sv_closeCh (delSession a s) = sv_closeCh s"
  by (simp_all add: delSession_def)

lemma svr_sum_put:
  "a < sv_next s \<Longrightarrow>
     (\<Sum>b < sv_next s. svr_weight (svr_put a x s) b) + svr_weight s a
       = (\<Sum>b < sv_next s. svr_weight s b) + svr_weight (svr_put a x s) a"
  by (intro sum_point svr_weight_put)

lemma session_rank_forceClose [simp]: "session_rank (session_forceClose x) = session_rank x"
  by (simp add: session_rank_def session_forceClose_def)

lemma session_rank_recvMsg: "(r, y) \<in> set (session_recvMsg x msg now) \<Longrightarrow> session_rank y \<le> session_rank x + 1"
  using session_recvMsg_cases [of r y x msg now] by (cases "se_pc x") (auto simp: session_rank_def)

lemma session_recvMsg_closeOnce: "(r, y) \<in> set (session_recvMsg x msg now) \<Longrightarrow> se_closeOnce y = se_closeOnce x"
  using session_recvMsg_cases [of r y x msg now] by auto

lemma svr_read_step_rank:
  assumes "svr_read_step s t" and "svr_inv conn onMsg s" and "sv_rd s \<noteq> UsIdle" and "sv_panic t = None"
  shows "svr_rank t < svr_rank s"
  using assms
proof (induction rule: svr_read_step.induct)
  case (sr_new s i msg now)
  let ?t = "s\<lparr>sv_store := (sv_store s)(sv_next s := NewUDPSession i now), sv_next := sv_next s + 1,
    sv_rd := UsAdd (sv_next s) msg now\<rparr>"
  have "sv_next s \<notin> set (ck_list (sv_ck s))" "sv_next s \<notin> set (mn_list (sv_main s))"
    using in_lists_lt [OF sr_new.prems(1), of "sv_next s"] by auto
  then have "svr_weight ?t (sv_next s) = 0" by (simp add: svr_weight_def NewUDPSession_def)
  moreover have "(\<Sum>b < sv_next s. svr_weight ?t b) = (\<Sum>b < sv_next s. svr_weight s b)"
    by (rule sum.cong) (auto simp: svr_weight_def)
  ultimately show ?case using sr_new by (auto simp: svr_rank_def split: if_splits)
next
  case (sr_add s a msg now)
  then show ?case by (simp add: svr_rank_def)
next
  case (sr_deliver s a msg now r x)
  have a: "a < sv_next s" using sr_deliver by (simp add: svr_inv_def svr_read_inv_def)
  have "svr_weight (svr_put a x s) a \<le> svr_weight s a + 1"
    using session_rank_recvMsg [OF sr_deliver.hyps(2)] session_recvMsg_closeOnce [OF sr_deliver.hyps(2)]
    by (simp add: svr_weight_def)
  with svr_sum_put [OF a, of x] sr_deliver.hyps(1) show ?case by (simp add: svr_rank_def)
qed simp_all

lemma svr_put_forceClose_sum:
  assumes "a < sv_next s" and "a \<in> set (mn_list (sv_main s)) \<or> a \<in> set (ck_list (sv_ck s))"
  shows "(\<Sum>b < sv_next s. svr_weight (svr_put a (session_forceClose (sv_store s a)) s) b)
    = (\<Sum>b < sv_next s. svr_weight s b)"
  using svr_sum_put [OF assms(1), of "session_forceClose (sv_store s a)"] assms(2)
  by (simp add: svr_weight_def)

text \<open>Leaving a list changes no weight when the session is closed.\<close>

lemma svr_sum_ck:
  assumes "\<And>a. a \<noteq> b \<Longrightarrow> a \<in> set (ck_list c) \<longleftrightarrow> a \<in> set (ck_list (sv_ck s))" and "se_closeOnce (sv_store s b)"
  shows "(\<Sum>a < n. svr_weight (s\<lparr>sv_ck := c\<rparr>) a) = (\<Sum>a < n. svr_weight s a)"
proof (rule sum.cong)
  fix a
  show "svr_weight (s\<lparr>sv_ck := c\<rparr>) a = svr_weight s a" using assms by (cases "a = b") (auto simp: svr_weight_def)
qed simp

lemma svr_sum_mn:
  assumes "\<And>a. a \<noteq> b \<Longrightarrow> a \<in> set (mn_list m) \<longleftrightarrow> a \<in> set (mn_list (sv_main s))" and "se_closeOnce (sv_store s b)"
  shows "(\<Sum>a < n. svr_weight (s\<lparr>sv_main := m\<rparr>) a) = (\<Sum>a < n. svr_weight s a)"
proof (rule sum.cong)
  fix a
  show "svr_weight (s\<lparr>sv_main := m\<rparr>) a = svr_weight s a" using assms by (cases "a = b") (auto simp: svr_weight_def)
qed simp

lemma svr_sum_ck_same:
  "set (ck_list c) = set (ck_list (sv_ck s)) \<Longrightarrow> svr_weight (s\<lparr>sv_ck := c\<rparr>) a = svr_weight s a"
  by (simp add: svr_weight_def)

lemma svr_sum_mn_same:
  "set (mn_list m) = set (mn_list (sv_main s)) \<Longrightarrow> svr_weight (s\<lparr>sv_main := m\<rparr>) a = svr_weight s a"
  by (simp add: svr_weight_def)

lemma svr_check_step_rank:
  assumes "svr_check_step timeout s t" and "svr_inv conn onMsg s" and "sv_ck s = CkWait \<longrightarrow> sv_ck t = CkExit"
  shows "svr_rank t < svr_rank s"
  using assms
proof (induction rule: svr_check_step.induct)
  case (ck_exit s)
  then show ?case by (simp add: svr_rank_def svr_wg_Done_def svr_sum_ck_same)
next
  case (ck_close s a xs)
  have "a < sv_next s" using in_lists_lt [OF ck_close.prems(1)] ck_close.hyps by simp
  with ck_close.hyps show ?case
    by (simp add: svr_rank_def svr_sum_ck_same svr_put_forceClose_sum del: svr_put_fields(10))
next
  case (ck_join s a xs)
  then show ?case by (simp add: svr_rank_def svr_sum_ck_same)
next
  case (ck_del s a xs)
  then have "session_Close_returns (sv_store s a)" by (simp add: svr_inv_def svr_check_inv_def)
  then have closed: "se_closeOnce (sv_store s a)" by (simp add: session_Close_returns_def)
  have "(\<Sum>b < sv_next s. svr_weight ((delSession a s)\<lparr>sv_ck := CkClose xs\<rparr>) b)
      = (\<Sum>b < sv_next s. svr_weight (s\<lparr>sv_ck := CkClose xs\<rparr>) b)"
    by (rule sum.cong) (simp_all add: svr_weight_def delSession_def)
  also have "\<dots> = (\<Sum>b < sv_next s. svr_weight s b)"
    using ck_del.hyps(1) closed by (intro svr_sum_ck [where b = a]) auto
  finally show ?case using ck_del.hyps(1) by (simp add: svr_rank_def delSession_def)
next
  case (ck_again s)
  then show ?case by (simp add: svr_rank_def svr_sum_ck_same)
qed simp_all

lemma svr_main_step_rank:
  assumes "svr_main_step s t" and "svr_inv conn onMsg s" and "mn_rank (sv_main s) \<noteq> 0" and "sv_panic t = None"
  shows "svr_rank t < svr_rank s"
  using assms
proof (induction rule: svr_main_step.induct)
  case (mn_close s a xs)
  have "a < sv_next s" using in_lists_lt [OF mn_close.prems(1)] mn_close.hyps by simp
  with mn_close.hyps show ?case
    by (simp add: svr_rank_def svr_sum_mn_same svr_put_forceClose_sum del: svr_put_fields(10))
next
  case (mn_join s a xs)
  then have "se_closeOnce (sv_store s a)" by (simp add: session_Close_returns_def)
  then have "(\<Sum>b < sv_next s. svr_weight (s\<lparr>sv_main := MnCloseSess xs\<rparr>) b) = (\<Sum>b < sv_next s. svr_weight s b)"
    using mn_join.hyps(1) by (intro svr_sum_mn [where b = a]) auto
  with mn_join.hyps(1) show ?case by (simp add: svr_rank_def)
qed (auto simp: svr_rank_def svr_sum_mn_same split: if_splits)

section \<open>Closing goes on\<close>

definition svr_calm :: "'st udp_server \<Rightarrow> bool" where
  "svr_calm s \<longleftrightarrow> sv_panic s = None \<and> (\<forall>a < sv_next s. se_panic (sv_store s a) = None)"

lemma session_recvMsg_panic: "(r, y) \<in> set (session_recvMsg x msg now) \<Longrightarrow> se_panic y = se_panic x"
  using session_recvMsg_cases [of r y x msg now] by auto

lemma session_forceClose_panic: "session_inv conn onMsg x \<Longrightarrow> se_panic (session_forceClose x) = se_panic x"
  by (simp add: session_inv_def session_control_inv_def session_forceClose_def)

lemma session_step_calm:
  assumes "session_step conn onMsg x y" and "session_inv conn onMsg x" and "\<forall>st m. no_panic (onMsg st m)"
  shows "se_panic y = None"
  using assms
proof (induction rule: session_step.induct)
  case (sh_msg s st msg q)
  have "no_panic (onMsg st msg)" using sh_msg.prems(2) by blast
  then obtain r where "onMsg st msg = Ret r" by (cases "onMsg st msg") simp_all
  with sh_msg.hyps show ?case by (simp add: session_handle_def Let_def split: prod.split option.split)
qed (auto simp: session_wg_Done_def session_inv_def session_control_inv_def)

lemma svr_own_step_calm:
  assumes "svr_own_step timeout conn onMsg s t" and "svr_inv conn onMsg s" and "svr_calm s"
    and "\<forall>st m. no_panic (onMsg st m)" and "mn_first_close (sv_main s) \<longrightarrow> \<not> sv_closeCh s"
    and "sv_main s \<noteq> MnStore"
  shows "svr_calm t"
  using assms
proof (induction rule: svr_own_step.induct)
  case (own_read s t)
  have sock: "sv_sock s" using own_read.prems by (simp add: svr_inv_def svr_life_inv_def)
  from own_read.hyps(2) own_read.prems show ?case
  proof (cases rule: svr_read_step.cases)
    case (sr_deliver a msg now r x)
    then show ?thesis using own_read.prems(1,2) session_recvMsg_panic [OF sr_deliver(3)]
      by (auto simp: svr_calm_def svr_inv_def svr_read_inv_def)
  qed (auto simp: svr_calm_def sock NewUDPSession_def less_Suc_eq)
next
  case (own_check s t)
  from own_check.hyps(2) own_check.prems show ?case
  proof (cases rule: svr_check_step.cases)
    case (ck_close a xs)
    then have "session_inv conn onMsg (sv_store s a)"
      using in_lists_lt [OF own_check.prems(1), of a] own_check.prems(1) by (simp add: svr_inv_def svr_sessions_inv_def)
    from session_forceClose_panic [OF this] show ?thesis using own_check.prems(2) ck_close by (simp add: svr_calm_def)
  qed (auto simp: svr_calm_def svr_wg_Done_def svr_inv_def svr_life_inv_def)
next
  case (own_main s t)
  from own_main.hyps(2) own_main.prems show ?case
  proof (cases rule: svr_main_step.cases)
    case (mn_close a xs)
    then have "session_inv conn onMsg (sv_store s a)"
      using in_lists_lt [OF own_main.prems(1), of a] own_main.prems(1) by (simp add: svr_inv_def svr_sessions_inv_def)
    from session_forceClose_panic [OF this] show ?thesis using own_main.prems(2) mn_close by (simp add: svr_calm_def)
  qed (auto simp: svr_calm_def)
next
  case (own_session s a x)
  then have "session_inv conn onMsg (sv_store s a)" by (simp add: svr_inv_def svr_sessions_inv_def)
  from session_step_calm [OF own_session.hyps(4) this own_session.prems(3)] show ?case
    using own_session.prems(2) by (simp add: svr_calm_def)
qed (simp add: svr_calm_def)

text \<open>The sessions \<open>Close\<close> found are on its list or have ended.\<close>

definition svr_listed :: "nat set \<Rightarrow> 'st udp_server \<Rightarrow> bool" where
  "svr_listed A s \<longleftrightarrow> (\<forall>a \<in> A. a < sv_next s \<and> (a \<in> set (mn_list (sv_main s)) \<or> session_Close_returns (sv_store s a)))"

lemma svr_put_listed:
  assumes "svr_listed A s" and "evolves conn onMsg (sv_store s a) x"
  shows "svr_listed A (svr_put a x s)"
  using assms by (auto simp: svr_listed_def evolves_def)

lemma svr_listed_frame [simp]:
  "svr_listed A (s\<lparr>sv_rd := rd\<rparr>) = svr_listed A s" "svr_listed A (s\<lparr>sv_ck := ck\<rparr>) = svr_listed A s"
  "svr_listed A (s\<lparr>sv_wg := w\<rparr>) = svr_listed A s" "svr_listed A (s\<lparr>sv_panic := p\<rparr>) = svr_listed A s"
  "svr_listed A (s\<lparr>sv_closeCh := c\<rparr>) = svr_listed A s"
  "svr_listed A (addSession a s) = svr_listed A s" "svr_listed A (delSession a s) = svr_listed A s"
  by (simp_all add: svr_listed_def)

lemma svr_own_step_listed:
  assumes "svr_own_step timeout conn onMsg s t" and "svr_inv conn onMsg s" and "svr_listed A s"
  shows "svr_listed A t"
  using assms
proof (induction rule: svr_own_step.induct)
  case (own_read s t)
  from own_read.hyps(2) own_read.prems show ?case
  proof (cases rule: svr_read_step.cases)
    case (sr_new i msg now)
    then show ?thesis using own_read.prems(2) by (auto simp: svr_listed_def)
  next
    case (sr_deliver a msg now r x)
    then show ?thesis using svr_put_listed [OF own_read.prems(2) evolves_recvMsg [OF sr_deliver(3)]] by simp
  qed simp_all
next
  case (own_check s t)
  from own_check.hyps(2) own_check.prems show ?case
  proof (cases rule: svr_check_step.cases)
    case (ck_close a xs)
    then show ?thesis using svr_put_listed [OF own_check.prems(2) evolves_forceClose] by simp
  qed (simp_all add: svr_wg_Done_def)
next
  case (own_main s t)
  from own_main.hyps(2) own_main.prems show ?case
  proof (cases rule: svr_main_step.cases)
    case (mn_close a xs)
    have "svr_listed A (svr_put a (session_forceClose (sv_store s a)) s)"
      by (rule svr_put_listed [OF own_main.prems(2) evolves_forceClose])
    with mn_close show ?thesis by (simp add: svr_listed_def)
  qed (use own_main.hyps in \<open>auto simp: svr_listed_def\<close>)
next
  case (own_session s a x)
  then have "session_inv conn onMsg (sv_store s a)" by (simp add: svr_inv_def svr_sessions_inv_def)
  with own_session show ?case by (intro svr_put_listed evolves_step)
qed simp

text \<open>Where \<open>Close\<close> stands.\<close>

definition svr_phase :: "'st udp_server \<Rightarrow> bool" where
  "svr_phase s \<longleftrightarrow>
     (mn_first_close (sv_main s) \<longrightarrow> \<not> sv_closeCh s)
     \<and> (mn_first_close (sv_main s) \<or> sv_main s = MnWait \<or> sv_main s = MnClosed)
     \<and> (sv_main s = MnCloseCh \<or> sv_main s = MnWait \<or> sv_main s = MnClosed \<longrightarrow> sv_rd s = UsExit)
     \<and> (sv_main s = MnClosed \<longrightarrow> sv_ck s = CkExit)"

lemma svr_own_step_phase:
  assumes "svr_own_step timeout conn onMsg s t" and "svr_inv conn onMsg s" and "svr_phase s"
  shows "svr_phase t"
  using assms
proof (induction rule: svr_own_step.induct)
  case (own_read s t)
  from own_read.hyps(2) own_read.prems own_read.hyps(3) show ?case
    by (cases rule: svr_read_step.cases) (auto simp: svr_phase_def)
next
  case (own_check s t)
  from own_check.hyps(2) own_check.prems show ?case
    by (cases rule: svr_check_step.cases) (auto simp: svr_phase_def svr_wg_Done_def)
next
  case (own_main s t)
  from own_main.hyps(2) own_main.prems own_main.hyps(3,4) show ?case
    by (cases rule: svr_main_step.cases)
      (auto simp: svr_phase_def svr_inv_def svr_life_inv_def split: if_splits)
qed (auto simp: svr_phase_def)

definition svr_closing :: "(string \<Rightarrow> 'st) \<Rightarrow> 'st on_handler_once \<Rightarrow> nat set \<Rightarrow> 'st udp_server \<Rightarrow> bool" where
  "svr_closing conn onMsg A s \<longleftrightarrow> svr_inv conn onMsg s \<and> svr_calm s \<and> svr_listed A s \<and> svr_phase s
     \<and> (\<forall>st m. no_panic (onMsg st m))"

lemma svr_own_step_closing:
  assumes "svr_closing conn onMsg A s" and "svr_own_step timeout conn onMsg s t"
  shows "svr_closing conn onMsg A t"
proof -
  have c: "svr_inv conn onMsg s" "svr_calm s" "svr_listed A s" "svr_phase s" "\<forall>st m. no_panic (onMsg st m)"
    using assms(1) by (simp_all add: svr_closing_def)
  have "svr_inv conn onMsg t" by (rule svr_sys.inv_step [OF c(1) svr_own_step_sys [OF assms(2)]])
  moreover have "sv_main s \<noteq> MnStore" "mn_first_close (sv_main s) \<longrightarrow> \<not> sv_closeCh s"
    using c(4) by (auto simp: svr_phase_def)
  then have "svr_calm t" by (intro svr_own_step_calm [OF assms(2) c(1,2,5)])
  moreover note svr_own_step_listed [OF assms(2) c(1,3)] svr_own_step_phase [OF assms(2) c(1,4)]
  ultimately show ?thesis using c(5) by (simp add: svr_closing_def)
qed

lemma svr_own_step_rank:
  assumes "svr_closing conn onMsg A s" and "svr_own_step timeout conn onMsg s t"
  shows "svr_rank t < svr_rank s"
proof -
  have inv: "svr_inv conn onMsg s" and ph: "svr_phase s" and np: "\<forall>st m. no_panic (onMsg st m)"
    using assms(1) by (simp_all add: svr_closing_def)
  have calm: "sv_panic t = None" using svr_own_step_closing [OF assms] by (simp add: svr_closing_def svr_calm_def)
  from assms(2) show ?thesis
  proof (cases rule: svr_own_step.cases)
    case own_read
    then show ?thesis using svr_read_step_rank [OF _ inv _ calm] by simp
  next
    case own_end
    then show ?thesis by (simp add: svr_rank_def)
  next
    case own_check
    then show ?thesis using svr_check_step_rank [OF _ inv] by simp
  next
    case own_main
    then have "mn_rank (sv_main s) \<noteq> 0" using ph by (cases "sv_main s") (auto simp: svr_phase_def)
    with own_main show ?thesis using svr_main_step_rank [OF _ inv _ calm] by simp
  next
    case (own_session a x)
    have i: "session_inv conn onMsg (sv_store s a)" using own_session(3) inv by (simp add: svr_inv_def svr_sessions_inv_def)
    have "session_rank x < session_rank (sv_store s a)"
      using session_step_rank [OF own_session(5)] session_step_calm [OF own_session(5) i np] by simp
    moreover have "se_closeOnce x" using evolves_step [OF own_session(5) i] own_session(4) by (simp add: evolves_def)
    ultimately have "svr_weight (svr_put a x s) a < svr_weight s a" using own_session(4) by (simp add: svr_weight_def)
    with svr_sum_put [OF own_session(3), of x] show ?thesis by (simp add: own_session(1) svr_rank_def)
  qed
qed

section \<open>Something can always be done\<close>

lemma svr_session_enabled:
  assumes c: "svr_closing conn onMsg A s" and a: "a < sv_next s" "se_closeOnce (sv_store s a)"
    and run: "\<not> session_Close_returns (sv_store s a) \<or> 0 < session_rank (sv_store s a)"
  shows "\<exists>t. svr_own_step timeout conn onMsg s t"
proof -
  let ?x = "sv_store s a"
  have inv: "session_inv conn onMsg ?x" and calm: "se_panic ?x = None" "sv_panic s = None"
    and np: "\<forall>st m. no_panic (onMsg st m)"
    using c a by (simp_all add: svr_closing_def svr_inv_def svr_sessions_inv_def svr_calm_def)
  have "session_closing conn onMsg ?x" using inv calm np a(2) by (simp add: session_closing_def)
  moreover have "0 < session_rank ?x"
    using run inv a(2) by (cases "se_pc ?x")
      (auto simp: session_rank_def session_Close_returns_def session_inv_def session_control_inv_def)
  ultimately obtain y where "session_step conn onMsg ?x y" using session_step_enabled by blast
  with calm(2) a show ?thesis by (blast intro: own_session)
qed

lemma svr_check_enabled:
  assumes c: "svr_closing conn onMsg A s" and m: "\<not> mu_held (sv_main s)" "sv_closeCh s \<or> sv_ck s \<noteq> CkWait"
    and ck: "0 < ck_rank (sv_ck s)"
  shows "\<exists>t. svr_own_step timeout conn onMsg s t"
proof -
  have panic: "sv_panic s = None" and inv: "svr_inv conn onMsg s" using c by (simp_all add: svr_closing_def svr_calm_def)
  have own: "svr_check_step timeout s t \<Longrightarrow> sv_ck s \<noteq> CkWait \<Longrightarrow> ?thesis" for t
    using own_check [OF panic] by blast
  show ?thesis
  proof (cases "sv_ck s")
    case CkWait
    with m have "svr_check_step timeout s (svr_wg_Done (s\<lparr>sv_ck := CkExit\<rparr>))" by (intro ck_exit) simp_all
    moreover have "sv_ck (svr_wg_Done (s\<lparr>sv_ck := CkExit\<rparr>)) = CkExit" by (simp add: svr_wg_Done_def)
    ultimately show ?thesis using own_check [OF panic] by blast
  next
    case (CkClose xs)
    then show ?thesis by (cases xs) (auto intro: own ck_close ck_again)
  next
    case (CkJoin xs)
    then obtain a ys where xs: "xs = a # ys" "se_closeOnce (sv_store s a)"
      using inv by (cases xs) (auto simp: svr_inv_def svr_check_inv_def)
    have "a < sv_next s" using in_lists_lt [OF inv, of a] CkJoin xs by simp
    then show ?thesis
      using svr_session_enabled [OF c _ xs(2)] own [OF ck_join] CkJoin xs(1) by (cases "session_Close_returns (sv_store s a)") auto
  next
    case (CkDel xs)
    with inv have "xs \<noteq> []" by (simp add: svr_inv_def svr_check_inv_def)
    with CkDel m show ?thesis by (cases xs) (auto intro: own ck_del)
  qed (use ck in simp_all)
qed

lemma svr_read_enabled:
  assumes c: "svr_closing conn onMsg A s" and m: "sv_main s = MnCloseSock" and rd: "sv_rd s \<noteq> UsExit"
  shows "\<exists>t. svr_own_step timeout conn onMsg s t"
proof -
  have panic: "sv_panic s = None" using c by (simp add: svr_closing_def svr_calm_def)
  have own: "svr_read_step s t \<Longrightarrow> sv_rd s \<noteq> UsIdle \<Longrightarrow> ?thesis" for t using own_read [OF panic] by blast
  show ?thesis
  proof (cases "sv_rd s")
    case UsIdle
    with panic m show ?thesis by (blast intro: own_end)
  next
    case (UsNew i msg now)
    then show ?thesis by (intro own [OF sr_new]) simp_all
  next
    case (UsAdd a msg now)
    then show ?thesis using m by (intro own [OF sr_add]) simp_all
  next
    case (UsDeliver a msg now)
    have ne: "session_recvMsg (sv_store s a) msg now \<noteq> []"
      using session_port.never_blocks [of "sv_store s a" "(msg, now)"] by simp
    obtain r x where "hd (session_recvMsg (sv_store s a) msg now) = (r, x)" by (rule prod.exhaust)
    with hd_in_set [OF ne] have "(r, x) \<in> set (session_recvMsg (sv_store s a) msg now)" by simp
    with UsDeliver show ?thesis by (intro own [OF sr_deliver]) simp_all
  qed (use rd in simp)
qed

lemma svr_own_enabled:
  assumes c: "svr_closing conn onMsg A s" and pos: "0 < svr_rank s"
  shows "\<exists>t. svr_own_step timeout conn onMsg s t"
proof -
  have inv: "svr_inv conn onMsg s" and panic: "sv_panic s = None" and ph: "svr_phase s"
    using c by (simp_all add: svr_closing_def svr_calm_def)
  have own: "svr_main_step s t \<Longrightarrow> sv_main s \<noteq> MnServing \<Longrightarrow> sv_main s \<noteq> MnClosed \<Longrightarrow> ?thesis" for t
    using own_main [OF panic] by blast
  show ?thesis
  proof (cases "sv_main s")
    case (MnCloseSess xs)
    then show ?thesis by (cases xs) (auto intro: own mn_close mn_unlock)
  next
    case (MnJoin xs)
    then obtain a ys where xs: "xs = a # ys" "se_closeOnce (sv_store s a)"
      using inv by (cases xs) (auto simp: svr_inv_def svr_main_inv_def)
    have "a < sv_next s" using in_lists_lt [OF inv, of a] MnJoin xs by simp
    then show ?thesis
      using svr_session_enabled [OF c _ xs(2)] own [OF mn_join] MnJoin xs(1) by (cases "session_Close_returns (sv_store s a)") auto
  next
    case MnCloseSock
    then show ?thesis using svr_read_enabled [OF c] own [OF mn_sock] by (cases "sv_rd s = UsExit") auto
  next
    case MnCloseCh
    then show ?thesis by (intro own [OF mn_closeCh]) simp_all
  next
    case MnWait
    then have ch: "sv_closeCh s" and off: "sv_ck s \<noteq> CkOff" using inv by (auto simp: svr_inv_def svr_life_inv_def)
    show ?thesis
    proof (cases "sv_ck s = CkExit")
      case True
      then have "sv_wg s = 0" using inv by (simp add: svr_inv_def svr_life_inv_def)
      with MnWait show ?thesis by (intro own [OF mn_wait]) simp_all
    next
      case False
      with off have "0 < ck_rank (sv_ck s)"
        using inv by (cases "sv_ck s") (auto simp: svr_inv_def svr_check_inv_def)
      with MnWait ch show ?thesis by (intro svr_check_enabled [OF c]) simp_all
    qed
  next
    case MnClosed
    then have "sv_rd s = UsExit" "sv_ck s = CkExit" using ph by (auto simp: svr_phase_def)
    with MnClosed pos have "0 < (\<Sum>a < sv_next s. svr_weight s a)" by (simp add: svr_rank_def)
    then obtain a where "a < sv_next s" "0 < svr_weight s a"
      by (metis lessThan_iff neq0_conv sum.neutral)
    with MnClosed \<open>sv_ck s = CkExit\<close> show ?thesis
      by (intro svr_session_enabled [OF c, of a]) (auto simp: svr_weight_def split: if_splits)
  qed (use ph in \<open>simp_all add: svr_phase_def\<close>)
qed

interpretation svr_shutdown: progress_measure "svr_closing conn onMsg A" "svr_own_step timeout conn onMsg"
    "svr_closing conn onMsg A" "svr_own_step timeout conn onMsg" svr_rank for timeout conn onMsg A
proof
  fix s t
  assume c: "svr_closing conn onMsg A s"
  show "svr_closing conn onMsg A t" if "svr_own_step timeout conn onMsg s t"
    by (rule svr_own_step_closing [OF c that])
  show "svr_rank t < svr_rank s" if "svr_own_step timeout conn onMsg s t"
    by (rule svr_own_step_rank [OF c that])
  show "\<exists>t. svr_own_step timeout conn onMsg s t" if "0 < svr_rank s" by (rule svr_own_enabled [OF c that])
qed

section \<open>Properties\<close>

lemma svr_lock_enabled:
  assumes "svr_inv conn onMsg s" and "sv_main s = MnServing"
  shows "\<exists>s0. svr_main_step s s0"
proof -
  have lt: "ran (sv_sessions s) \<subseteq> {..<sv_next s}" using assms(1) by (auto simp: svr_inv_def svr_table_inv_def ran_def)
  then obtain xs where "set xs = ran (sv_sessions s)" "distinct xs"
    using finite_distinct_list [OF finite_subset [OF lt]] by auto
  then have "svr_main_step s (s\<lparr>sv_main := MnCloseSess xs\<rparr>)" using assms(2) by (intro mn_lock) simp_all
  then show ?thesis by blast
qed

lemma svr_lock_closing:
  assumes "svr_inv conn onMsg s" and "sv_main s = MnServing" and "svr_calm s" and "\<forall>st m. no_panic (onMsg st m)"
    and lock: "svr_main_step s s0"
  shows "mu_held (sv_main s0) \<and> svr_closing conn onMsg (ran (sv_sessions s)) s0"
proof -
  obtain ys where s0: "s0 = s\<lparr>sv_main := MnCloseSess ys\<rparr>" and ys: "set ys = ran (sv_sessions s)"
    using lock assms(2) by (auto elim: svr_main_step.cases)
  have lt: "ran (sv_sessions s) \<subseteq> {..<sv_next s}" using assms(1) by (auto simp: svr_inv_def svr_table_inv_def ran_def)
  have "svr_inv conn onMsg s0" by (rule svr_main_step_inv [OF lock assms(1)])
  moreover have "\<not> sv_closeCh s" using assms(1,2) by (simp add: svr_inv_def svr_life_inv_def)
  ultimately show ?thesis
    using assms(3,4) ys lt by (auto simp: s0 svr_closing_def svr_calm_def svr_listed_def svr_phase_def)
qed

text \<open>What holds once \<open>Close\<close> has returned.\<close>

definition svr_closed :: "(string \<rightharpoonup> nat) \<Rightarrow> 'st udp_server \<Rightarrow> bool" where
  "svr_closed sessions t \<longleftrightarrow> sv_main t = MnClosed \<and> sv_ck t = CkExit \<and> sv_rd t = UsExit
     \<and> (\<forall>i a. sessions i = Some a \<longrightarrow> session_Close_returns (sv_store t a))"

lemma svr_closing_closed: "svr_closing conn onMsg (ran m) t \<Longrightarrow> sv_main t = MnClosed \<Longrightarrow> svr_closed m t"
  by (auto simp: svr_closed_def svr_closing_def svr_phase_def svr_listed_def ran_def)

lemma svr_rank_closed: "svr_closing conn onMsg A t \<Longrightarrow> svr_rank t = 0 \<Longrightarrow> sv_main t = MnClosed"
  by (cases "sv_main t") (auto simp: svr_closing_def svr_phase_def svr_rank_def)

text \<open>C33.
  \<open>UDPServer.Close\<close> completes: from any state in which the server serves and nothing has panicked, \<open>Close\<close> can take
  the mutex, and from then on every run of the goroutines of the server and of the closed sessions is finite and ends with its
  return, whatever the check loop and the read goroutine were doing and in whatever order the table is ranged over; the check loop is gone and every session that was in the table has ended. The handler must not
  panic.
\<close>

theorem udp_server_close_completes:
  assumes "reachable svr_init (svr_step timeout conn onMsg) s" and "sv_main s = MnServing" and "svr_calm s"
    and "\<forall>st m. no_panic (onMsg st m)"
  shows "(\<exists>s0. svr_main_step s s0) \<and> (\<forall>s0. svr_main_step s s0 \<longrightarrow> mu_held (sv_main s0) \<and>
    runs_end (svr_own_step timeout conn onMsg) (\<lambda>t. sv_main t = MnClosed \<and> sv_ck t = CkExit \<and> sv_rd t = UsExit
      \<and> (\<forall>i a. sv_sessions s i = Some a \<longrightarrow> session_Close_returns (sv_store t a))) s0)"
proof (intro conjI allI impI)
  have inv: "svr_inv conn onMsg s" by (rule svr_sys.inv_reachable [OF assms(1)])
  show "\<exists>s0. svr_main_step s s0" by (rule svr_lock_enabled [OF inv assms(2)])
  fix s0 assume "svr_main_step s s0"
  note start = svr_lock_closing [OF inv assms(2,3,4) this]
  then show "mu_held (sv_main s0)" by simp
  show "runs_end (svr_own_step timeout conn onMsg) (\<lambda>t. sv_main t = MnClosed \<and> sv_ck t = CkExit \<and> sv_rd t = UsExit
      \<and> (\<forall>i a. sv_sessions s i = Some a \<longrightarrow> session_Close_returns (sv_store t a))) s0"
    unfolding svr_closed_def [symmetric]
    by (rule svr_shutdown.every_run_ends [OF conjunct2 [OF start]]) (rule svr_closing_closed, assumption, rule svr_rank_closed)
qed

theorem udp_server_close_completes_witness:
  "\<exists>s0 t. svr_main_step (late_run 2) s0 \<and> steps (svr_own_step 10 (\<lambda>_. 0) sum_handler) s0 t \<and> sv_main t = MnClosed"
proof -
  have r: "reachable svr_init late_step (late_run 2)" by (rule late_reachable) simp
  have m: "sv_main (late_run 2) = MnServing" "svr_calm (late_run 2)"
    by (simp_all add: late_defs svr_calm_def)
  have h: "\<forall>st m. no_panic (sum_handler st m)" by (simp add: sum_handler_def)
  note closes = udp_server_close_completes [OF r m h]
  obtain s0 where s0: "svr_main_step (late_run 2) s0" using closes by blast
  with closes have "runs_end (svr_own_step 10 (\<lambda>_. 0) sum_handler) (\<lambda>t. sv_main t = MnClosed \<and> sv_ck t = CkExit
      \<and> sv_rd t = UsExit \<and> (\<forall>i a. sv_sessions (late_run 2) i = Some a \<longrightarrow> session_Close_returns (sv_store t a))) s0"
    by simp
  from runs_end_reaches [OF this] s0 show ?thesis by blast
qed

end
