(* ===== verification/Tcp_Socket.thy ===== *)
theory Tcp_Socket
  imports Send_Port Stream_Read
begin

text \<open>
  The TCP socket of \<open>pkg/xnet/tcp_socket.go\<close>: a read and a write goroutine, the channel between
  the callers of \<open>SendMsg\<close> and the writer, and the shut down \<open>Close\<close> starts (close the read side,
  the read loop ends and closes \<open>closeCh\<close>, the write loop sends what is left and closes the
  connection). The goroutines are program counters of one state; a step is one goroutine moving.
  What the read loop does to the bytes it reads is the theory of the stream reads.
\<close>

section \<open>State\<close>

text \<open>
  Where the read goroutine is: before \<open>onConnect\<close>, in its loop, and in its deferred calls
  (\<open>wg.Done\<close> runs first, then \<open>close(closeCh)\<close>, then \<open>onDisconnect\<close>).
\<close>

datatype rd_pc = RdConnect | RdLoop | RdDone | RdCloseCh | RdDisconnect | RdExit

text \<open>
  Where the write goroutine is: in the blocking \<open>select\<close> of \<open>waitMsg\<close>, in its non-blocking loop
  with the bytes collected so far and whether the close channel woke it, in \<open>write\<close> with the
  bytes still to write, and in its deferred calls.
\<close>

datatype wr_pc =
    WrWait
  | WrDrain bytes bool
  | WrWrite bytes bool
  | WrDone
  | WrConnClose
  | WrRelease
  | WrExit

text \<open>
  \<open>ts_wire\<close>, \<open>ts_lost\<close> and \<open>ts_accepted\<close> are history: the bytes the connection took, the bytes a
  failed write dropped, and the messages \<open>SendMsg\<close> accepted. The counters say how often
  \<open>onDisconnect\<close> and \<open>releaseFn\<close> ran.
\<close>

record tcp_socket =
  ts_rd :: rd_pc
  ts_wr :: wr_pc
  ts_writeCh :: "bytes list"
  ts_closeCh :: bool
  ts_wg :: int
  ts_readShut :: bool
  ts_connClosed :: bool
  ts_writeErr :: "go_error option"
  ts_panic :: "go_panic option"
  ts_disconnects :: nat
  ts_releases :: nat
  ts_wire :: bytes
  ts_lost :: bytes
  ts_accepted :: "bytes list"

definition newTCPSocket :: tcp_socket where
  "newTCPSocket =
     \<lparr>ts_rd = RdConnect, ts_wr = WrWait, ts_writeCh = [], ts_closeCh = False, ts_wg = 2,
      ts_readShut = False, ts_connClosed = False, ts_writeErr = None, ts_panic = None,
      ts_disconnects = 0, ts_releases = 0, ts_wire = [], ts_lost = [], ts_accepted = []\<rparr>"

section \<open>Operations\<close>

definition tcp_SendMsg :: "tcp_socket \<Rightarrow> bytes \<Rightarrow> (go_error option \<times> tcp_socket) list" where
  "tcp_SendMsg s m =
     map (\<lambda>(r, ch). (r, s\<lparr>ts_writeCh := ch,
            ts_accepted := ts_accepted s @ (if r = None then [m] else [])\<rparr>))
       (select_send writeChanLimit SockAlreadyClose MsgOverflow (ts_writeCh s) (ts_closeCh s) m)"

text \<open>\<open>Close\<close> shuts the read side down and returns once the wait group is empty.\<close>

definition tcp_CloseRead :: "tcp_socket \<Rightarrow> tcp_socket" where
  "tcp_CloseRead s = s\<lparr>ts_readShut := True\<rparr>"

definition tcp_Close_returns :: "tcp_socket \<Rightarrow> bool" where
  "tcp_Close_returns s \<longleftrightarrow> ts_readShut s \<and> ts_wg s = 0"

text \<open>\<open>sync.WaitGroup.Done\<close> panics below zero, \<open>close\<close> of a closed channel panics.\<close>

definition tcp_wg_Done :: "tcp_socket \<Rightarrow> tcp_socket" where
  "tcp_wg_Done s = (if ts_wg s \<le> 0 then s\<lparr>ts_panic := Some NegativeWaitGroup\<rparr>
                    else s\<lparr>ts_wg := ts_wg s - 1\<rparr>)"

definition tcp_close_closeCh :: "tcp_socket \<Rightarrow> tcp_socket" where
  "tcp_close_closeCh s = (if ts_closeCh s then s\<lparr>ts_panic := Some CloseOfClosed\<rparr>
                          else s\<lparr>ts_closeCh := True\<rparr>)"

lemma tcp_wg_Done_frame [simp]:
  "ts_rd (tcp_wg_Done s) = ts_rd s" "ts_wr (tcp_wg_Done s) = ts_wr s"
  "ts_writeErr (tcp_wg_Done s) = ts_writeErr s" "ts_accepted (tcp_wg_Done s) = ts_accepted s"
  "ts_readShut (tcp_wg_Done s) = ts_readShut s" "ts_writeCh (tcp_wg_Done s) = ts_writeCh s"
  "ts_wire (tcp_wg_Done s) = ts_wire s"
  by (simp_all add: tcp_wg_Done_def)

lemma tcp_close_closeCh_frame [simp]:
  "ts_rd (tcp_close_closeCh s) = ts_rd s" "ts_wr (tcp_close_closeCh s) = ts_wr s"
  "ts_writeErr (tcp_close_closeCh s) = ts_writeErr s" "ts_accepted (tcp_close_closeCh s) = ts_accepted s"
  "ts_readShut (tcp_close_closeCh s) = ts_readShut s" "ts_writeCh (tcp_close_closeCh s) = ts_writeCh s"
  by (simp_all add: tcp_close_closeCh_def)

section \<open>The goroutines\<close>

inductive tcp_read_step :: "tcp_socket \<Rightarrow> tcp_socket \<Rightarrow> bool" where
  rd_connect: "ts_rd s = RdConnect \<Longrightarrow> tcp_read_step s (s\<lparr>ts_rd := RdLoop\<rparr>)"
| rd_chunk: "ts_rd s = RdLoop \<Longrightarrow> tcp_read_step s s"
| rd_end: "ts_rd s = RdLoop \<Longrightarrow> tcp_read_step s (s\<lparr>ts_rd := RdDone\<rparr>)"
| rd_wg: "ts_rd s = RdDone \<Longrightarrow> tcp_read_step s (tcp_wg_Done (s\<lparr>ts_rd := RdCloseCh\<rparr>))"
| rd_close: "ts_rd s = RdCloseCh \<Longrightarrow> tcp_read_step s (tcp_close_closeCh (s\<lparr>ts_rd := RdDisconnect\<rparr>))"
| rd_disconnect: "ts_rd s = RdDisconnect \<Longrightarrow>
    tcp_read_step s (s\<lparr>ts_rd := RdExit, ts_disconnects := ts_disconnects s + 1\<rparr>)"

text \<open>
  \<open>wr_write\<close> is a \<open>conn.Write\<close> that took \<open>n\<close> bytes without an error, \<open>wr_write_err\<close> one that took
  \<open>n\<close> and failed (also a failing \<open>SetWriteDeadline\<close>, with \<open>n = 0\<close>).
\<close>

inductive tcp_write_step :: "tcp_socket \<Rightarrow> tcp_socket \<Rightarrow> bool" where
  wr_data: "ts_wr s = WrWait \<Longrightarrow> ts_writeCh s = d # q \<Longrightarrow>
    tcp_write_step s (s\<lparr>ts_wr := WrDrain d False, ts_writeCh := q\<rparr>)"
| wr_closed: "ts_wr s = WrWait \<Longrightarrow> ts_closeCh s \<Longrightarrow>
    tcp_write_step s (s\<lparr>ts_wr := WrDrain [] True\<rparr>)"
| wr_more: "ts_wr s = WrDrain msg ret \<Longrightarrow> ts_writeCh s = d # q \<Longrightarrow>
    tcp_write_step s (s\<lparr>ts_wr := WrDrain (msg @ d) ret, ts_writeCh := q\<rparr>)"
| wr_drained: "ts_wr s = WrDrain msg ret \<Longrightarrow> ts_writeCh s = [] \<Longrightarrow>
    tcp_write_step s (s\<lparr>ts_wr := (if length msg = 0 then WrDone else WrWrite msg ret)\<rparr>)"
| wr_write: "ts_wr s = WrWrite msg ret \<Longrightarrow> n \<le> length msg \<Longrightarrow>
    tcp_write_step s (s\<lparr>ts_wire := ts_wire s @ take n msg,
      ts_wr := (if length msg \<le> n then (if ret then WrDone else WrWait) else WrWrite (drop n msg) ret)\<rparr>)"
| wr_write_err: "ts_wr s = WrWrite msg ret \<Longrightarrow> n \<le> length msg \<Longrightarrow>
    tcp_write_step s (s\<lparr>ts_wire := ts_wire s @ take n msg, ts_lost := drop n msg,
      ts_writeErr := Some err, ts_wr := WrDone\<rparr>)"
| wr_wg: "ts_wr s = WrDone \<Longrightarrow> tcp_write_step s (tcp_wg_Done (s\<lparr>ts_wr := WrConnClose\<rparr>))"
| wr_conn_close: "ts_wr s = WrConnClose \<Longrightarrow>
    tcp_write_step s (s\<lparr>ts_wr := WrRelease, ts_connClosed := True\<rparr>)"
| wr_release: "ts_wr s = WrRelease \<Longrightarrow>
    tcp_write_step s (s\<lparr>ts_wr := WrExit, ts_releases := ts_releases s + 1\<rparr>)"

text \<open>All steps: the two goroutines, any caller of \<open>SendMsg\<close> and of \<open>Close\<close>.\<close>

inductive tcp_step :: "tcp_socket \<Rightarrow> tcp_socket \<Rightarrow> bool" where
  step_read: "tcp_read_step s t \<Longrightarrow> tcp_step s t"
| step_write: "tcp_write_step s t \<Longrightarrow> tcp_step s t"
| step_send: "(r, t) \<in> set (tcp_SendMsg s m) \<Longrightarrow> tcp_step s t"
| step_close: "tcp_step s (tcp_CloseRead s)"

definition tcp_init :: "tcp_socket \<Rightarrow> bool" where
  "tcp_init s \<longleftrightarrow> s = newTCPSocket"

interpretation tcp_port: send_port ts_writeCh ts_closeCh writeChanLimit SockAlreadyClose MsgOverflow
    "\<lambda>s m. m" tcp_SendMsg
  by unfold_locales (auto simp: tcp_SendMsg_def in_select_send, force simp: in_select_send)

section \<open>Invariant\<close>

text \<open>The bytes the writer holds, and whether the close channel has woken it.\<close>

fun wr_pending :: "wr_pc \<Rightarrow> bytes" where
  "wr_pending (WrDrain msg ret) = msg"
| "wr_pending (WrWrite msg ret) = msg"
| "wr_pending _ = []"

fun wr_woken :: "wr_pc \<Rightarrow> bool" where
  "wr_woken (WrDrain msg ret) = ret"
| "wr_woken (WrWrite msg ret) = ret"
| "wr_woken _ = False"

fun wr_left :: "wr_pc \<Rightarrow> bool" where
  "wr_left WrWait = False"
| "wr_left (WrDrain msg ret) = False"
| "wr_left (WrWrite msg ret) = False"
| "wr_left _ = True"

text \<open>Whether a goroutine still counts in the wait group.\<close>

fun wr_active :: "wr_pc \<Rightarrow> bool" where
  "wr_active WrConnClose = False"
| "wr_active WrRelease = False"
| "wr_active WrExit = False"
| "wr_active _ = True"

fun rd_active :: "rd_pc \<Rightarrow> bool" where
  "rd_active RdConnect = True"
| "rd_active RdLoop = True"
| "rd_active RdDone = True"
| "rd_active _ = False"

text \<open>The bytes: what was accepted is on the wire, lost by a failed write, held, or queued.\<close>

definition tcp_bytes_inv :: "tcp_socket \<Rightarrow> bool" where
  "tcp_bytes_inv s \<longleftrightarrow>
     ts_wire s @ ts_lost s @ wr_pending (ts_wr s) @ concat (ts_writeCh s) = concat (ts_accepted s)
     \<and> (ts_writeErr s = None \<longrightarrow> ts_lost s = [])
     \<and> (ts_writeErr s \<noteq> None \<longrightarrow> wr_left (ts_wr s))
     \<and> length (ts_writeCh s) \<le> writeChanLimit"

text \<open>The shut down: who has left, and what that did, exactly once.\<close>

definition tcp_control_inv :: "tcp_socket \<Rightarrow> bool" where
  "tcp_control_inv s \<longleftrightarrow>
     ts_panic s = None
     \<and> ts_wg s = (if rd_active (ts_rd s) then 1 else 0) + (if wr_active (ts_wr s) then 1 else 0)
     \<and> (ts_closeCh s \<longleftrightarrow> ts_rd s = RdDisconnect \<or> ts_rd s = RdExit)
     \<and> (wr_woken (ts_wr s) \<longrightarrow> ts_closeCh s)
     \<and> (ts_connClosed s \<longleftrightarrow> ts_wr s = WrRelease \<or> ts_wr s = WrExit)
     \<and> ts_disconnects s = (if ts_rd s = RdExit then 1 else 0)
     \<and> ts_releases s = (if ts_wr s = WrExit then 1 else 0)"

definition tcp_inv :: "tcp_socket \<Rightarrow> bool" where
  "tcp_inv s \<longleftrightarrow> tcp_bytes_inv s \<and> tcp_control_inv s"

lemmas tcp_ops = tcp_wg_Done_def tcp_close_closeCh_def tcp_CloseRead_def

lemma tcp_read_step_bytes: "tcp_read_step s t \<Longrightarrow> tcp_bytes_inv s \<Longrightarrow> tcp_bytes_inv t"
  by (induction rule: tcp_read_step.induct) (simp_all add: tcp_bytes_inv_def tcp_ops)

lemma tcp_read_step_control: "tcp_read_step s t \<Longrightarrow> tcp_control_inv s \<Longrightarrow> tcp_control_inv t"
  by (induction rule: tcp_read_step.induct) (auto simp: tcp_control_inv_def tcp_ops)

lemma tcp_write_step_bytes: "tcp_write_step s t \<Longrightarrow> tcp_bytes_inv s \<Longrightarrow> tcp_bytes_inv t"
  by (induction rule: tcp_write_step.induct)
    (auto simp: tcp_bytes_inv_def tcp_ops)

lemma tcp_write_step_control: "tcp_write_step s t \<Longrightarrow> tcp_control_inv s \<Longrightarrow> tcp_control_inv t"
  by (induction rule: tcp_write_step.induct)
    (auto simp: tcp_control_inv_def tcp_ops)

text \<open>What the callers change leaves the control fields alone.\<close>

lemma tcp_control_frame [simp]:
  "tcp_control_inv (s\<lparr>ts_writeCh := q\<rparr>) = tcp_control_inv s"
  "tcp_control_inv (s\<lparr>ts_accepted := acc\<rparr>) = tcp_control_inv s"
  "tcp_control_inv (s\<lparr>ts_readShut := b\<rparr>) = tcp_control_inv s"
  "tcp_bytes_inv (s\<lparr>ts_readShut := b\<rparr>) = tcp_bytes_inv s"
  by (simp_all add: tcp_control_inv_def tcp_bytes_inv_def)

lemma tcp_SendMsg_inv: "(r, t) \<in> set (tcp_SendMsg s m) \<Longrightarrow> tcp_inv s \<Longrightarrow> tcp_inv t"
  by (auto simp: tcp_SendMsg_def in_select_send tcp_inv_def)
    (simp_all add: tcp_bytes_inv_def flip: append_assoc)

interpretation tcp_sys: inductive_invariant tcp_init tcp_step tcp_inv
proof
  show "tcp_inv s" if "tcp_init s" for s
    using that by (simp add: tcp_init_def newTCPSocket_def tcp_inv_def tcp_bytes_inv_def tcp_control_inv_def)
  show "tcp_inv t" if "tcp_inv s" "tcp_step s t" for s t
    using that(2,1)
  proof (induction rule: tcp_step.induct)
    case (step_write s t)
    then show ?case by (simp add: tcp_inv_def tcp_write_step_bytes tcp_write_step_control)
  next
    case (step_read s t)
    then show ?case by (simp add: tcp_inv_def tcp_read_step_bytes tcp_read_step_control)
  next
    case (step_close s)
    then show ?case
      by (simp add: tcp_inv_def tcp_ops)
  qed (rule tcp_SendMsg_inv)
qed

section \<open>The shut down ends\<close>

text \<open>
  The socket's own steps once \<open>Close\<close> has shut the read side down: the read loop ends at the end
  of file it now meets, and the connection takes the bytes of every write.
\<close>

inductive tcp_closing_step :: "tcp_socket \<Rightarrow> tcp_socket \<Rightarrow> bool" where
  closing_read: "tcp_read_step s t \<Longrightarrow> t \<noteq> s \<Longrightarrow> tcp_closing_step s t"
| closing_write: "tcp_write_step s t \<Longrightarrow> ts_writeErr t = ts_writeErr s \<Longrightarrow>
    (\<And>msg ret. ts_wr s = WrWrite msg ret \<Longrightarrow> ts_wire t = ts_wire s @ msg) \<Longrightarrow> tcp_closing_step s t"

fun rd_rank :: "rd_pc \<Rightarrow> nat" where
  "rd_rank RdConnect = 5"
| "rd_rank RdLoop = 4"
| "rd_rank RdDone = 3"
| "rd_rank RdCloseCh = 2"
| "rd_rank RdDisconnect = 1"
| "rd_rank RdExit = 0"

fun wr_rank :: "wr_pc \<Rightarrow> nat \<Rightarrow> nat" where
  "wr_rank WrWait q = 6 * q + 6"
| "wr_rank (WrDrain msg ret) q = 6 * q + (if ret then 5 else 8)"
| "wr_rank (WrWrite msg ret) q = (if ret then 4 else 6 * q + 7)"
| "wr_rank WrDone q = 3"
| "wr_rank WrConnClose q = 2"
| "wr_rank WrRelease q = 1"
| "wr_rank WrExit q = 0"

definition tcp_rank :: "tcp_socket \<Rightarrow> nat" where
  "tcp_rank s = rd_rank (ts_rd s) + wr_rank (ts_wr s) (length (ts_writeCh s))"

text \<open>
  From a writer that has not yet drained for the last time, the queue is empty when it leaves.
\<close>

fun wr_last :: "wr_pc \<Rightarrow> bool" where
  "wr_last WrWait = False"
| "wr_last (WrDrain msg ret) = False"
| "wr_last (WrWrite msg ret) = ret"
| "wr_last _ = True"

definition tcp_flushing :: "bytes list \<Rightarrow> tcp_socket \<Rightarrow> bool" where
  "tcp_flushing acc s \<longleftrightarrow> ts_accepted s = acc \<and> ts_writeErr s = None
     \<and> (wr_last (ts_wr s) \<longrightarrow> ts_writeCh s = [])"

lemma closing_step_sys: "tcp_closing_step s t \<Longrightarrow> tcp_step s t"
  by (auto elim: tcp_closing_step.cases intro: tcp_step.intros)

lemma closing_step_inv: "tcp_closing_step s t \<Longrightarrow> tcp_inv s \<Longrightarrow> tcp_inv t"
  by (auto intro: tcp_sys.inv_step closing_step_sys)

lemma read_step_rank: "tcp_read_step s t \<Longrightarrow> t \<noteq> s \<Longrightarrow> tcp_rank t < tcp_rank s"
  by (induction rule: tcp_read_step.induct) (auto simp: tcp_rank_def tcp_ops)

lemma closing_step_rank: "tcp_closing_step s t \<Longrightarrow> tcp_inv s \<Longrightarrow> tcp_rank t < tcp_rank s"
proof (induction rule: tcp_closing_step.induct)
  case (closing_read s t)
  then show ?case by (simp add: read_step_rank)
next
  case (closing_write s t)
  then show ?case
    by (cases rule: tcp_write_step.cases) (auto simp: tcp_rank_def tcp_ops tcp_inv_def tcp_bytes_inv_def)
qed

lemma closing_step_flushing: "tcp_closing_step s t \<Longrightarrow> tcp_flushing acc s \<Longrightarrow> tcp_flushing acc t"
proof (induction rule: tcp_closing_step.induct)
  case (closing_read s t)
  then show ?case by (cases rule: tcp_read_step.cases) (auto simp: tcp_flushing_def tcp_ops)
next
  case (closing_write s t)
  then show ?case by (cases rule: tcp_write_step.cases) (auto simp: tcp_flushing_def tcp_ops)
qed

lemma read_enabled:
  assumes "ts_rd s \<noteq> RdExit"
  shows "\<exists>t. tcp_read_step s t \<and> t \<noteq> s"
proof -
  have move: "\<exists>t. tcp_read_step s t \<and> t \<noteq> s" if "tcp_read_step s t" "ts_rd t \<noteq> ts_rd s" for t
    using that by metis
  show ?thesis
  proof (cases "ts_rd s")
    case RdConnect
    then show ?thesis by (intro move [OF rd_connect]) simp_all
  next
    case RdLoop
    then show ?thesis by (intro move [OF rd_end]) simp_all
  next
    case RdDone
    then show ?thesis by (intro move [OF rd_wg]) simp_all
  next
    case RdCloseCh
    then show ?thesis by (intro move [OF rd_close]) simp_all
  next
    case RdDisconnect
    then show ?thesis by (intro move [OF rd_disconnect]) simp_all
  qed (use assms in simp)
qed

lemma closing_enabled_read: "ts_rd s \<noteq> RdExit \<Longrightarrow> \<exists>t. tcp_closing_step s t"
  using read_enabled [of s] by (blast intro: closing_read)

lemma closing_enabled_write:
  assumes inv: "tcp_inv s" and left: "ts_rd s = RdExit" and more: "ts_wr s \<noteq> WrExit"
  shows "\<exists>t. tcp_closing_step s t"
proof -
  have move: "\<exists>t. tcp_closing_step s t" if "tcp_write_step s t" "ts_writeErr t = ts_writeErr s"
    "\<And>msg ret. ts_wr s = WrWrite msg ret \<Longrightarrow> ts_wire t = ts_wire s @ msg" for t
    using that closing_write by metis
  show ?thesis
  proof (cases "ts_wr s")
    case WrWait
    moreover have "ts_closeCh s"
      using inv left by (simp add: tcp_inv_def tcp_control_inv_def)
    ultimately show ?thesis by (intro move [OF wr_closed]) simp_all
  next
    case (WrDrain msg ret)
    then show ?thesis
      using move [OF wr_drained [of s msg ret]] move [OF wr_more [of s msg ret]]
      by (cases "ts_writeCh s") auto
  next
    case (WrWrite msg ret)
    then show ?thesis by (auto intro: move [OF wr_write [where n = "length msg"]])
  next
    case WrDone
    then show ?thesis by (intro move [OF wr_wg]) simp_all
  next
    case WrConnClose
    then show ?thesis by (intro move [OF wr_conn_close]) simp_all
  next
    case WrRelease
    then show ?thesis by (intro move [OF wr_release]) simp_all
  qed (use more in simp)
qed

lemma tcp_rank_0: "tcp_rank s = 0 \<longleftrightarrow> ts_rd s = RdExit \<and> ts_wr s = WrExit"
  by (cases "ts_rd s"; cases "ts_wr s") (simp_all add: tcp_rank_def)

interpretation tcp_closing: progress_measure "\<lambda>s. tcp_inv s" tcp_closing_step "\<lambda>s. tcp_inv s"
    tcp_closing_step tcp_rank
proof
  show "\<exists>t. tcp_closing_step s t" if "tcp_inv s" "0 < tcp_rank s" for s
    using that closing_enabled_read closing_enabled_write tcp_rank_0 by (metis less_irrefl)
qed (auto intro: closing_step_inv closing_step_rank)

lemma closing_steps_flushing: "steps tcp_closing_step s t \<Longrightarrow> tcp_flushing acc s \<Longrightarrow> tcp_flushing acc t"
  by (induction rule: steps.induct) (auto intro: closing_step_flushing)

lemma closing_steps_accepted: "steps tcp_closing_step s t \<Longrightarrow> ts_accepted t = ts_accepted s \<and> ts_readShut t = ts_readShut s"
proof (induction rule: steps.induct)
  case (steps_trans s t u)
  from steps_trans.hyps(1) have "ts_accepted t = ts_accepted s \<and> ts_readShut t = ts_readShut s"
    by (auto elim!: tcp_closing_step.cases tcp_read_step.cases tcp_write_step.cases)
  with steps_trans.IH show ?case by simp
qed simp

section \<open>Some runs\<close>

lemma tcp_reach_running: "reachable tcp_init tcp_step (newTCPSocket\<lparr>ts_rd := RdLoop\<rparr>)"
proof (rule reach_step)
  show "reachable tcp_init tcp_step newTCPSocket"
    by (rule reach_init) (simp add: tcp_init_def)
  show "tcp_step newTCPSocket (newTCPSocket\<lparr>ts_rd := RdLoop\<rparr>)"
    by (intro step_read rd_connect) (simp add: newTCPSocket_def)
qed

lemma tcp_reach_send:
  "reachable tcp_init tcp_step s \<Longrightarrow> length (ts_writeCh s) < writeChanLimit \<Longrightarrow>
   reachable tcp_init tcp_step
     (s\<lparr>ts_writeCh := ts_writeCh s @ [m], ts_accepted := ts_accepted s @ [m]\<rparr>)"
  by (erule reach_step, rule step_send [where r = None and m = m])
    (simp add: tcp_SendMsg_def image_iff in_select_send Bex_def)

text \<open>A running socket that accepted one message.\<close>

definition tcp_one :: "bytes \<Rightarrow> tcp_socket" where
  "tcp_one m = newTCPSocket\<lparr>ts_rd := RdLoop, ts_writeCh := [m], ts_accepted := [m]\<rparr>"

lemma tcp_reach_one: "reachable tcp_init tcp_step (tcp_one m)"
  using tcp_reach_send [OF tcp_reach_running, of m]
  by (simp add: tcp_one_def newTCPSocket_def writeChanLimit_def)

lemma tcp_one_simps [simp]:
  "ts_wr (tcp_one m) = WrWait" "ts_writeCh (tcp_one m) = [m]" "ts_rd (tcp_one m) = RdLoop"
  "ts_writeErr (tcp_one m) = None" "ts_accepted (tcp_one m) = [m]" "ts_wire (tcp_one m) = []"
  "ts_lost (tcp_one m) = []"
  by (simp_all add: tcp_one_def newTCPSocket_def)

section \<open>Properties\<close>

text \<open>C22.
  At any time the bytes the connection has taken, those a failed write lost, those the writer holds and
  those in the channel are together the messages \<open>SendMsg\<close> accepted, in the order it accepted them;
  bytes are lost only after a write error, and the channel holds at most 200 messages.
\<close>

theorem tcp_bytes_in_order:
  assumes "reachable tcp_init tcp_step s"
  shows "ts_wire s @ ts_lost s @ wr_pending (ts_wr s) @ concat (ts_writeCh s) = concat (ts_accepted s)
    \<and> (ts_lost s = [] \<or> ts_writeErr s \<noteq> None) \<and> length (ts_writeCh s) \<le> 200"
  using tcp_sys.inv_reachable [OF assms]
  by (auto simp: tcp_inv_def tcp_bytes_inv_def writeChanLimit_def)

theorem tcp_bytes_in_order_witness:
  "\<exists>s :: tcp_socket. ts_accepted s = [[1, 2]] \<and> ts_wire s @ ts_lost s @ wr_pending (ts_wr s) @ concat (ts_writeCh s) = [1, 2]"
proof (intro exI)
  show "ts_accepted (tcp_one [1, 2]) = [[1, 2]] \<and> ts_wire (tcp_one [1, 2]) @ ts_lost (tcp_one [1, 2]) @
      wr_pending (ts_wr (tcp_one [1, 2])) @ concat (ts_writeCh (tcp_one [1, 2])) = [1, 2]"
    using tcp_bytes_in_order [OF tcp_reach_one [of "[1, 2]"]] by simp
qed

text \<open>
  The two goroutines never close the close channel twice nor take the wait group below zero;
  \<open>onDisconnect\<close> and \<open>releaseFn\<close> run at most once; the connection is closed by the write loop after its
  last write only, and \<open>Close\<close> returns only after both loops have ended.
\<close>

theorem tcp_shutdown_once:
  assumes "reachable tcp_init tcp_step s"
  shows "ts_panic s = None \<and> 0 \<le> ts_wg s \<and> ts_disconnects s \<le> 1 \<and> ts_releases s \<le> 1
    \<and> (ts_connClosed s \<longrightarrow> wr_left (ts_wr s))
    \<and> (tcp_Close_returns s \<longrightarrow> \<not> rd_active (ts_rd s) \<and> \<not> wr_active (ts_wr s))"
  using tcp_sys.inv_reachable [OF assms]
  by (auto simp: tcp_inv_def tcp_control_inv_def tcp_Close_returns_def split: if_splits)

theorem tcp_shutdown_once_witness:
  "ts_panic (tcp_one [1]) = None \<and> 0 \<le> ts_wg (tcp_one [1]) \<and> ts_disconnects (tcp_one [1]) \<le> 1"
  using tcp_shutdown_once [OF tcp_reach_one [of "[1]"]] by simp

text \<open>C21.
  \<open>Close\<close> terminates and flushes: from any reachable state in which no write has failed and the write loop has not
  begun to leave, after closing every run of the two loops without further sends or errors, in whatever order they are
  scheduled, is finite and ends in a state in which \<open>Close\<close> returns, \<open>onDisconnect\<close> and \<open>releaseFn\<close> have run once, and
  every accepted byte is on the wire.
\<close>

theorem tcp_close_flushes:
  assumes "reachable tcp_init tcp_step s" and "ts_writeErr s = None" and "\<not> wr_last (ts_wr s)"
  shows "runs_end tcp_closing_step (\<lambda>t. tcp_Close_returns t \<and> ts_connClosed t \<and> ts_disconnects t = 1
    \<and> ts_releases t = 1 \<and> ts_wire t = concat (ts_accepted s)) (tcp_CloseRead s)"
proof (rule tcp_closing.every_run_ends)
  let ?s = "tcp_CloseRead s"
  have "reachable tcp_init tcp_step ?s"
    by (rule reach_step [OF assms(1) step_close])
  then show "tcp_inv ?s" by (rule tcp_sys.inv_reachable)
  fix t assume t: "steps tcp_closing_step ?s t" "tcp_inv t" "tcp_rank t = 0"
  have "tcp_flushing (ts_accepted s) ?s"
    using assms(2,3) by (simp add: tcp_flushing_def tcp_ops)
  with t(1) have flushed: "tcp_flushing (ts_accepted s) t" by (rule closing_steps_flushing)
  have left: "ts_rd t = RdExit" "ts_wr t = WrExit" using t(3) by (simp_all add: tcp_rank_0)
  have "ts_readShut t"
    using closing_steps_accepted [OF t(1)] by (simp add: tcp_ops)
  moreover have "ts_wire t = concat (ts_accepted s)"
    using flushed left t(2) by (auto simp: tcp_flushing_def tcp_inv_def tcp_bytes_inv_def)
  moreover have "ts_wg t = 0 \<and> ts_connClosed t \<and> ts_disconnects t = 1 \<and> ts_releases t = 1"
    using left t(2) by (simp add: tcp_inv_def tcp_control_inv_def)
  ultimately show "tcp_Close_returns t \<and> ts_connClosed t \<and> ts_disconnects t = 1 \<and> ts_releases t = 1
      \<and> ts_wire t = concat (ts_accepted s)"
    unfolding tcp_Close_returns_def by simp
qed

theorem tcp_close_flushes_witness:
  "\<exists>t. steps tcp_closing_step (tcp_CloseRead (tcp_one [4, 5])) t \<and> tcp_Close_returns t \<and> ts_wire t = [4, 5]"
  using runs_end_reaches [OF tcp_close_flushes [OF tcp_reach_one [of "[4, 5]"]]] by auto

text \<open>
  An empty message ends the connection: the write loop takes it for the end and closes the connection,
  while the read loop still runs and the close channel is open, so later calls of \<open>SendMsg\<close> return no
  error for messages nobody will send.
\<close>

theorem tcp_empty_message_closes:
  assumes "reachable tcp_init tcp_step s" and "ts_wr s = WrWait" and "ts_writeCh s = [[]]"
    and "ts_rd s = RdLoop"
  shows "\<exists>t. steps tcp_write_step s t \<and> ts_connClosed t \<and> ts_wire t = ts_wire s \<and> \<not> ts_closeCh t
    \<and> (\<exists>u. (None, u) \<in> set (tcp_SendMsg t m))"
proof -
  from tcp_sys.inv_reachable [OF assms(1)] assms
  have open_ch: "\<not> ts_closeCh s" and wg: "ts_wg s = 2"
    by (simp_all add: tcp_inv_def tcp_control_inv_def)
  define s1 where "s1 = s\<lparr>ts_wr := WrDrain [] False, ts_writeCh := []\<rparr>"
  define s2 where "s2 = s1\<lparr>ts_wr := WrDone\<rparr>"
  define s3 where "s3 = s2\<lparr>ts_wr := WrConnClose, ts_wg := 1\<rparr>"
  define t where "t = s3\<lparr>ts_wr := WrRelease, ts_connClosed := True\<rparr>"
  have "tcp_write_step s s1" using wr_data [OF assms(2,3)] by (simp add: s1_def)
  moreover have "tcp_write_step s1 s2" using wr_drained [of s1 "[]" False] by (simp add: s1_def s2_def)
  moreover have "tcp_write_step s2 s3"
    using wr_wg [of s2] wg by (simp add: s1_def s2_def s3_def tcp_ops)
  moreover have "tcp_write_step s3 t" using wr_conn_close [of s3] by (simp add: s3_def t_def)
  ultimately have "steps tcp_write_step s t" by (blast intro: steps.intros)
  moreover have "ts_connClosed t \<and> ts_wire t = ts_wire s \<and> \<not> ts_closeCh t"
    using open_ch by (simp add: t_def s3_def s2_def s1_def)
  moreover have "\<exists>u. (None, u) \<in> set (tcp_SendMsg t m)"
    by (rule tcp_port.room) (simp add: t_def s3_def s2_def s1_def writeChanLimit_def)
  ultimately show ?thesis by blast
qed

theorem tcp_empty_message_closes_witness:
  "\<exists>t. steps tcp_write_step (tcp_one []) t \<and> ts_connClosed t \<and> \<not> ts_closeCh t"
  using tcp_empty_message_closes [OF tcp_reach_one [of "[]"], of "[3]"] by auto

text \<open>Once the writer has left nothing more goes to the wire.\<close>

lemma tcp_left_step: "tcp_step s t \<Longrightarrow> wr_left (ts_wr s) \<Longrightarrow> wr_left (ts_wr t) \<and> ts_wire t = ts_wire s"
proof (induction rule: tcp_step.induct)
  case (step_read s t)
  then show ?case by (auto elim!: tcp_read_step.cases simp: tcp_ops)
next
  case (step_write s t)
  then show ?case by (auto elim!: tcp_write_step.cases)
qed (auto simp: tcp_SendMsg_def tcp_CloseRead_def)

lemma tcp_left_steps: "steps tcp_step s t \<Longrightarrow> wr_left (ts_wr s) \<Longrightarrow> ts_wire t = ts_wire s"
  by (induction rule: steps.induct) (auto dest: tcp_left_step)

text \<open>
  A send to a closed socket can be lost without an error: when the close channel is closed and the channel has room both
  cases of the \<open>select\<close> are ready, so \<open>SendMsg\<close> returns either the error or nil, and once the
  write loop has left, a message taken with nil never reaches the wire, whatever happens.
\<close>

theorem tcp_send_after_close_lost:
  assumes "ts_closeCh s" and "wr_left (ts_wr s)" and "length (ts_writeCh s) < 200"
  shows "(Some SockAlreadyClose, s) \<in> set (tcp_SendMsg s m)
    \<and> (\<exists>t. (None, t) \<in> set (tcp_SendMsg s m) \<and> ts_accepted t = ts_accepted s @ [m]
         \<and> (\<forall>u. steps tcp_step t u \<longrightarrow> ts_wire u = ts_wire s))"
proof
  show "(Some SockAlreadyClose, s) \<in> set (tcp_SendMsg s m)"
    using assms(1) by (cases s) (simp add: tcp_SendMsg_def image_iff in_select_send Bex_def)
  let ?t = "s\<lparr>ts_writeCh := ts_writeCh s @ [m], ts_accepted := ts_accepted s @ [m]\<rparr>"
  have "(None, ?t) \<in> set (tcp_SendMsg s m)"
    using assms(3) by (simp add: tcp_SendMsg_def image_iff in_select_send Bex_def writeChanLimit_def)
  moreover have "ts_wire u = ts_wire s" if "steps tcp_step ?t u" for u
    using tcp_left_steps [OF that] assms(2) by simp
  ultimately show "\<exists>t. (None, t) \<in> set (tcp_SendMsg s m) \<and> ts_accepted t = ts_accepted s @ [m]
      \<and> (\<forall>u. steps tcp_step t u \<longrightarrow> ts_wire u = ts_wire s)"
    by (intro exI [of _ ?t]) simp
qed

theorem tcp_send_after_close_lost_witness:
  "\<exists>s t. reachable tcp_init tcp_step s \<and> tcp_Close_returns s \<and> (None, t) \<in> set (tcp_SendMsg s [7])
    \<and> (\<forall>u. steps tcp_step t u \<longrightarrow> ts_wire u = ts_wire s)"
proof -
  let ?s = "tcp_CloseRead (tcp_one [4])"
  have r: "reachable tcp_init tcp_step ?s" by (rule reach_step [OF tcp_reach_one step_close])
  obtain t where t: "steps tcp_closing_step ?s t" "tcp_rank t = 0" "tcp_inv t"
    using tcp_closing.reaches_goal tcp_sys.inv_reachable [OF r] by blast
  have left: "ts_rd t = RdExit" "ts_wr t = WrExit" using t(2) by (simp_all add: tcp_rank_0)
  have "tcp_flushing [[4]] ?s" by (simp add: tcp_flushing_def tcp_CloseRead_def)
  then have "ts_writeCh t = []" using closing_steps_flushing [OF t(1)] left by (simp add: tcp_flushing_def)
  moreover have "ts_closeCh t" "ts_wg t = 0" using t(3) left by (simp_all add: tcp_inv_def tcp_control_inv_def)
  moreover have "ts_readShut t" using closing_steps_accepted [OF t(1)] by (simp add: tcp_CloseRead_def)
  moreover have "steps tcp_step ?s t" using t(1) by (induction rule: steps.induct) (auto intro: steps.intros closing_step_sys)
  ultimately have "tcp_Close_returns t" "reachable tcp_init tcp_step t" and pre: "ts_closeCh t" "ts_writeCh t = []"
    using reachable_steps [OF _ r] by (auto simp: tcp_Close_returns_def)
  moreover obtain u where "(None, u) \<in> set (tcp_SendMsg t [7])" "\<forall>v. steps tcp_step u v \<longrightarrow> ts_wire v = ts_wire t"
    using tcp_send_after_close_lost [of t "[7]"] pre left by auto
  ultimately show ?thesis by blast
qed

end
