(* ===== verification/Tcp_Server.thy ===== *)
theory Tcp_Server
  imports Tcp_Socket
begin

text \<open>
  The TCP server of \<open>pkg/xnet/tcp_server.go\<close>: the accept goroutine, the table of sockets, which is guarded by a
  mutex, and \<open>Close\<close>, over the sockets of \<open>Tcp_Socket\<close>, which live at addresses of a store. A socket's
  \<open>releaseFn\<close> is the server's \<open>delSocket\<close>.
\<close>

section \<open>State\<close>

text \<open>
  \<open>accept\<close>: in \<open>AcceptTCP\<close>, at the test of the close channel (with or without a connection), at
  \<open>newTCPSocket\<close>, at \<open>addSocket\<close>, gone.
\<close>

datatype tac_pc = TaAccept | TaCheck bool | TaNew | TaAdd nat | TaExit

text \<open>\<open>Close\<close>; it holds the mutex in the two states with a list.\<close>

datatype tmn_pc =
    TmServing
  | TmCloseSock "nat list"
  | TmJoin "nat list"
  | TmCloseCh
  | TmListener
  | TmWait
  | TmClosed

record tcp_server =
  tv_main :: tmn_pc
  tv_acc :: tac_pc
  tv_sockets :: "nat set"
  tv_store :: "nat \<Rightarrow> tcp_socket"
  tv_next :: nat
  tv_closeCh :: bool
  tv_listening :: bool
  tv_wg :: int
  tv_panic :: "go_panic option"

definition NewTCPServer :: tcp_server where
  "NewTCPServer =
     \<lparr>tv_main = TmServing, tv_acc = TaAccept, tv_sockets = {}, tv_store = (\<lambda>_. newTCPSocket), tv_next = 0,
      tv_closeCh = False, tv_listening = True, tv_wg = 1, tv_panic = None\<rparr>"

section \<open>Operations\<close>

fun tmu_held :: "tmn_pc \<Rightarrow> bool" where
  "tmu_held (TmCloseSock xs) = True"
| "tmu_held (TmJoin xs) = True"
| "tmu_held _ = False"

definition tv_put :: "nat \<Rightarrow> tcp_socket \<Rightarrow> tcp_server \<Rightarrow> tcp_server" where
  "tv_put a x s = s\<lparr>tv_store := (tv_store s)(a := x)\<rparr>"

definition tcp_addSocket :: "nat \<Rightarrow> tcp_server \<Rightarrow> tcp_server" where
  "tcp_addSocket a s = s\<lparr>tv_sockets := insert a (tv_sockets s)\<rparr>"

definition tcp_delSocket :: "nat \<Rightarrow> tcp_server \<Rightarrow> tcp_server" where
  "tcp_delSocket a s = s\<lparr>tv_sockets := tv_sockets s - {a}\<rparr>"

definition tv_wg_Done :: "tcp_server \<Rightarrow> tcp_server" where
  "tv_wg_Done s = (if tv_wg s \<le> 0 then s\<lparr>tv_panic := Some NegativeWaitGroup\<rparr> else s\<lparr>tv_wg := tv_wg s - 1\<rparr>)"

inductive tv_accept_step :: "tcp_server \<Rightarrow> tcp_server \<Rightarrow> bool" where
  ta_conn: "tv_acc s = TaAccept \<Longrightarrow> tv_listening s \<Longrightarrow> tv_accept_step s (s\<lparr>tv_acc := TaCheck True\<rparr>)"
| ta_err: "tv_acc s = TaAccept \<Longrightarrow> tv_accept_step s (s\<lparr>tv_acc := TaCheck False\<rparr>)"
| ta_closed: "tv_acc s = TaCheck c \<Longrightarrow> tv_closeCh s \<Longrightarrow> tv_accept_step s (tv_wg_Done (s\<lparr>tv_acc := TaExit\<rparr>))"
| ta_go_on: "tv_acc s = TaCheck c \<Longrightarrow> \<not> tv_closeCh s \<Longrightarrow>
    tv_accept_step s (s\<lparr>tv_acc := (if c then TaNew else TaAccept)\<rparr>)"
| ta_new: "tv_acc s = TaNew \<Longrightarrow>
    tv_accept_step s (s\<lparr>tv_store := (tv_store s)(tv_next s := newTCPSocket), tv_next := tv_next s + 1,
      tv_acc := TaAdd (tv_next s)\<rparr>)"
| ta_add: "tv_acc s = TaAdd a \<Longrightarrow> \<not> tmu_held (tv_main s) \<Longrightarrow>
    tv_accept_step s ((tcp_addSocket a s)\<lparr>tv_acc := TaAccept\<rparr>)"

text \<open>\<open>Close\<close>; the table is ranged over in any order.\<close>

inductive tv_main_step :: "tcp_server \<Rightarrow> tcp_server \<Rightarrow> bool" where
  tm_lock: "tv_main s = TmServing \<or> tv_main s = TmClosed \<Longrightarrow> distinct xs \<Longrightarrow> set xs = tv_sockets s \<Longrightarrow>
    tv_main_step s (s\<lparr>tv_main := TmCloseSock xs\<rparr>)"
| tm_close: "tv_main s = TmCloseSock (a # xs) \<Longrightarrow>
    tv_main_step s ((tv_put a (tcp_CloseRead (tv_store s a)) s)\<lparr>tv_main := TmJoin (a # xs)\<rparr>)"
| tm_join: "tv_main s = TmJoin (a # xs) \<Longrightarrow> tcp_Close_returns (tv_store s a) \<Longrightarrow>
    tv_main_step s (s\<lparr>tv_main := TmCloseSock xs\<rparr>)"
| tm_unlock: "tv_main s = TmCloseSock [] \<Longrightarrow> tv_main_step s (s\<lparr>tv_main := TmCloseCh\<rparr>)"
| tm_closeCh: "tv_main s = TmCloseCh \<Longrightarrow>
    tv_main_step s (if tv_closeCh s then s\<lparr>tv_panic := Some CloseOfClosed\<rparr>
                    else s\<lparr>tv_closeCh := True, tv_main := TmListener\<rparr>)"
| tm_listener: "tv_main s = TmListener \<Longrightarrow> tv_main_step s (s\<lparr>tv_listening := False, tv_main := TmWait\<rparr>)"
| tm_wait: "tv_main s = TmWait \<Longrightarrow> tv_wg s = 0 \<Longrightarrow> tv_main_step s (s\<lparr>tv_main := TmClosed\<rparr>)"

text \<open>
  A socket's goroutines and callers of its \<open>SendMsg\<close>; the step that runs \<open>releaseFn\<close> needs the mutex.
\<close>

inductive tv_socket_step :: "tcp_server \<Rightarrow> tcp_server \<Rightarrow> bool" where
  ts_read: "a < tv_next s \<Longrightarrow> tcp_read_step (tv_store s a) x \<Longrightarrow> tv_socket_step s (tv_put a x s)"
| ts_write: "a < tv_next s \<Longrightarrow> tcp_write_step (tv_store s a) x \<Longrightarrow> ts_wr (tv_store s a) \<noteq> WrRelease \<Longrightarrow>
    tv_socket_step s (tv_put a x s)"
| ts_release: "a < tv_next s \<Longrightarrow> tcp_write_step (tv_store s a) x \<Longrightarrow> ts_wr (tv_store s a) = WrRelease \<Longrightarrow>
    \<not> tmu_held (tv_main s) \<Longrightarrow> tv_socket_step s (tv_put a x (tcp_delSocket a s))"
| ts_send: "a < tv_next s \<Longrightarrow> (r, x) \<in> set (tcp_SendMsg (tv_store s a) m) \<Longrightarrow> tv_socket_step s (tv_put a x s)"

inductive tv_step :: "tcp_server \<Rightarrow> tcp_server \<Rightarrow> bool" where
  tv_accept: "tv_panic s = None \<Longrightarrow> tv_accept_step s t \<Longrightarrow> tv_step s t"
| tv_main: "tv_panic s = None \<Longrightarrow> tv_main_step s t \<Longrightarrow> tv_step s t"
| tv_socket: "tv_panic s = None \<Longrightarrow> tv_socket_step s t \<Longrightarrow> tv_step s t"

definition tv_init :: "tcp_server \<Rightarrow> bool" where
  "tv_init s \<longleftrightarrow> s = NewTCPServer"

section \<open>Invariant\<close>

fun ta_adding :: "tac_pc \<Rightarrow> nat option" where
  "ta_adding (TaAdd a) = Some a"
| "ta_adding _ = None"

fun tm_list :: "tmn_pc \<Rightarrow> nat list" where
  "tm_list (TmCloseSock xs) = xs"
| "tm_list (TmJoin xs) = xs"
| "tm_list _ = []"

text \<open>A socket outside the table is about to be put there, or has released itself.\<close>

definition tv_table_inv :: "tcp_server \<Rightarrow> bool" where
  "tv_table_inv s \<longleftrightarrow> tv_sockets s \<subseteq> {..<tv_next s}
     \<and> (\<forall>a. ta_adding (tv_acc s) = Some a \<longrightarrow> a < tv_next s \<and> a \<notin> tv_sockets s)
     \<and> (\<forall>a < tv_next s. a \<in> tv_sockets s \<or> ta_adding (tv_acc s) = Some a \<or> ts_wr (tv_store s a) = WrExit)"

definition tv_main_inv :: "tcp_server \<Rightarrow> bool" where
  "tv_main_inv s \<longleftrightarrow> (\<forall>a \<in> set (tm_list (tv_main s)). a < tv_next s)
     \<and> (\<forall>xs. tv_main s = TmJoin xs \<longrightarrow> xs \<noteq> [] \<and> ts_readShut (tv_store s (hd xs)))"

definition tv_life_inv :: "tcp_server \<Rightarrow> bool" where
  "tv_life_inv s \<longleftrightarrow> tv_wg s = (if tv_acc s = TaExit then 0 else 1)
     \<and> (tv_acc s = TaExit \<longrightarrow> tv_closeCh s)
     \<and> (tv_main s = TmListener \<or> tv_main s = TmWait \<longrightarrow> tv_closeCh s)
     \<and> (tv_main s = TmServing \<longrightarrow> \<not> tv_closeCh s) \<and> (\<not> tv_listening s \<longrightarrow> tv_closeCh s)"

definition tv_sockets_inv :: "tcp_server \<Rightarrow> bool" where
  "tv_sockets_inv s \<longleftrightarrow> (\<forall>a. tcp_inv (tv_store s a))"

definition tv_inv :: "tcp_server \<Rightarrow> bool" where
  "tv_inv s \<longleftrightarrow> tv_table_inv s \<and> tv_main_inv s \<and> tv_life_inv s \<and> tv_sockets_inv s"

lemmas tv_inv_defs = tv_inv_def tv_table_inv_def tv_main_inv_def tv_life_inv_def tv_sockets_inv_def

lemma tv_put_fields [simp]:
  "tv_main (tv_put a x s) = tv_main s" "tv_acc (tv_put a x s) = tv_acc s" "tv_sockets (tv_put a x s) = tv_sockets s"
  "tv_next (tv_put a x s) = tv_next s" "tv_closeCh (tv_put a x s) = tv_closeCh s"
  "tv_listening (tv_put a x s) = tv_listening s" "tv_wg (tv_put a x s) = tv_wg s"
  "tv_panic (tv_put a x s) = tv_panic s" "tv_store (tv_put a x s) = (tv_store s)(a := x)"
  by (simp_all add: tv_put_def)

text \<open>What a socket never undoes.\<close>

definition tcp_evolves :: "tcp_socket \<Rightarrow> tcp_socket \<Rightarrow> bool" where
  "tcp_evolves x y \<longleftrightarrow> (tcp_inv x \<longrightarrow> tcp_inv y) \<and> (ts_readShut x \<longrightarrow> ts_readShut y)
     \<and> (ts_wr x = WrExit \<longrightarrow> ts_wr y = WrExit) \<and> (ts_wg x = 0 \<and> tcp_inv x \<longrightarrow> ts_wg y = 0)"

lemma tcp_evolves_step: "tcp_step x y \<Longrightarrow> tcp_evolves x y"
proof -
  assume st: "tcp_step x y"
  have "ts_readShut x \<longrightarrow> ts_readShut y" using st
    by (auto elim!: tcp_step.cases tcp_read_step.cases tcp_write_step.cases
        simp: tcp_ops tcp_SendMsg_def)
  moreover have "ts_wr x = WrExit \<longrightarrow> ts_wr y = WrExit" using st
    by (auto elim!: tcp_step.cases tcp_read_step.cases tcp_write_step.cases
        simp: tcp_ops tcp_SendMsg_def)
  moreover have "ts_wg x = 0 \<and> tcp_inv x \<longrightarrow> ts_wg y = 0" using st
    by (auto elim!: tcp_step.cases tcp_read_step.cases tcp_write_step.cases
        simp: tcp_ops tcp_SendMsg_def tcp_inv_def tcp_control_inv_def)
  ultimately show ?thesis using tcp_sys.inv_step [OF _ st] by (auto simp: tcp_evolves_def)
qed

lemma tv_put_inv:
  assumes "tv_inv s" and "tcp_evolves (tv_store s a) x"
  shows "tv_inv (tv_put a x s)"
proof -
  have keep: "ts_wr (tv_store s b) = WrExit \<Longrightarrow> ts_wr (((tv_store s)(a := x)) b) = WrExit"
    "ts_readShut (tv_store s b) \<Longrightarrow> ts_readShut (((tv_store s)(a := x)) b)"
    "tcp_inv (tv_store s b) \<Longrightarrow> tcp_inv (((tv_store s)(a := x)) b)" for b
    using assms(2) by (auto simp: tcp_evolves_def)
  have "tv_table_inv (tv_put a x s)" using assms(1) keep(1)
    by (simp add: tv_inv_def tv_table_inv_def del: fun_upd_apply) blast
  moreover have "tv_main_inv (tv_put a x s)" using assms(1) keep(2)
    by (simp add: tv_inv_def tv_main_inv_def del: fun_upd_apply)
  moreover have "tv_life_inv (tv_put a x s)" using assms(1) by (simp add: tv_inv_def tv_life_inv_def)
  moreover have "tv_sockets_inv (tv_put a x s)" using assms(1) keep(3)
    by (simp add: tv_inv_def tv_sockets_inv_def del: fun_upd_apply)
  ultimately show ?thesis by (simp add: tv_inv_def)
qed

lemma newTCPSocket_inv: "tcp_inv newTCPSocket"
  by (rule tcp_sys.inv_init) (simp add: tcp_init_def)

lemma tv_accept_step_inv: "tv_accept_step s t \<Longrightarrow> tv_inv s \<Longrightarrow> tv_inv t"
proof (induction rule: tv_accept_step.induct)
  case (ta_closed s c)
  then show ?case by (auto simp: tv_inv_defs tv_wg_Done_def)
next
  case (ta_new s)
  have "hd xs \<noteq> tv_next s" if "tv_main s = TmJoin xs" "xs \<noteq> []" for xs
    using ta_new.prems that by (cases xs) (auto simp: tv_inv_defs)
  with ta_new newTCPSocket_inv show ?case by (auto simp: tv_inv_defs less_Suc_eq)
next
  case (ta_add s a)
  then show ?case by (auto simp: tv_inv_defs tcp_addSocket_def)
qed (auto simp: tv_inv_defs)

lemma tv_main_step_inv: "tv_main_step s t \<Longrightarrow> tv_inv s \<Longrightarrow> tv_inv t"
proof (induction rule: tv_main_step.induct)
  case (tm_close s a xs)
  have "tcp_evolves (tv_store s a) (tcp_CloseRead (tv_store s a))" by (intro tcp_evolves_step step_close)
  from tv_put_inv [OF tm_close.prems this] tm_close.hyps show ?case
    by (auto simp: tv_inv_defs tcp_CloseRead_def)
qed (auto simp: tv_inv_defs split: if_splits)

lemma tv_socket_step_inv: "tv_socket_step s t \<Longrightarrow> tv_inv s \<Longrightarrow> tv_inv t"
proof (induction rule: tv_socket_step.induct)
  case (ts_release a s x)
  have ev: "tcp_evolves (tv_store s a) x" by (intro tcp_evolves_step step_write ts_release)
  from ts_release have "ts_wr x = WrExit" by (auto elim: tcp_write_step.cases)
  with tv_put_inv [OF ts_release.prems ev] show ?case
    by (auto simp: tv_inv_defs tcp_delSocket_def)
qed (auto intro!: tv_put_inv tcp_evolves_step intro: tcp_step.intros)

interpretation tv_sys: inductive_invariant tv_init tv_step tv_inv
proof
  show "tv_inv s" if "tv_init s" for s
    using that newTCPSocket_inv by (simp add: tv_init_def NewTCPServer_def tv_inv_defs)
  show "tv_inv t" if "tv_inv s" "tv_step s t" for s t
    using that(2,1) by (induction rule: tv_step.induct)
      (auto intro: tv_accept_step_inv tv_main_step_inv tv_socket_step_inv)
qed

section \<open>A socket that is closed comes to its end\<close>

text \<open>The steps of a socket's goroutines before \<open>releaseFn\<close>, with no error, until its wait group is empty.\<close>

inductive tcp_join_step :: "tcp_socket \<Rightarrow> tcp_socket \<Rightarrow> bool" where
  join_read: "ts_wg s \<noteq> 0 \<Longrightarrow> tcp_read_step s t \<Longrightarrow> t \<noteq> s \<Longrightarrow> tcp_join_step s t"
| join_write: "ts_wg s \<noteq> 0 \<Longrightarrow> tcp_write_step s t \<Longrightarrow> tcp_closing_step s t \<Longrightarrow> ts_wr s \<noteq> WrRelease \<Longrightarrow>
    tcp_join_step s t"

definition tcp_join_rank :: "tcp_socket \<Rightarrow> nat" where
  "tcp_join_rank s = (if ts_wg s = 0 then 0 else tcp_rank s)"

lemma tcp_join_step_closing: "tcp_join_step s t \<Longrightarrow> tcp_closing_step s t"
  by (erule tcp_join_step.cases) (auto intro: closing_read)

lemma tcp_join_step_rank: "tcp_join_step s t \<Longrightarrow> tcp_inv s \<Longrightarrow> tcp_join_rank t < tcp_join_rank s"
  using closing_step_rank [OF tcp_join_step_closing, of s t]
  by (auto simp: tcp_join_rank_def elim: tcp_join_step.cases)

lemma tcp_join_enabled:
  assumes inv: "tcp_inv s" and wg: "0 < tcp_join_rank s"
  shows "\<exists>t. tcp_join_step s t"
proof (cases "ts_rd s = RdExit")
  case False
  with wg show ?thesis using read_enabled [of s] by (auto simp: tcp_join_rank_def intro: join_read split: if_splits)
next
  case True
  with inv wg have "ts_wr s \<noteq> WrExit" "ts_wr s \<noteq> WrRelease" "ts_wg s \<noteq> 0"
    by (auto simp: tcp_inv_def tcp_control_inv_def tcp_join_rank_def split: if_splits)
  moreover obtain t where t: "tcp_closing_step s t" using closing_enabled_write [OF inv True] calculation(1) by blast
  moreover have "tcp_write_step s t" using t True by (auto elim!: tcp_closing_step.cases tcp_read_step.cases)
  ultimately show ?thesis by (blast intro: join_write)
qed

interpretation tcp_joining: progress_measure tcp_inv tcp_join_step tcp_inv tcp_join_step tcp_join_rank
  by unfold_locales
    (auto intro: closing_step_inv tcp_join_step_closing tcp_join_step_rank tcp_join_enabled)

section \<open>Close comes to its end\<close>

text \<open>The server's own steps: those of \<open>Close\<close>, of the sockets it waits for, and of the accept goroutine.\<close>

inductive tv_own_step :: "tcp_server \<Rightarrow> tcp_server \<Rightarrow> bool" where
  tvo_accept: "tv_panic s = None \<Longrightarrow> tv_accept_step s t \<Longrightarrow> tv_acc s \<noteq> TaAccept \<or> \<not> tv_listening s \<Longrightarrow> tv_own_step s t"
| tvo_main: "tv_panic s = None \<Longrightarrow> tv_main_step s t \<Longrightarrow> tv_main s \<noteq> TmServing \<Longrightarrow> tv_main s \<noteq> TmClosed \<Longrightarrow> tv_own_step s t"
| tvo_socket: "tv_panic s = None \<Longrightarrow> a < tv_next s \<Longrightarrow> ts_readShut (tv_store s a) \<Longrightarrow>
    tcp_join_step (tv_store s a) x \<Longrightarrow> tv_own_step s (tv_put a x s)"

lemma tv_own_step_sys: "tv_own_step s t \<Longrightarrow> tv_step s t"
  by (induction rule: tv_own_step.induct)
    (auto elim!: tcp_join_step.cases intro: tv_step.intros tv_socket_step.intros)

lemma tv_put_put: "tv_put a y (tv_put a x s) = tv_put a y s"
  by (simp add: tv_put_def)

lemma tv_put_same: "tv_put a (tv_store s a) s = s"
  by (simp add: tv_put_def)

section \<open>Properties\<close>

text \<open>
  The table of the server: it holds only sockets the server made, and a socket that is not in it is about to be put
  there by the accept goroutine, or its write loop has ended and released it. The wait group and the close channel are used
  without a panic until \<open>Close\<close> is called a second time.
\<close>

theorem tcp_server_table:
  assumes "reachable tv_init tv_step s"
  shows "tv_sockets s \<subseteq> {..<tv_next s}
    \<and> (\<forall>a. a < tv_next s \<and> a \<notin> tv_sockets s \<longrightarrow> tv_acc s = TaAdd a \<or> ts_wr (tv_store s a) = WrExit)
    \<and> (tv_acc s = TaExit \<longrightarrow> tv_closeCh s \<and> tv_wg s = 0)"
proof -
  have inv: "tv_inv s" by (rule tv_sys.inv_reachable [OF assms])
  have "ta_adding (tv_acc s) = Some a \<longleftrightarrow> tv_acc s = TaAdd a" for a by (cases "tv_acc s") auto
  with inv show ?thesis by (auto simp: tv_inv_defs)
qed

lemma tv_reach_new: "reachable tv_init tv_step NewTCPServer"
  by (rule reach_init) (simp add: tv_init_def)

theorem tcp_server_table_witness: "tv_sockets NewTCPServer \<subseteq> {..<0}"
  using tcp_server_table [OF tv_reach_new] by (simp add: NewTCPServer_def)

text \<open>The steps of a socket's goroutines are steps of the server while nobody holds the mutex.\<close>

lemma tv_run_socket:
  "steps tcp_closing_step x y \<Longrightarrow> tv_panic s = None \<Longrightarrow> a < tv_next s \<Longrightarrow> \<not> tmu_held (tv_main s) \<Longrightarrow>
     a \<notin> tv_sockets s \<Longrightarrow> steps tv_step (tv_put a x s) (tv_put a y s)"
proof (induction rule: steps.induct)
  case (steps_trans x y z)
  let ?s = "tv_put a x s"
  have out: "tcp_delSocket a ?s = ?s" using steps_trans.prems by (simp add: tcp_delSocket_def tv_put_def)
  have "tv_socket_step ?s (tv_put a y ?s)" using steps_trans.hyps(1)
  proof (cases rule: tcp_closing_step.cases)
    case closing_read
    then show ?thesis using steps_trans.prems by (intro ts_read) simp_all
  next
    case closing_write
    then show ?thesis using steps_trans.prems out ts_write [of a ?s y] ts_release [of a ?s y]
      by (cases "ts_wr x = WrRelease") simp_all
  qed
  then have "tv_step ?s (tv_put a y s)" using steps_trans.prems by (intro tv_socket) (simp_all add: tv_put_put)
  with steps_trans show ?case by (blast intro: steps.steps_trans)
qed (rule steps_refl)

lemma tv_dead_step:
  assumes "tv_step s t" and "a \<in> tv_sockets s" and "ts_wr (tv_store s a) = WrExit" and "a < tv_next s"
  shows "a \<in> tv_sockets t \<and> ts_wr (tv_store t a) = WrExit \<and> a < tv_next t"
  using assms
proof (induction rule: tv_step.induct)
  case (tv_accept s t)
  then show ?case by (auto elim!: tv_accept_step.cases simp: tv_wg_Done_def tcp_addSocket_def)
next
  case (tv_main s t)
  then show ?case by (auto elim!: tv_main_step.cases simp: tcp_CloseRead_def)
next
  case (tv_socket s t)
  have ev: "tcp_step (tv_store s a) x \<Longrightarrow> ts_wr x = WrExit" for x
    using tcp_evolves_step [of "tv_store s a" x] tv_socket.prems by (simp add: tcp_evolves_def)
  from ev [OF step_read] ev [OF step_write] ev [OF step_send] tv_socket show ?case
    by (auto elim!: tv_socket_step.cases simp: tcp_delSocket_def)
qed

lemma tv_dead_steps:
  "steps tv_step s t \<Longrightarrow> a \<in> tv_sockets s \<Longrightarrow> ts_wr (tv_store s a) = WrExit \<Longrightarrow> a < tv_next s \<Longrightarrow>
     a \<in> tv_sockets t \<and> ts_wr (tv_store t a) = WrExit"
  by (induction rule: steps.induct) (auto dest: tv_dead_step)

text \<open>C39.
  A connection that ends before the accept goroutine has put its socket into the table leaves a dead entry: its \<open>delSocket\<close>
  runs first and finds nothing, \<open>addSocket\<close> then adds a socket whose loops have ended, and no step of the server ever takes it out
  again, whatever happens, \<open>Close\<close> included.
\<close>

theorem tcp_server_dead_socket:
  assumes "reachable tv_init tv_step s" and "tv_acc s = TaAdd a" and "tv_main s = TmServing" and "tv_panic s = None"
  shows "\<exists>t. steps tv_step s t \<and> (\<forall>u. steps tv_step t u \<longrightarrow> a \<in> tv_sockets u \<and> ts_wr (tv_store u a) = WrExit)"
proof -
  have inv: "tv_inv s" by (rule tv_sys.inv_reachable [OF assms(1)])
  then have a: "a < tv_next s" "a \<notin> tv_sockets s" "tcp_inv (tv_store s a)"
    using assms(2) by (simp_all add: tv_inv_defs)
  obtain y where y: "steps tcp_closing_step (tv_store s a) y" "tcp_rank y = 0" using tcp_closing.reaches_goal [OF a(3)] by blast
  have "steps tv_step (tv_put a (tv_store s a) s) (tv_put a y s)"
    by (rule tv_run_socket [OF y(1) assms(4) a(1) _ a(2)]) (simp add: assms(3))
  then have run: "steps tv_step s (tv_put a y s)" by (simp add: tv_put_same)
  let ?t = "(tcp_addSocket a (tv_put a y s))\<lparr>tv_acc := TaAccept\<rparr>"
  have "tv_step (tv_put a y s) ?t" using assms by (intro tv_accept ta_add) simp_all
  with run have "steps tv_step s ?t" by (blast intro: steps_append steps_one)
  moreover have "a \<in> tv_sockets ?t" "ts_wr (tv_store ?t a) = WrExit" "a < tv_next ?t"
    using y(2) a(1) by (simp_all add: tcp_addSocket_def tcp_rank_0)
  ultimately show ?thesis using tv_dead_steps by blast
qed

section \<open>Runs\<close>

text \<open>A server that accepts one connection, up to \<open>addSocket\<close>.\<close>

definition tv_one :: tcp_server where
  "tv_one = NewTCPServer\<lparr>tv_next := 1, tv_acc := TaAdd 0\<rparr>"

lemma tv_one_run: "NewTCPServer\<lparr>tv_main := m\<rparr> = s \<Longrightarrow> \<not> tmu_held m \<Longrightarrow> steps tv_step s (s\<lparr>tv_next := 1, tv_acc := TaAdd 0\<rparr>)"
proof -
  assume s: "NewTCPServer\<lparr>tv_main := m\<rparr> = s" and m: "\<not> tmu_held m"
  let ?s1 = "s\<lparr>tv_acc := TaCheck True\<rparr>" and ?s2 = "s\<lparr>tv_acc := TaNew\<rparr>" and ?s3 = "s\<lparr>tv_next := 1, tv_acc := TaAdd 0\<rparr>"
  have f: "tv_panic s = None" "tv_acc s = TaAccept" "tv_listening s" "\<not> tv_closeCh s" "tv_next s = 0"
    "(tv_store s)(0 := newTCPSocket) = tv_store s"
    unfolding s [symmetric] by (auto simp: NewTCPServer_def)
  have "tv_step s ?s1" using f by (intro tv_accept ta_conn) simp_all
  moreover have "tv_step ?s1 ?s2" using tv_accept [OF _ ta_go_on [of ?s1 True]] f by simp
  moreover have "tv_step ?s2 ?s3" using tv_accept [OF _ ta_new [of ?s2]] f by (simp del: fun_upd_apply)
  ultimately show ?thesis by (blast intro: steps.intros)
qed

lemma tv_one_reachable: "reachable tv_init tv_step tv_one"
proof -
  have "NewTCPServer\<lparr>tv_main := TmServing\<rparr> = NewTCPServer" by (simp add: NewTCPServer_def)
  from reachable_steps [OF tv_one_run [OF this] tv_reach_new] show ?thesis by (simp add: tv_one_def)
qed

theorem tcp_server_dead_socket_witness:
  "\<exists>t. steps tv_step tv_one t \<and> 0 \<in> tv_sockets t \<and> ts_wr (tv_store t 0) = WrExit"
  using tcp_server_dead_socket [OF tv_one_reachable, of 0] steps_refl by (fastforce simp: tv_one_def NewTCPServer_def)

text \<open>
  \<open>Close\<close> gives the mutex back before it stops the accept goroutine: there is a run after which \<open>Close\<close> has returned and a socket it
  did not see is in the table, with both loops running and nobody left to close it.
\<close>

theorem tcp_server_close_leaks_socket:
  "\<exists>s. reachable tv_init tv_step s \<and> tv_main s = TmClosed \<and> tv_acc s = TaExit
     \<and> (\<exists>a \<in> tv_sockets s. \<not> ts_readShut (tv_store s a) \<and> ts_wg (tv_store s a) = 2)"
proof -
  let ?n1 = "NewTCPServer\<lparr>tv_main := TmCloseSock []\<rparr>" and ?n2 = "NewTCPServer\<lparr>tv_main := TmCloseCh\<rparr>"
  let ?n3 = "?n2\<lparr>tv_next := 1, tv_acc := TaAdd 0\<rparr>"
  let ?n4 = "?n2\<lparr>tv_acc := TaAccept, tv_next := 1, tv_sockets := {0}\<rparr>"
  let ?n5 = "?n4\<lparr>tv_closeCh := True, tv_main := TmListener\<rparr>"
  let ?n6 = "?n5\<lparr>tv_listening := False, tv_main := TmWait\<rparr>"
  let ?n7 = "?n6\<lparr>tv_acc := TaCheck False\<rparr>"
  let ?n8 = "?n6\<lparr>tv_acc := TaExit, tv_wg := 0\<rparr>" and ?n9 = "?n6\<lparr>tv_acc := TaExit, tv_wg := 0, tv_main := TmClosed\<rparr>"
  note new = NewTCPServer_def
  have "tv_step NewTCPServer ?n1" by (intro tv_main tm_lock) (simp_all add: new)
  moreover have "tv_step ?n1 ?n2" using tv_main [OF _ tm_unlock [of ?n1]] by (simp add: new)
  moreover have s3: "steps tv_step ?n2 ?n3" by (rule tv_one_run [OF refl]) simp
  have s4: "tv_step ?n3 ?n4" using tv_accept [OF _ ta_add [of ?n3 0]] by (simp add: new tcp_addSocket_def)
  have s5: "tv_step ?n4 ?n5" using tv_main [OF _ tm_closeCh [of ?n4]] by (simp add: new)
  have s6: "tv_step ?n5 ?n6" using tv_main [OF _ tm_listener [of ?n5]] by (simp add: new)
  have s7: "tv_step ?n6 ?n7" using tv_accept [OF _ ta_err [of ?n6]] by (simp add: new)
  have s8: "tv_step ?n7 ?n8" using tv_accept [OF _ ta_closed [of ?n7 False]] by (simp add: new tv_wg_Done_def)
  have s9: "tv_step ?n8 ?n9" using tv_main [OF _ tm_wait [of ?n8]] by (simp add: new)
  ultimately have r2: "reachable tv_init tv_step ?n2" using tv_reach_new by (blast intro: reach_step)
  have "reachable tv_init tv_step ?n9"
    by (rule reach_step [OF reach_step [OF reach_step [OF reach_step [OF reach_step [OF reach_step
      [OF reachable_steps [OF s3 r2] s4] s5] s6] s7] s8] s9])
  then show ?thesis
    by (intro exI [of _ ?n9] conjI bexI [of _ 0]) (simp_all add: new newTCPSocket_def)
qed

end
