(* ===== verification/Tcp_Server_Close.thy ===== *)
theory Tcp_Server_Close
  imports Tcp_Server
begin

text \<open>
  \<open>TCPServer.Close\<close> of \<open>pkg/xnet/tcp_server.go\<close> runs to its end under every schedule: a measure over \<open>Close\<close>, the accept goroutine and the
  sockets that are closed or listed for it, which every step of the server's own decreases, and a step that is enabled while it is not zero.
\<close>

section \<open>The measure\<close>

text \<open>A connection accepted before the close channel is closed still becomes a socket.\<close>

fun ta_rank :: "tac_pc \<Rightarrow> bool \<Rightarrow> nat" where
  "ta_rank (TaCheck c) closed = (if closed then 1 else 5)"
| "ta_rank TaNew closed = 4"
| "ta_rank (TaAdd a) closed = 3"
| "ta_rank TaAccept closed = 2"
| "ta_rank TaExit closed = 0"

fun tm_rank :: "tmn_pc \<Rightarrow> nat" where
  "tm_rank (TmCloseSock xs) = 2 * length xs + 5"
| "tm_rank (TmJoin xs) = 2 * length xs + 4"
| "tm_rank TmCloseCh = 3"
| "tm_rank TmListener = 2"
| "tm_rank TmWait = 1"
| "tm_rank _ = 0"

definition tv_weight :: "tcp_server \<Rightarrow> nat \<Rightarrow> nat" where
  "tv_weight s a = (if ts_readShut (tv_store s a) \<or> a \<in> set (tm_list (tv_main s)) then tcp_join_rank (tv_store s a) else 0)"

definition tv_rank :: "tcp_server \<Rightarrow> nat" where
  "tv_rank s = (\<Sum>a < tv_next s. tv_weight s a) + ta_rank (tv_acc s) (tv_closeCh s) + tm_rank (tv_main s)"

lemma tv_weight_put: "b \<noteq> a \<Longrightarrow> tv_weight (tv_put a x s) b = tv_weight s b"
  by (simp add: tv_weight_def)

lemma tv_weight_frame [simp]:
  "tv_weight (s\<lparr>tv_acc := c\<rparr>) a = tv_weight s a" "tv_weight (s\<lparr>tv_wg := w\<rparr>) a = tv_weight s a"
  "tv_weight (s\<lparr>tv_closeCh := b\<rparr>) a = tv_weight s a" "tv_weight (s\<lparr>tv_listening := b\<rparr>) a = tv_weight s a"
  "tv_weight (s\<lparr>tv_panic := p\<rparr>) a = tv_weight s a" "tv_weight (tcp_addSocket d s) a = tv_weight s a"
  by (simp_all add: tv_weight_def tcp_addSocket_def)

lemma tv_sum_put:
  "a < tv_next s \<Longrightarrow> (\<Sum>b < tv_next s. tv_weight (tv_put a x s) b) + tv_weight s a
     = (\<Sum>b < tv_next s. tv_weight s b) + tv_weight (tv_put a x s) a"
  by (intro sum_point tv_weight_put)

text \<open>Moving along the list changes no weight when what leaves it is closed.\<close>

lemma tv_sum_main:
  assumes "\<And>a. a \<noteq> b \<Longrightarrow> a \<in> set (tm_list m) \<longleftrightarrow> a \<in> set (tm_list (tv_main s))" and "ts_readShut (tv_store s b)"
  shows "(\<Sum>a < n. tv_weight (s\<lparr>tv_main := m\<rparr>) a) = (\<Sum>a < n. tv_weight s a)"
proof (rule sum.cong)
  fix a
  show "tv_weight (s\<lparr>tv_main := m\<rparr>) a = tv_weight s a" using assms by (cases "a = b") (auto simp: tv_weight_def)
qed simp

lemma tv_weight_main_same:
  "set (tm_list m) = set (tm_list (tv_main s)) \<Longrightarrow> tv_weight (s\<lparr>tv_main := m\<rparr>) a = tv_weight s a"
  by (simp add: tv_weight_def)

lemma tcp_join_rank_CloseRead [simp]: "tcp_join_rank (tcp_CloseRead x) = tcp_join_rank x"
  by (simp add: tcp_join_rank_def tcp_rank_def tcp_CloseRead_def)

section \<open>Every own step counts down\<close>

lemma tv_accept_step_rank:
  assumes "tv_accept_step s t" and "tv_inv s" and "tv_acc s \<noteq> TaAccept \<or> \<not> tv_listening s"
  shows "tv_rank t < tv_rank s"
  using assms
proof (induction rule: tv_accept_step.induct)
  case (ta_err s)
  then have "tv_closeCh s" by (auto simp: tv_inv_defs)
  with ta_err show ?case by (simp add: tv_rank_def)
next
  case (ta_closed s c)
  then show ?case by (simp add: tv_rank_def tv_wg_Done_def)
next
  case (ta_new s)
  let ?t = "s\<lparr>tv_store := (tv_store s)(tv_next s := newTCPSocket), tv_next := tv_next s + 1, tv_acc := TaAdd (tv_next s)\<rparr>"
  have "tv_next s \<notin> set (tm_list (tv_main s))" using ta_new.prems(1) by (auto simp: tv_inv_defs)
  then have "tv_weight ?t (tv_next s) = 0" by (simp add: tv_weight_def newTCPSocket_def)
  moreover have "(\<Sum>b < tv_next s. tv_weight ?t b) = (\<Sum>b < tv_next s. tv_weight s b)"
    by (rule sum.cong) (auto simp: tv_weight_def)
  ultimately show ?case using ta_new by (simp add: tv_rank_def)
next
  case (ta_add s a)
  then show ?case by (simp add: tv_rank_def) (simp add: tcp_addSocket_def)
qed (simp_all add: tv_rank_def)

lemma tv_main_step_rank:
  assumes "tv_main_step s t" and "tv_inv s" and "tv_main s \<noteq> TmServing" and "tv_main s \<noteq> TmClosed" and "tv_panic t = None"
  shows "tv_rank t < tv_rank s"
  using assms
proof (induction rule: tv_main_step.induct)
  case (tm_close s a xs)
  have a: "a < tv_next s" using tm_close by (simp add: tv_inv_defs)
  have "tv_weight (tv_put a (tcp_CloseRead (tv_store s a)) s) a = tv_weight s a"
    using tm_close.hyps by (simp add: tv_weight_def)
  with tv_sum_put [OF a, of "tcp_CloseRead (tv_store s a)"] tm_close.hyps show ?case
    by (simp add: tv_rank_def tv_weight_main_same del: tv_put_fields(9))
next
  case (tm_join s a xs)
  then have "(\<Sum>b < tv_next s. tv_weight (s\<lparr>tv_main := TmCloseSock xs\<rparr>) b) = (\<Sum>b < tv_next s. tv_weight s b)"
    by (intro tv_sum_main [where b = a]) (auto simp: tcp_Close_returns_def)
  with tm_join.hyps(1) show ?case by (simp add: tv_rank_def)
next
  case (tm_closeCh s)
  then show ?case by (cases "tv_acc s") (auto simp: tv_rank_def tv_weight_main_same split: if_splits)
qed (simp_all add: tv_rank_def tv_weight_main_same)

lemma tv_socket_step_rank:
  assumes "a < tv_next s" and "ts_readShut (tv_store s a)" and "tcp_join_step (tv_store s a) x" and "tv_inv s"
  shows "tv_rank (tv_put a x s) < tv_rank s"
proof -
  have i: "tcp_inv (tv_store s a)" using assms(4) by (simp add: tv_inv_defs)
  have "tcp_evolves (tv_store s a) x" using assms(3) by (intro tcp_evolves_step closing_step_sys tcp_join_step_closing)
  then have "tv_weight (tv_put a x s) a < tv_weight s a"
    using tcp_join_step_rank [OF assms(3) i] assms(2) by (simp add: tv_weight_def tcp_evolves_def)
  with tv_sum_put [OF assms(1), of x] show ?thesis by (simp add: tv_rank_def)
qed

section \<open>Closing goes on\<close>

text \<open>
  Where the close channel and the listener are while \<open>Close\<close> runs for the first time, and what has become of the sockets \<open>A\<close> that were in the
  table.
\<close>

definition tv_phase :: "tcp_server \<Rightarrow> bool" where
  "tv_phase s \<longleftrightarrow> (case tv_main s of
       TmServing \<Rightarrow> False
     | TmListener \<Rightarrow> tv_closeCh s
     | TmWait \<Rightarrow> tv_closeCh s \<and> \<not> tv_listening s
     | TmClosed \<Rightarrow> tv_acc s = TaExit
     | _ \<Rightarrow> \<not> tv_closeCh s)"

definition tv_listed :: "nat set \<Rightarrow> tcp_server \<Rightarrow> bool" where
  "tv_listed A s \<longleftrightarrow> (\<forall>a \<in> A. a < tv_next s \<and> (a \<in> set (tm_list (tv_main s)) \<or> tcp_Close_returns (tv_store s a)))"

definition tv_closing :: "nat set \<Rightarrow> tcp_server \<Rightarrow> bool" where
  "tv_closing A s \<longleftrightarrow> tv_inv s \<and> tv_panic s = None \<and> tv_phase s \<and> tv_listed A s"

lemma tv_listed_put:
  assumes "tv_listed A s" and "tcp_evolves (tv_store s a) x" and "tcp_inv (tv_store s a)"
  shows "tv_listed A (tv_put a x s)"
  using assms by (auto simp: tv_listed_def tcp_evolves_def tcp_Close_returns_def)

lemma tv_own_step_closing:
  assumes "tv_own_step s t" and "tv_closing A s"
  shows "tv_closing A t"
proof -
  have inv: "tv_inv s" "tv_inv t" using assms by (auto simp: tv_closing_def intro: tv_sys.inv_step tv_own_step_sys)
  have c: "tv_panic s = None" "tv_phase s" "tv_listed A s" using assms(2) by (simp_all add: tv_closing_def)
  have "tv_panic t = None \<and> tv_phase t \<and> tv_listed A t"
    using assms(1)
  proof (cases rule: tv_own_step.cases)
    case tvo_accept
    from tvo_accept(2) show ?thesis
    proof (cases rule: tv_accept_step.cases)
      case (ta_closed k)
      then have "tv_wg s = 1" using inv(1) by (simp add: tv_inv_defs)
      with ta_closed c show ?thesis
        by (auto simp: tv_phase_def tv_listed_def tv_wg_Done_def split: tmn_pc.splits)
    next
      case ta_new
      have "b \<noteq> tv_next s" if "b \<in> A" for b using c(3) that by (auto simp: tv_listed_def)
      with ta_new c show ?thesis by (auto simp: tv_phase_def tv_listed_def less_Suc_eq split: tmn_pc.splits)
    qed (use c in \<open>auto simp: tv_phase_def tv_listed_def tcp_addSocket_def split: tmn_pc.splits\<close>)
  next
    case tvo_main
    from tvo_main(2) show ?thesis
    proof (cases rule: tv_main_step.cases)
      case (tm_close a xs)
      have "tcp_evolves (tv_store s a) (tcp_CloseRead (tv_store s a))" by (intro tcp_evolves_step step_close)
      moreover have "tcp_inv (tv_store s a)" using inv(1) by (simp add: tv_inv_defs)
      ultimately have "tv_listed A (tv_put a (tcp_CloseRead (tv_store s a)) s)" by (rule tv_listed_put [OF c(3)])
      with tm_close c show ?thesis by (auto simp: tv_phase_def tv_listed_def)
    next
      case tm_wait
      then have "tv_acc s = TaExit" using inv(1) by (auto simp: tv_inv_defs split: if_splits)
      with tm_wait c show ?thesis by (auto simp: tv_phase_def tv_listed_def)
    qed (use c tvo_main in \<open>auto simp: tv_phase_def tv_listed_def\<close>)
  next
    case (tvo_socket a x)
    have "tcp_evolves (tv_store s a) x" using tvo_socket(5) by (intro tcp_evolves_step closing_step_sys tcp_join_step_closing)
    moreover have "tcp_inv (tv_store s a)" using inv(1) by (simp add: tv_inv_defs)
    ultimately have "tv_listed A (tv_put a x s)" by (rule tv_listed_put [OF c(3)])
    with tvo_socket c show ?thesis by (auto simp: tv_phase_def split: tmn_pc.splits)
  qed
  with inv(2) show ?thesis by (simp add: tv_closing_def)
qed

lemma tv_own_step_rank:
  assumes "tv_own_step s t" and "tv_closing A s"
  shows "tv_rank t < tv_rank s"
proof -
  have "tv_panic t = None" "tv_inv s" using tv_own_step_closing [OF assms] assms(2) by (simp_all add: tv_closing_def)
  with assms(1) show ?thesis
    by (auto elim!: tv_own_step.cases intro: tv_accept_step_rank tv_main_step_rank tv_socket_step_rank)
qed

section \<open>Something is always enabled\<close>

lemma tv_socket_enabled:
  assumes "tv_closing A s" and "a < tv_next s" and "ts_readShut (tv_store s a)" and "0 < tcp_join_rank (tv_store s a)"
  shows "\<exists>t. tv_own_step s t"
proof -
  have "tcp_inv (tv_store s a)" "tv_panic s = None" using assms(1) by (simp_all add: tv_closing_def tv_inv_defs)
  with tcp_join_enabled [OF _ assms(4)] assms(2,3) show ?thesis by (blast intro: tvo_socket)
qed

lemma tv_accept_enabled:
  assumes "tv_closing A s" and "tv_main s = TmWait" and "tv_acc s \<noteq> TaExit"
  shows "\<exists>t. tv_own_step s t"
proof -
  have c: "tv_panic s = None" "tv_closeCh s" "\<not> tv_listening s" using assms(1,2) by (simp_all add: tv_closing_def tv_phase_def)
  then have move: "tv_accept_step s t \<Longrightarrow> \<exists>t. tv_own_step s t" for t by (blast intro: tvo_accept)
  show ?thesis
  proof (cases "tv_acc s")
    case TaAccept
    then show ?thesis by (rule move [OF ta_err])
  next
    case (TaCheck k)
    then show ?thesis using c(2) by (rule move [OF ta_closed])
  next
    case TaNew
    then show ?thesis by (rule move [OF ta_new])
  next
    case (TaAdd a)
    then show ?thesis by (rule move [OF ta_add]) (simp add: assms(2))
  qed (use assms(3) in simp)
qed

lemma tv_own_enabled:
  assumes c: "tv_closing A s" and pos: "0 < tv_rank s"
  shows "\<exists>t. tv_own_step s t"
proof -
  have inv: "tv_inv s" and run: "tv_panic s = None" and ph: "tv_phase s" using c by (simp_all add: tv_closing_def)
  have main: "tv_main_step s t \<Longrightarrow> tv_main s \<noteq> TmServing \<Longrightarrow> tv_main s \<noteq> TmClosed \<Longrightarrow> \<exists>t. tv_own_step s t" for t
    using run by (blast intro: tvo_main)
  show ?thesis
  proof (cases "tv_main s")
    case TmServing
    with ph show ?thesis by (simp add: tv_phase_def)
  next
    case (TmCloseSock xs)
    then show ?thesis by (cases xs) (auto intro: main [OF tm_close] main [OF tm_unlock])
  next
    case (TmJoin ys)
    then obtain a xs where ys: "ys = a # xs" "ts_readShut (tv_store s a)" "a < tv_next s"
      using inv by (cases ys) (auto simp: tv_inv_defs)
    show ?thesis
    proof (cases "tcp_join_rank (tv_store s a)")
      case 0
      have "tcp_inv (tv_store s a)" using inv by (simp add: tv_inv_defs)
      with 0 ys(2) have "tcp_Close_returns (tv_store s a)"
        by (auto simp: tcp_Close_returns_def tcp_join_rank_def tcp_rank_0 tcp_inv_def tcp_control_inv_def split: if_splits)
      with TmJoin ys(1) show ?thesis by (auto intro: main [OF tm_join])
    next
      case (Suc n)
      with tv_socket_enabled [OF c ys(3,2)] show ?thesis by simp
    qed
  next
    case TmCloseCh
    then show ?thesis by (auto intro: main [OF tm_closeCh])
  next
    case TmListener
    then show ?thesis by (auto intro: main [OF tm_listener])
  next
    case TmWait
    show ?thesis
    proof (cases "tv_acc s = TaExit")
      case True
      with inv TmWait show ?thesis by (auto simp: tv_inv_defs intro: main [OF tm_wait])
    qed (rule tv_accept_enabled [OF c TmWait])
  next
    case TmClosed
    then have "0 < (\<Sum>a < tv_next s. tv_weight s a)" using pos ph by (simp add: tv_rank_def tv_phase_def)
    then obtain a where "a < tv_next s" "0 < tv_weight s a" by (metis lessThan_iff neq0_conv sum.neutral)
    with TmClosed show ?thesis by (intro tv_socket_enabled [OF c, of a]) (auto simp: tv_weight_def split: if_splits)
  qed
qed

interpretation tv_shutdown: progress_measure "tv_closing A" tv_own_step "tv_closing A" tv_own_step tv_rank for A
  by unfold_locales (auto intro: tv_own_step_closing tv_own_step_rank tv_own_enabled)

lemma tv_lock_enabled:
  assumes "tv_inv s" and "tv_main s = TmServing"
  shows "\<exists>s0. tv_main_step s s0"
proof -
  have lt: "tv_sockets s \<subseteq> {..<tv_next s}" using assms(1) by (simp add: tv_inv_defs)
  then obtain xs where "set xs = tv_sockets s" "distinct xs"
    using finite_distinct_list [OF finite_subset [OF lt]] by auto
  then have "tv_main_step s (s\<lparr>tv_main := TmCloseSock xs\<rparr>)" using assms(2) by (intro tm_lock) simp_all
  then show ?thesis by blast
qed

lemma tv_lock_closing:
  assumes "tv_inv s" and "tv_main s = TmServing" and "tv_panic s = None" and lock: "tv_main_step s s0"
  shows "tmu_held (tv_main s0) \<and> tv_closing (tv_sockets s) s0"
proof -
  obtain ys where s0: "s0 = s\<lparr>tv_main := TmCloseSock ys\<rparr>" "set ys = tv_sockets s"
    using lock assms(2) by (auto elim: tv_main_step.cases)
  have "tv_inv s0" by (rule tv_main_step_inv [OF lock assms(1)])
  with s0 assms show ?thesis by (auto simp: tv_closing_def tv_phase_def tv_listed_def tv_inv_defs)
qed

definition tv_closed :: "nat set \<Rightarrow> tcp_server \<Rightarrow> bool" where
  "tv_closed A t \<longleftrightarrow> tv_main t = TmClosed \<and> tv_acc t = TaExit \<and> (\<forall>a \<in> A. tcp_Close_returns (tv_store t a))"

lemma tv_closing_closed: "tv_closing A t \<Longrightarrow> tv_main t = TmClosed \<Longrightarrow> tv_closed A t"
  by (simp add: tv_closed_def tv_closing_def tv_phase_def tv_listed_def)

lemma tv_rank_closed: "tv_closing A t \<Longrightarrow> tv_rank t = 0 \<Longrightarrow> tv_main t = TmClosed"
  by (cases "tv_main t") (auto simp: tv_closing_def tv_phase_def tv_rank_def)

section \<open>Properties\<close>

text \<open>C6.
  \<open>TCPServer.Close\<close> completes: from any state in which the server serves, \<open>Close\<close> can take the mutex, and from then on every run of the
  server's own goroutines in which no write fails is finite and ends with its return, wherever the accept goroutine and the sockets were and in
  whatever order the table is ranged over; the accept goroutine is gone and every socket that was in the table has ended both its loops.
\<close>

theorem tcp_server_close_completes:
  assumes "reachable tv_init tv_step s" and "tv_main s = TmServing" and "tv_panic s = None"
  shows "(\<exists>s0. tv_main_step s s0) \<and> (\<forall>s0. tv_main_step s s0 \<longrightarrow> tmu_held (tv_main s0) \<and>
    runs_end tv_own_step (\<lambda>t. tv_main t = TmClosed \<and> tv_acc t = TaExit
      \<and> (\<forall>a \<in> tv_sockets s. tcp_Close_returns (tv_store t a))) s0)"
proof (intro conjI allI impI)
  have inv: "tv_inv s" by (rule tv_sys.inv_reachable [OF assms(1)])
  show "\<exists>s0. tv_main_step s s0" by (rule tv_lock_enabled [OF inv assms(2)])
  fix s0 assume "tv_main_step s s0"
  note start = tv_lock_closing [OF inv assms(2,3) this]
  then show "tmu_held (tv_main s0)" by simp
  show "runs_end tv_own_step (\<lambda>t. tv_main t = TmClosed \<and> tv_acc t = TaExit
      \<and> (\<forall>a \<in> tv_sockets s. tcp_Close_returns (tv_store t a))) s0"
    unfolding tv_closed_def [symmetric]
    by (rule tv_shutdown.every_run_ends [OF conjunct2 [OF start]]) (rule tv_closing_closed, assumption, rule tv_rank_closed)
qed

theorem tcp_server_close_completes_witness:
  "\<exists>s0 t. tv_main_step NewTCPServer s0 \<and> steps tv_own_step s0 t \<and> tv_main t = TmClosed"
proof -
  have "tv_main NewTCPServer = TmServing" "tv_panic NewTCPServer = None" by (simp_all add: NewTCPServer_def)
  note closes = tcp_server_close_completes [OF tv_reach_new this]
  obtain s0 where s0: "tv_main_step NewTCPServer s0" using closes by blast
  with closes have "runs_end tv_own_step (\<lambda>t. tv_main t = TmClosed \<and> tv_acc t = TaExit
      \<and> (\<forall>a \<in> tv_sockets NewTCPServer. tcp_Close_returns (tv_store t a))) s0" by simp
  from runs_end_reaches [OF this] s0 show ?thesis by blast
qed

end
