(* ===== verification/Xcommon.thy ===== *)
theory Xcommon
  imports Gotu_Prelude
begin

text \<open>
  The helpers of \<open>pkg/xcommon\<close>: the wait group whose \<open>Done\<close> is deferred and passes panics on (\<open>wait_group.go\<close>), the casts
  between strings and byte slices that share memory (\<open>cast.go\<close>), and the printer of tables (\<open>table.go\<close>). The
  division of \<open>math.go\<close> is with its use in \<open>Tun_Snmp\<close>.
\<close>

section \<open>Wait groups\<close>

text \<open>The counter of \<open>sync.WaitGroup\<close>; it panics when it would become negative.\<close>

record WaitGroup =
  wg_count :: int

definition wg_new :: WaitGroup where
  "wg_new = \<lparr>wg_count = 0\<rparr>"

definition wg_Add :: "int \<Rightarrow> WaitGroup \<Rightarrow> WaitGroup go" where
  "wg_Add n wg = (if wg_count wg + n < 0 then Panic NegativeWaitGroup else Ret (wg\<lparr>wg_count := wg_count wg + n\<rparr>))"

text \<open>
  \<open>Done\<close> runs as a deferred call: \<open>r\<close> is what \<open>recover\<close> gives, the panic the goroutine is in. It is logged and
  raised again, and then the counter stays as it is.
\<close>

definition wg_Done :: "go_panic option \<Rightarrow> WaitGroup \<Rightarrow> WaitGroup go" where
  "wg_Done r wg = (case r of Some p \<Rightarrow> Panic p | None \<Rightarrow> wg_Add (-1) wg)"

definition wg_Wait_returns :: "WaitGroup \<Rightarrow> bool" where
  "wg_Wait_returns wg \<longleftrightarrow> wg_count wg = 0"

text \<open>\<open>defer Recover(ctx)\<close> of the main functions.\<close>

definition Recover :: "go_panic option \<Rightarrow> unit go" where
  "Recover r = (case r of Some p \<Rightarrow> Panic p | None \<Rightarrow> Ret ())"

text \<open>A function with a deferred call, which is given the panic the function ended in.\<close>

definition go_defer :: "'a go \<Rightarrow> (go_panic option \<Rightarrow> 'b go) \<Rightarrow> 'b go" where
  "go_defer body deferred = (case body of Ret x \<Rightarrow> deferred None | Panic p \<Rightarrow> deferred (Some p))"

lemma go_defer_simps [simp]:
  "go_defer (Ret x) d = d None" "go_defer (Panic p) d = d (Some p)"
  by (simp_all add: go_defer_def)

text \<open>
  A goroutine with \<open>defer wg.Done(ctx)\<close> never hides a panic of its body, and counts down only when there was none.
\<close>

theorem goroutine_panics_on:
  "go_defer body (\<lambda>r. wg_Done r wg) =
     (case body of Panic p \<Rightarrow> Panic p
      | Ret x \<Rightarrow> if wg_count wg \<le> 0 then Panic NegativeWaitGroup else Ret (wg\<lparr>wg_count := wg_count wg - 1\<rparr>))"
  by (cases body) (simp_all add: wg_Done_def wg_Add_def)

section \<open>Casts\<close>

text \<open>
  Memory, and the headers of a string and of a slice. The casts copy the address.
\<close>

type_synonym heap = "nat \<Rightarrow> byte"

record StringHeader =
  sh_Data :: nat
  sh_Len :: nat

record SliceHeader =
  bh_Data :: nat
  bh_Len :: nat
  bh_Cap :: nat

definition StringToBytes :: "StringHeader \<Rightarrow> SliceHeader" where
  "StringToBytes str = \<lparr>bh_Data = sh_Data str, bh_Len = sh_Len str, bh_Cap = sh_Len str\<rparr>"

definition BytesToString :: "SliceHeader \<Rightarrow> StringHeader" where
  "BytesToString b = \<lparr>sh_Data = bh_Data b, sh_Len = bh_Len b\<rparr>"

text \<open>What a header shows of the memory, and the assignment \<open>b[i] = v\<close>.\<close>

definition string_at :: "heap \<Rightarrow> StringHeader \<Rightarrow> bytes" where
  "string_at h s = map (\<lambda>i. h (sh_Data s + i)) [0..<sh_Len s]"

definition bytes_at :: "heap \<Rightarrow> SliceHeader \<Rightarrow> bytes" where
  "bytes_at h b = map (\<lambda>i. h (bh_Data b + i)) [0..<bh_Len b]"

definition set_byte :: "SliceHeader \<Rightarrow> nat \<Rightarrow> byte \<Rightarrow> heap \<Rightarrow> heap go" where
  "set_byte b i v h = (if i < bh_Len b then Ret (h(bh_Data b + i := v)) else Panic SliceBounds)"

text \<open>
  \<open>append(b, xs...)\<close>: in place where the capacity allows it, else into memory of its own, here from \<open>free\<close> on.
\<close>

definition append_bytes :: "nat \<Rightarrow> SliceHeader \<Rightarrow> bytes \<Rightarrow> heap \<Rightarrow> SliceHeader \<times> heap" where
  "append_bytes free b xs h =
     (if bh_Len b + length xs \<le> bh_Cap b
      then (b\<lparr>bh_Len := bh_Len b + length xs\<rparr>,
            \<lambda>a. if bh_Data b + bh_Len b \<le> a \<and> a < bh_Data b + bh_Len b + length xs then xs ! (a - bh_Data b - bh_Len b) else h a)
      else (\<lparr>bh_Data = free, bh_Len = bh_Len b + length xs, bh_Cap = bh_Len b + length xs\<rparr>,
            \<lambda>a. if free \<le> a \<and> a < free + bh_Len b + length xs then (bytes_at h b @ xs) ! (a - free) else h a))"

text \<open>
  The casts keep the contents, both ways, and share the memory: an assignment through the slice changes the string, which
  the language takes to be constant, at exactly that place. An append to the slice never does, as its capacity is its
  length.
\<close>

theorem cast_shares_memory:
  "bytes_at h (StringToBytes s) = string_at h s"
  "string_at h (BytesToString b) = bytes_at h b"
  "BytesToString (StringToBytes s) = s"
  "i < sh_Len s \<Longrightarrow> \<exists>h'. set_byte (StringToBytes s) i v h = Ret h' \<and> string_at h' s = (string_at h s)[i := v]"
  "sh_Data s + sh_Len s \<le> free \<Longrightarrow> append_bytes free (StringToBytes s) xs h = (b', h') \<Longrightarrow>
     string_at h' s = string_at h s \<and> bytes_at h' b' = string_at h s @ xs"
proof -
  show "bytes_at h (StringToBytes s) = string_at h s" "string_at h (BytesToString b) = bytes_at h b"
    "BytesToString (StringToBytes s) = s"
    by (simp_all add: bytes_at_def string_at_def StringToBytes_def BytesToString_def)
  show "\<exists>h'. set_byte (StringToBytes s) i v h = Ret h' \<and> string_at h' s = (string_at h s)[i := v]" if "i < sh_Len s"
    using that by (auto simp: set_byte_def StringToBytes_def string_at_def nth_list_update intro!: nth_equalityI)
  show "string_at h' s = string_at h s \<and> bytes_at h' b' = string_at h s @ xs"
    if "sh_Data s + sh_Len s \<le> free" "append_bytes free (StringToBytes s) xs h = (b', h')"
  proof (cases "xs = []")
    case True
    with that show ?thesis by (auto simp: append_bytes_def StringToBytes_def string_at_def bytes_at_def)
  next
    case False
    with that show ?thesis
      by (auto simp: append_bytes_def StringToBytes_def string_at_def bytes_at_def nth_append intro!: nth_equalityI)
  qed
qed

section \<open>Tables\<close>

text \<open>
  \<open>printTable\<close>, over \<open>gotable\<close>: \<open>create\<close> is \<open>CreateSafeTable\<close>, \<open>addRow\<close> its \<open>AddRow\<close>. The result is the table printed, or
  the first error, and then nothing is printed.
\<close>

fun add_rows :: "('t \<Rightarrow> string list \<Rightarrow> go_error + 't) \<Rightarrow> 't \<Rightarrow> string list list \<Rightarrow> go_error + 't" where
  "add_rows addRow table [] = Inr table"
| "add_rows addRow table (vs # vals) =
     (case addRow table vs of Inl err \<Rightarrow> Inl err | Inr table \<Rightarrow> add_rows addRow table vals)"

definition printTable :: "(string list \<Rightarrow> go_error + 't) \<Rightarrow> ('t \<Rightarrow> string list \<Rightarrow> go_error + 't) \<Rightarrow>
    string list \<Rightarrow> string list list \<Rightarrow> go_error + 't" where
  "printTable create addRow keys vals =
     (case create keys of Inl err \<Rightarrow> Inl err | Inr table \<Rightarrow> add_rows addRow table vals)"

text \<open>\<open>PrintTable\<close> logs the error; what it prints is at most one table.\<close>

definition PrintTable :: "(string list \<Rightarrow> go_error + 't) \<Rightarrow> ('t \<Rightarrow> string list \<Rightarrow> go_error + 't) \<Rightarrow>
    string list \<Rightarrow> string list list \<Rightarrow> 't list" where
  "PrintTable create addRow keys vals =
     (case printTable create addRow keys vals of Inl err \<Rightarrow> [] | Inr table \<Rightarrow> [table])"

text \<open>With a table that takes the rows of the width of its keys, everything is printed when every row has that width, else nothing.\<close>

theorem PrintTable_all_or_nothing:
  assumes "\<And>ks. create ks = Inr (ks, [])"
    and "\<And>ks rows vs. addRow (ks, rows) vs = (if length vs = length ks then Inr (ks, rows @ [vs]) else Inl err)"
  shows "PrintTable create addRow keys vals =
    (if list_all (\<lambda>vs. length vs = length keys) vals then [(keys, vals)] else [])"
proof -
  have "add_rows addRow (keys, rows) vals =
      (if list_all (\<lambda>vs. length vs = length keys) vals then Inr (keys, rows @ vals) else Inl err)" for rows
    by (induction vals arbitrary: rows) (simp_all add: assms(2))
  then show ?thesis by (simp add: PrintTable_def printTable_def assms(1))
qed

end
