(* ===== verification/Server_Program.thy ===== *)
theory Server_Program
  imports Udp_Server_Close Tcp_Server_Close Xcommon
begin

text \<open>
  The \<open>main\<close> functions of the servers \<open>cmd/udp_svr/main.go\<close>, \<open>cmd/udp_tun/main.go\<close> and \<open>cmd/tcp_svr/main.go\<close> from the start of the
  server on, with \<open>UntilSignal\<close> of \<open>pkg/xcommon/signal.go\<close>: they make the server, wait for a signal, and the deferred calls close
  the server and pass a panic on. They have one shape, a step relation over the server; the servers are those of
  \<open>Udp_Server\<close> and \<open>Tcp_Server\<close>, and their goroutines run beside \<open>main\<close>.
\<close>

section \<open>Signals\<close>

text \<open>What happens to a program while it waits: a signal, by its number, or the end of the context it was given.\<close>

datatype main_event = SignalEv nat | CtxDone

definition SIGINT :: nat where "SIGINT = 2"
definition SIGTERM :: nat where "SIGTERM = 15"

text \<open>
  \<open>UntilSignal\<close>: \<open>None\<close> while it waits, else what comes after. \<open>signal.NotifyContext\<close> is told of two signals; what another one does
  to the process is not its concern.
\<close>

fun UntilSignal :: "main_event list \<Rightarrow> main_event list option" where
  "UntilSignal [] = None"
| "UntilSignal (CtxDone # evs) = Some evs"
| "UntilSignal (SignalEv n # evs) = (if n = SIGINT \<or> n = SIGTERM then Some evs else UntilSignal evs)"

lemma UntilSignal_waits:
  "UntilSignal evs = None \<longleftrightarrow> CtxDone \<notin> set evs \<and> SignalEv SIGINT \<notin> set evs \<and> SignalEv SIGTERM \<notin> set evs"
  by (induction evs rule: UntilSignal.induct) auto

section \<open>The program\<close>

text \<open>
  \<open>main\<close>: about to listen, in the constructor of the server, in \<open>UntilSignal\<close>, in the deferred \<open>svr.Close\<close>, returned, and ended by a
  panic, its own or a goroutine's.
\<close>

datatype sp_pc = SpListen | SpStart | SpSignal | SpClose | SpReturned | SpPanic go_panic

record 's server_prog =
  sp_pc :: sp_pc
  sp_svr :: 's

definition prog_init :: "('s \<Rightarrow> bool) \<Rightarrow> 's server_prog \<Rightarrow> bool" where
  "prog_init new p \<longleftrightarrow> sp_pc p = SpListen \<and> new (sp_svr p)"

definition sp_running :: "sp_pc \<Rightarrow> bool" where
  "sp_running pc \<longleftrightarrow> pc = SpStart \<or> pc = SpSignal \<or> pc = SpClose"

text \<open>
  \<open>call\<close>: the steps of the server's constructor and its \<open>Close\<close>, which \<open>main\<close> runs; \<open>go\<close>: the server's goroutines; \<open>serving\<close> and \<open>closed\<close>: the
  constructor, and \<open>Close\<close>, has returned; \<open>panics\<close>: some goroutine has panicked, which ends the process. \<open>Recover\<close> is the first deferred
  call and so the last to run; it logs a panic and raises it again.
\<close>

inductive prog_step :: "('s \<Rightarrow> 's \<Rightarrow> bool) \<Rightarrow> ('s \<Rightarrow> 's \<Rightarrow> bool) \<Rightarrow> ('s \<Rightarrow> bool) \<Rightarrow> ('s \<Rightarrow> bool) \<Rightarrow> ('s \<Rightarrow> go_panic \<Rightarrow> bool) \<Rightarrow>
    main_event list \<Rightarrow> 's server_prog \<Rightarrow> 's server_prog \<Rightarrow> bool"
  for call go serving closed panics evs where
  sp_fail: "sp_pc p = SpListen \<Longrightarrow> go_defer (Panic err :: unit go) Recover = Panic x \<Longrightarrow>
    prog_step call go serving closed panics evs p (p\<lparr>sp_pc := SpPanic x\<rparr>)"
| sp_listen: "sp_pc p = SpListen \<Longrightarrow> prog_step call go serving closed panics evs p (p\<lparr>sp_pc := SpStart\<rparr>)"
| sp_start: "sp_pc p = SpStart \<Longrightarrow> \<not> serving (sp_svr p) \<Longrightarrow> call (sp_svr p) t \<Longrightarrow>
    prog_step call go serving closed panics evs p (p\<lparr>sp_svr := t\<rparr>)"
| sp_started: "sp_pc p = SpStart \<Longrightarrow> serving (sp_svr p) \<Longrightarrow> prog_step call go serving closed panics evs p (p\<lparr>sp_pc := SpSignal\<rparr>)"
| sp_goroutine: "sp_running (sp_pc p) \<Longrightarrow> go (sp_svr p) t \<Longrightarrow> prog_step call go serving closed panics evs p (p\<lparr>sp_svr := t\<rparr>)"
| sp_signal: "sp_pc p = SpSignal \<Longrightarrow> UntilSignal evs = Some rest \<Longrightarrow>
    prog_step call go serving closed panics evs p (p\<lparr>sp_pc := SpClose\<rparr>)"
| sp_close: "sp_pc p = SpClose \<Longrightarrow> \<not> closed (sp_svr p) \<Longrightarrow> call (sp_svr p) t \<Longrightarrow>
    prog_step call go serving closed panics evs p (p\<lparr>sp_svr := t\<rparr>)"
| sp_return: "sp_pc p = SpClose \<Longrightarrow> closed (sp_svr p) \<Longrightarrow> go_defer (Ret ()) Recover = Ret () \<Longrightarrow>
    prog_step call go serving closed panics evs p (p\<lparr>sp_pc := SpReturned\<rparr>)"
| sp_panic: "sp_running (sp_pc p) \<Longrightarrow> panics (sp_svr p) x \<Longrightarrow>
    prog_step call go serving closed panics evs p (p\<lparr>sp_pc := SpPanic x\<rparr>)"

text \<open>
  After the signal: the deferred calls and what the server does of its own, \<open>own\<close>, with nothing new from outside; the first step is
  \<open>Close\<close>'s.
\<close>

inductive prog_own_step :: "('s \<Rightarrow> 's \<Rightarrow> bool) \<Rightarrow> ('s \<Rightarrow> 's \<Rightarrow> bool) \<Rightarrow> ('s \<Rightarrow> bool) \<Rightarrow> ('s \<Rightarrow> bool) \<Rightarrow>
    's server_prog \<Rightarrow> 's server_prog \<Rightarrow> bool"
  for call own serving closed where
  po_lock: "sp_pc p = SpClose \<Longrightarrow> serving (sp_svr p) \<Longrightarrow> call (sp_svr p) t \<Longrightarrow>
    prog_own_step call own serving closed p (p\<lparr>sp_svr := t\<rparr>)"
| po_server: "sp_pc p = SpClose \<Longrightarrow> \<not> serving (sp_svr p) \<Longrightarrow> own (sp_svr p) t \<Longrightarrow>
    prog_own_step call own serving closed p (p\<lparr>sp_svr := t\<rparr>)"
| po_return: "sp_pc p = SpClose \<Longrightarrow> closed (sp_svr p) \<Longrightarrow> prog_own_step call own serving closed p (p\<lparr>sp_pc := SpReturned\<rparr>)"

inductive_cases prog_own_stepE: "prog_own_step call own serving closed p q"

section \<open>The contract\<close>

text \<open>
  What a program relies on in a server: an invariant; that from a serving server \<open>Close\<close> can begin, and once it has begun a measure counts
  every step of the server's own down to its return; \<open>closing s\<close> is what holds after a \<open>Close\<close> that began in \<open>s\<close>.
\<close>

locale closable_server =
  fixes call :: "'s \<Rightarrow> 's \<Rightarrow> bool"
    and go :: "'s \<Rightarrow> 's \<Rightarrow> bool"
    and own :: "'s \<Rightarrow> 's \<Rightarrow> bool"
    and serving :: "'s \<Rightarrow> bool"
    and closed :: "'s \<Rightarrow> bool"
    and new :: "'s \<Rightarrow> bool"
    and inv :: "'s \<Rightarrow> bool"
    and calm :: "'s \<Rightarrow> bool"
    and closing :: "'s \<Rightarrow> 's \<Rightarrow> bool"
    and msr :: "'s \<Rightarrow> nat"
  assumes new_inv: "new s \<Longrightarrow> inv s"
    and call_inv: "inv s \<Longrightarrow> call s t \<Longrightarrow> inv t"
    and go_inv: "inv s \<Longrightarrow> go s t \<Longrightarrow> inv t \<and> (serving s \<longrightarrow> serving t)"
    and own_sys: "own s t \<Longrightarrow> call s t \<and> \<not> closed s \<or> go s t"
    and lock_enabled: "inv s \<Longrightarrow> serving s \<Longrightarrow> calm s \<Longrightarrow> \<exists>t. call s t"
    and lock_closing: "inv s \<Longrightarrow> serving s \<Longrightarrow> calm s \<Longrightarrow> call s t \<Longrightarrow> closing s t"
    and serving_open: "serving s \<Longrightarrow> \<not> closed s"
    and closing_begun: "closing r s \<Longrightarrow> \<not> serving s"
    and own_closing: "closing r s \<Longrightarrow> own s t \<Longrightarrow> closing r t \<and> msr t < msr s"
    and own_enabled: "closing r s \<Longrightarrow> 0 < msr s \<Longrightarrow> \<exists>t. own s t"
    and msr_closed: "closing r s \<Longrightarrow> msr s = 0 \<Longrightarrow> closed s"
begin

definition main_inv :: "main_event list \<Rightarrow> 's server_prog \<Rightarrow> bool" where
  "main_inv evs p \<longleftrightarrow> inv (sp_svr p) \<and> (sp_pc p = SpSignal \<longrightarrow> serving (sp_svr p))
     \<and> (sp_pc p = SpClose \<or> sp_pc p = SpReturned \<longrightarrow> UntilSignal evs \<noteq> None)"

lemma main_step_inv: "prog_step call go serving closed panics evs p q \<Longrightarrow> main_inv evs p \<Longrightarrow> main_inv evs q"
  by (induction rule: prog_step.induct) (auto simp: main_inv_def dest: call_inv go_inv)

lemma main_reachable: "reachable (prog_init new) (prog_step call go serving closed panics evs) p \<Longrightarrow> main_inv evs p"
  by (induction rule: reachable.induct) (auto simp: main_inv_def prog_init_def intro: new_inv dest: main_step_inv [unfolded main_inv_def])

lemma main_steps_inv: "steps (prog_step call go serving closed panics evs) p q \<Longrightarrow> main_inv evs p \<Longrightarrow> main_inv evs q"
  by (induction rule: steps.induct) (auto intro: main_step_inv)

text \<open>The steps after the signal are steps of the program.\<close>

lemma own_step_sys:
  "prog_own_step call own serving closed p q \<Longrightarrow> prog_step call go serving closed panics evs p q"
proof (induction rule: prog_own_step.induct)
  case (po_lock p t)
  then show ?case by (intro sp_close) (auto dest: serving_open)
next
  case (po_server p t)
  from own_sys [OF po_server(3)] show ?case
  proof
    assume "call (sp_svr p) t \<and> \<not> closed (sp_svr p)"
    with po_server(1) show ?thesis by (intro sp_close) simp_all
  next
    assume "go (sp_svr p) t"
    with po_server(1) show ?thesis by (intro sp_goroutine) (simp_all add: sp_running_def)
  qed
next
  case (po_return p)
  then show ?case by (intro sp_return) (simp_all add: Recover_def)
qed

definition main_closing :: "'s \<Rightarrow> 's server_prog \<Rightarrow> bool" where
  "main_closing r p \<longleftrightarrow> closing r (sp_svr p) \<and> (sp_pc p = SpClose \<or> sp_pc p = SpReturned \<and> closed (sp_svr p))"

definition main_rank :: "'s server_prog \<Rightarrow> nat" where
  "main_rank p = (if sp_pc p = SpReturned then 0 else 1 + msr (sp_svr p))"

lemma main_closing_step:
  "main_closing r p \<Longrightarrow> prog_own_step call own serving closed p q \<Longrightarrow> main_closing r q \<and> main_rank q < main_rank p"
  using own_closing closing_begun by (auto elim!: prog_own_stepE simp: main_closing_def main_rank_def)

lemma main_closing_enabled:
  assumes "main_closing r p" and "0 < main_rank p"
  shows "\<exists>q. prog_own_step call own serving closed p q"
proof (cases "msr (sp_svr p) = 0")
  case True
  with assms msr_closed [of r "sp_svr p"] show ?thesis by (auto simp: main_closing_def main_rank_def intro: po_return)
next
  case False
  with assms own_enabled [of r "sp_svr p"] closing_begun [of r "sp_svr p"] show ?thesis
    by (auto simp: main_closing_def main_rank_def intro: po_server)
qed

lemma main_closing_ends:
  "main_closing r p \<Longrightarrow>
     runs_end (prog_own_step call own serving closed) (\<lambda>q. sp_pc q = SpReturned \<and> closing r (sp_svr q) \<and> closed (sp_svr q)) p"
proof (induction "main_rank p" arbitrary: p rule: less_induct)
  case less
  show ?case
  proof (rule runs_end.runs_endI)
    show "runs_end (prog_own_step call own serving closed) (\<lambda>q. sp_pc q = SpReturned \<and> closing r (sp_svr q) \<and> closed (sp_svr q)) q"
      if "prog_own_step call own serving closed p q" for q
      using main_closing_step [OF less.prems that] by (intro less.hyps) simp_all
    have "main_rank p = 0" if "\<forall>q. \<not> prog_own_step call own serving closed p q"
      using main_closing_enabled [OF less.prems] that by blast
    then show "(\<forall>q. \<not> prog_own_step call own serving closed p q) \<longrightarrow> sp_pc p = SpReturned \<and> closing r (sp_svr p) \<and> closed (sp_svr p)"
      using less.prems by (auto simp: main_rank_def main_closing_def split: if_splits)
  qed
qed

theorem ends_on_signal:
  assumes "reachable (prog_init new) (prog_step call go serving closed panics evs) p" and "sp_pc p = SpSignal" and "calm (sp_svr p)"
  shows "if SignalEv SIGINT \<in> set evs \<or> SignalEv SIGTERM \<in> set evs \<or> CtxDone \<in> set evs
    then prog_step call go serving closed panics evs p (p\<lparr>sp_pc := SpClose\<rparr>)
      \<and> runs_end (prog_own_step call own serving closed)
          (\<lambda>q. sp_pc q = SpReturned \<and> closing (sp_svr p) (sp_svr q) \<and> closed (sp_svr q)) (p\<lparr>sp_pc := SpClose\<rparr>)
    else \<forall>q. steps (prog_step call go serving closed panics evs) p q \<longrightarrow> sp_pc q \<notin> {SpClose, SpReturned}"
proof (cases "UntilSignal evs")
  let ?p = "p\<lparr>sp_pc := SpClose\<rparr>" and ?s = "sp_svr p"
  have inv: "main_inv evs p" by (rule main_reachable [OF assms(1)])
  then have s: "inv ?s" "serving ?s" using assms(2) by (simp_all add: main_inv_def)
  {
    case None
    have "sp_pc q \<notin> {SpClose, SpReturned}" if "steps (prog_step call go serving closed panics evs) p q" for q
      using main_steps_inv [OF that inv] None by (auto simp: main_inv_def)
    with None show ?thesis by (simp add: UntilSignal_waits)
  next
    case (Some rest)
    have "runs_end (prog_own_step call own serving closed)
        (\<lambda>q. sp_pc q = SpReturned \<and> closing ?s (sp_svr q) \<and> closed (sp_svr q)) ?p"
    proof (rule runs_end.runs_endI)
      fix q assume "prog_own_step call own serving closed ?p q"
      then obtain t where "q = ?p\<lparr>sp_svr := t\<rparr>" "call ?s t" using s serving_open by (auto elim!: prog_own_stepE)
      with lock_closing [OF s assms(3)] have "main_closing ?s q" by (simp add: main_closing_def)
      then show "runs_end (prog_own_step call own serving closed)
          (\<lambda>q. sp_pc q = SpReturned \<and> closing ?s (sp_svr q) \<and> closed (sp_svr q)) q" by (rule main_closing_ends)
    next
      obtain t where "call (sp_svr ?p) t" using lock_enabled [OF s assms(3)] by auto
      then have "prog_own_step call own serving closed ?p (?p\<lparr>sp_svr := t\<rparr>)" using s(2) by (intro po_lock) simp_all
      then show "(\<forall>q. \<not> prog_own_step call own serving closed ?p q) \<longrightarrow> sp_pc ?p = SpReturned \<and> closing ?s (sp_svr ?p) \<and> closed (sp_svr ?p)"
        by blast
    qed
    moreover have "prog_step call go serving closed panics evs p ?p" using assms(2) Some by (rule sp_signal)
    ultimately show ?thesis using Some UntilSignal_waits [of evs] by auto
  }
qed

end

section \<open>The UDP programs\<close>










section \<open>The TCP program\<close>

definition tv_panics :: "tcp_server \<Rightarrow> go_panic \<Rightarrow> bool" where
  "tv_panics s x \<longleftrightarrow> tv_panic s = Some x \<or> (\<exists>a < tv_next s. ts_panic (tv_store s a) = Some x)"

inductive tv_goroutine_step :: "tcp_server \<Rightarrow> tcp_server \<Rightarrow> bool" where
  tgo_accept: "tv_panic s = None \<Longrightarrow> tv_accept_step s t \<Longrightarrow> tv_goroutine_step s t"
| tgo_socket: "tv_panic s = None \<Longrightarrow> tv_socket_step s t \<Longrightarrow> tv_goroutine_step s t"

definition tv_call :: "tcp_server \<Rightarrow> tcp_server \<Rightarrow> bool" where
  "tv_call s t \<longleftrightarrow> tv_panic s = None \<and> tv_main_step s t"

definition tcp_prog_step :: "main_event list \<Rightarrow> tcp_server server_prog \<Rightarrow> tcp_server server_prog \<Rightarrow> bool" where
  "tcp_prog_step = prog_step tv_call tv_goroutine_step (\<lambda>s. tv_main s = TmServing) (\<lambda>s. tv_main s = TmClosed) tv_panics"

definition tcp_prog_own_step :: "tcp_server server_prog \<Rightarrow> tcp_server server_prog \<Rightarrow> bool" where
  "tcp_prog_own_step = prog_own_step tv_call tv_own_step (\<lambda>s. tv_main s = TmServing) (\<lambda>s. tv_main s = TmClosed)"

lemma tv_goroutine_step_sys: "tv_goroutine_step s t \<Longrightarrow> tv_step s t"
  by (auto elim!: tv_goroutine_step.cases intro: tv_step.intros)

lemma tv_goroutine_step_main: "tv_goroutine_step s t \<Longrightarrow> tv_main t = tv_main s"
  by (auto elim!: tv_goroutine_step.cases tv_accept_step.cases tv_socket_step.cases
      simp: tcp_addSocket_def tcp_delSocket_def tv_wg_Done_def)

lemma tv_own_parts: "tv_own_step s t \<Longrightarrow> tv_call s t \<and> tv_main s \<noteq> TmClosed \<or> tv_goroutine_step s t"
  by (induction rule: tv_own_step.induct)
    (auto simp: tv_call_def elim!: tcp_join_step.cases intro: tv_goroutine_step.intros tv_socket_step.intros)

interpretation tcp_prog: closable_server tv_call tv_goroutine_step tv_own_step
    "\<lambda>s. tv_main s = TmServing" "\<lambda>s. tv_main s = TmClosed" tv_init tv_inv "\<lambda>s. tv_panic s = None" "\<lambda>r. tv_closing (tv_sockets r)" tv_rank
proof
  fix r s t
  show "tv_inv s" if "tv_init s" using that by (rule tv_sys.inv_init)
  show "tv_inv t" if "tv_inv s" "tv_call s t" using that by (auto simp: tv_call_def intro: tv_main_step_inv)
  show "tv_inv t \<and> (tv_main s = TmServing \<longrightarrow> tv_main t = TmServing)" if "tv_inv s" "tv_goroutine_step s t"
    using tv_sys.inv_step [OF that(1) tv_goroutine_step_sys [OF that(2)]] tv_goroutine_step_main [OF that(2)] by simp
  show "tv_call s t \<and> tv_main s \<noteq> TmClosed \<or> tv_goroutine_step s t" if "tv_own_step s t" by (rule tv_own_parts [OF that])
  show "\<exists>t. tv_call s t" if "tv_inv s" "tv_main s = TmServing" "tv_panic s = None"
    using tv_lock_enabled [OF that(1,2)] that(3) by (simp add: tv_call_def)
  show "tv_closing (tv_sockets s) t" if "tv_inv s" "tv_main s = TmServing" "tv_panic s = None" "tv_call s t"
    using tv_lock_closing [OF that(1-3)] that(4) by (simp add: tv_call_def)
  show "tv_main s \<noteq> TmServing" if "tv_closing (tv_sockets r) s" using that by (auto simp: tv_closing_def tv_phase_def)
  show "tv_closing (tv_sockets r) t \<and> tv_rank t < tv_rank s" if "tv_closing (tv_sockets r) s" "tv_own_step s t"
    using that by (blast intro: tv_own_step_closing tv_own_step_rank)
  show "\<exists>t. tv_own_step s t" if "tv_closing (tv_sockets r) s" "0 < tv_rank s" by (rule tv_own_enabled [OF that])
  show "tv_main s = TmClosed" if "tv_closing (tv_sockets r) s" "tv_rank s = 0" by (rule tv_rank_closed [OF that])
qed simp

section \<open>Properties\<close>


text \<open>The TCP echo server, the same way; its sockets end too.\<close>

theorem tcp_program_ends_on_signal:
  assumes "reachable (prog_init tv_init) (tcp_prog_step evs) p" and "sp_pc p = SpSignal" and "tv_panic (sp_svr p) = None"
  shows "if SignalEv SIGINT \<in> set evs \<or> SignalEv SIGTERM \<in> set evs \<or> CtxDone \<in> set evs
    then tcp_prog_step evs p (p\<lparr>sp_pc := SpClose\<rparr>)
      \<and> runs_end tcp_prog_own_step (\<lambda>q. sp_pc q = SpReturned \<and> tv_closed (tv_sockets (sp_svr p)) (sp_svr q)) (p\<lparr>sp_pc := SpClose\<rparr>)
    else \<forall>q. steps (tcp_prog_step evs) p q \<longrightarrow> sp_pc q \<notin> {SpClose, SpReturned}"
  using tcp_prog.ends_on_signal [OF assms(1) [unfolded tcp_prog_step_def] assms(2,3)]
  unfolding tcp_prog_step_def tcp_prog_own_step_def
  by (auto split: if_splits elim!: runs_end_mono intro: tv_closing_closed)




end
