(* ===== verification/Go_Binary.thy ===== *)
theory Go_Binary
  imports Gotu_Prelude
begin

text \<open>
  Go's \<open>encoding/binary\<close> in little endian order, as far as the code uses it: the fixed size
  values it writes and reads (\<open>int32\<close>, \<open>int64\<close>, \<open>bool\<close>), \<open>binary.Read\<close> with its two errors, and
  the contract of a fixed size codec from which the message formats of the repository are
  built.
\<close>

unbundle bit_operations_syntax

section \<open>Little endian words\<close>

definition put_le :: "nat \<Rightarrow> 'a::len word \<Rightarrow> bytes" where
  "put_le n w = map (\<lambda>i. ucast (drop_bit (8 * i) w)) [0..<n]"

fun get_le :: "bytes \<Rightarrow> 'a::len word" where
  "get_le [] = 0"
| "get_le (b # bs) = ucast b OR push_bit 8 (get_le bs)"

lemma length_put_le [simp]: "length (put_le n w) = n"
  by (simp add: put_le_def)

lemma put_le_Suc: "put_le (Suc n) w = ucast w # put_le n (drop_bit 8 w)"
  by (simp add: put_le_def upt_rec [of 0] map_Suc_upt [symmetric] drop_bit_drop_bit
      del: upt_Suc) (simp add: add.commute)

lemma put_le_0 [simp]: "put_le 0 w = []"
  by (simp add: put_le_def)

lemma get_put_le: "get_le (put_le n w) = take_bit (8 * n) w"
proof (induction n arbitrary: w)
  case 0
  then show ?case by simp
next
  case (Suc n)
  show ?case
    by (rule bit_word_eqI)
      (auto simp: put_le_Suc Suc.IH bit_simps not_less le_less_trans)
qed

lemma get_put_le32 [simp]: "get_le (put_le 4 (w :: 32 word)) = w"
  using take_bit_length_eq [of w] by (simp add: get_put_le)

lemma get_put_le64 [simp]: "get_le (put_le 8 (w :: 64 word)) = w"
  using take_bit_length_eq [of w] by (simp add: get_put_le)

lemma put_get_le:
  "8 * length bs \<le> LENGTH('a) \<Longrightarrow> put_le (length bs) (get_le bs :: 'a::len word) = bs"
proof (induction bs)
  case Nil
  then show ?case by simp
next
  case (Cons b bs)
  let ?r = "get_le bs :: 'a word"
  have low: "ucast (ucast b OR push_bit 8 ?r) = b"
    using Cons.prems by (intro bit_word_eqI) (auto simp: bit_simps)
  have high: "put_le (length bs) (drop_bit 8 (ucast b OR push_bit 8 ?r)) = put_le (length bs) ?r"
    unfolding put_le_def
  proof (intro map_cong refl)
    fix i assume "i \<in> set [0..<length bs]"
    with Cons.prems have "8 * i + 16 \<le> LENGTH('a)" by auto
    then show "(ucast (drop_bit (8 * i) (drop_bit 8 (ucast b OR push_bit 8 ?r))) :: 8 word)
        = ucast (drop_bit (8 * i) ?r)"
      by (intro bit_word_eqI) (auto simp: bit_simps dest: bit_imp_le_length)
  qed
  have "put_le (Suc (length bs)) (get_le (b # bs) :: 'a word) = b # put_le (length bs) ?r"
    by (simp only: get_le.simps put_le_Suc low high)
  also have "\<dots> = b # bs"
    using Cons by simp
  finally show ?case by (simp only: length_Cons)
qed

lemma put_get_le32: "length bs = 4 \<Longrightarrow> put_le 4 (get_le bs :: 32 word) = bs"
  using put_get_le [of bs, where 'a = 32] by simp

lemma put_get_le64: "length bs = 8 \<Longrightarrow> put_le 8 (get_le bs :: 64 word) = bs"
  using put_get_le [of bs, where 'a = 64] by simp

section \<open>bool\<close>

text \<open>\<open>bool\<close> is written as one byte, 1 or 0; every byte but 0 reads as true.\<close>

definition put_bool :: "bool \<Rightarrow> bytes" where
  "put_bool b = [if b then 1 else 0]"

fun get_bool :: "bytes \<Rightarrow> bool" where
  "get_bool [] = False"
| "get_bool (b # bs) = (b \<noteq> 0)"

section \<open>binary.Read\<close>

text \<open>
  \<open>binary.Read\<close> reads the size of its target with \<open>io.ReadFull\<close>: \<open>EOF\<close> when there is no byte at
  all, \<open>ErrUnexpectedEOF\<close> when there are some but not enough, and it leaves the rest unread.
\<close>

definition binary_read :: "nat \<Rightarrow> (bytes \<Rightarrow> 'a) \<Rightarrow> bytes \<Rightarrow> go_error + 'a" where
  "binary_read sz dec msg =
     (if length msg < sz then Inl (if msg = [] then IoEOF else IoUnexpectedEOF)
      else Inr (dec (take sz msg)))"

section \<open>Fixed size codecs\<close>

text \<open>
  What every message format of the repository relies on: the encoding has a fixed size, and
  decoding gives back what was encoded.
\<close>

locale fixed_codec =
  fixes enc :: "'a \<Rightarrow> bytes"
    and dec :: "bytes \<Rightarrow> 'a"
    and sz :: nat
  assumes enc_length: "length (enc x) = sz"
    and dec_enc: "dec (enc x) = x"
begin

lemma enc_inj: "enc x = enc y \<longleftrightarrow> x = y"
  using dec_enc by metis

lemma read_enc: "binary_read sz dec (enc x @ rest) = Inr x"
  by (simp add: binary_read_def enc_length dec_enc)

lemma read_enc_exact: "binary_read sz dec (enc x) = Inr x"
  using read_enc [of x "[]"] by simp

lemma enc_prefix_free: "enc x @ r = enc y @ r' \<Longrightarrow> x = y \<and> r = r'"
  using enc_inj by (simp add: enc_length)

lemma read_stream:
  "binary_read sz dec (enc x @ enc y) = Inr x"
  "binary_read sz dec (drop sz (enc x @ enc y)) = Inr y"
  using enc_length read_enc read_enc_exact by simp_all

lemma read_prefix: "binary_read sz dec msg = Inr x \<Longrightarrow> binary_read sz dec (msg @ more) = Inr x"
  by (auto simp: binary_read_def split: if_splits)

end

text \<open>A codec whose every byte string of the right size is an encoding.\<close>

locale exact_codec = fixed_codec +
  assumes enc_dec: "length bs = sz \<Longrightarrow> enc (dec bs) = bs"
begin

lemma dec_inj:
  "length a = sz \<Longrightarrow> length b = sz \<Longrightarrow> dec a = dec b \<longleftrightarrow> a = b"
  using enc_dec by metis

lemma read_complete: "sz \<le> length msg \<Longrightarrow>
    \<exists>x. binary_read sz dec msg = Inr x \<and> msg = enc x @ drop sz msg"
  using enc_dec [of "take sz msg"] by (auto simp: binary_read_def)

end

interpretation le32: exact_codec "put_le 4 :: 32 word \<Rightarrow> bytes" get_le 4
  by unfold_locales (auto intro: put_get_le32)

interpretation le64: exact_codec "put_le 8 :: 64 word \<Rightarrow> bytes" get_le 8
  by unfold_locales (auto intro: put_get_le64)

interpretation lebool: fixed_codec put_bool get_bool 1
  by unfold_locales (auto simp: put_bool_def)

end
