(* ===== verification/Kcp_Mux.thy ===== *)
theory Kcp_Mux
  imports Go_Binary Stream_Read Go_Strings
begin

text \<open>
  The multiplexer of \<open>pkg/xnet/kcp_mux.go\<close>: on a KCP stream it tells the messages of the
  application from those of the built in protocol, a handshake and a closing handshake modelled
  on TCP's. This theory holds the state of one end and its operations.
\<close>

section \<open>Connection states\<close>

definition kmsSynSent :: i32 where "kmsSynSent = -2"
definition kmsListen :: i32 where "kmsListen = -1"
definition kmsSynRcvd :: i32 where "kmsSynRcvd = 0"
definition kmsEstablished :: i32 where "kmsEstablished = 1"
definition kmsFinWait1 :: i32 where "kmsFinWait1 = 2"
definition kmsCloseWait :: i32 where "kmsCloseWait = 3"
definition kmsFinWait2 :: i32 where "kmsFinWait2 = 4"
definition kmsClosing :: i32 where "kmsClosing = 5"
definition kmsTimeWait :: i32 where "kmsTimeWait = 6"
definition kmsLastAck :: i32 where "kmsLastAck = 7"

lemmas kms_defs = kmsSynSent_def kmsListen_def kmsSynRcvd_def kmsEstablished_def kmsFinWait1_def
  kmsCloseWait_def kmsFinWait2_def kmsClosing_def kmsTimeWait_def kmsLastAck_def

text \<open>The names of the states in the error messages and the log.\<close>

definition kmsString :: "i32 \<Rightarrow> string" where
  "kmsString kms =
     (if kms = kmsSynSent then ''syn-sent''
      else if kms = kmsListen then ''listen''
      else if kms = kmsSynRcvd then ''syn-rcvd''
      else if kms = kmsEstablished then ''established''
      else if kms = kmsFinWait1 then ''fin-wait1''
      else if kms = kmsFinWait2 then ''fin-wait2''
      else if kms = kmsTimeWait then ''time-wait''
      else if kms = kmsClosing then ''closing''
      else if kms = kmsCloseWait then ''close-wait''
      else if kms = kmsLastAck then ''last-ack''
      else ''unknown-'' @ itoa (sint kms))"

text \<open>A name tells the state, also of a number a peer made up.\<close>

theorem kmsString_inject: "kmsString a = kmsString b \<longleftrightarrow> a = b"
proof
  assume "kmsString a = kmsString b"
  then show "a = b" by (auto simp: kmsString_def intro: iffD2 [OF word_eq_iff_signed] split: if_splits)
qed simp

definition kcpMuxUninit :: i32 where "kcpMuxUninit = 0"
definition kcpMuxInit :: i32 where "kcpMuxInit = 1"

section \<open>The state of one end\<close>

text \<open>
  \<open>mx_closeCh\<close> and \<open>mx_initCh\<close> count the tokens in the two channels, which hold one each;
  \<open>mx_closeOnce\<close> says whether \<open>closeOnce\<close> has run. \<open>mx_blocked\<close> is not a field of the code: it is
  set when a goroutine sends to a full channel, which nobody would ever receive from.
\<close>

record kcp_mux =
  mx_isInline :: bool
  mx_initFlag :: i32
  mx_closeOnce :: bool
  mx_state :: i32
  mx_isListen :: bool
  mx_closeCh :: nat
  mx_initCh :: nat
  mx_blocked :: bool

definition newKCPMux :: "bool \<Rightarrow> bool \<Rightarrow> kcp_mux" where
  "newKCPMux isInline isListen =
     \<lparr>mx_isInline = isInline, mx_initFlag = kcpMuxUninit, mx_closeOnce = False,
      mx_state = (if isListen then kmsListen else kmsSynSent), mx_isListen = isListen,
      mx_closeCh = 0, mx_initCh = 0, mx_blocked = False\<rparr>"

text \<open>\<open>mux.initCh <- struct{}{}\<close> and \<open>mux.closeCh <- struct{}{}\<close>\<close>

definition push_init :: "kcp_mux \<Rightarrow> kcp_mux" where
  "push_init m = (if mx_initCh m < 1 then m\<lparr>mx_initCh := mx_initCh m + 1\<rparr> else m\<lparr>mx_blocked := True\<rparr>)"

definition push_close :: "kcp_mux \<Rightarrow> kcp_mux" where
  "push_close m = (if mx_closeCh m < 1 then m\<lparr>mx_closeCh := mx_closeCh m + 1\<rparr> else m\<lparr>mx_blocked := True\<rparr>)"

section \<open>Frames\<close>

text \<open>\<open>kcpMuxHeader\<close> is one \<open>bool\<close>, \<open>kcpExchange\<close> one \<open>int32\<close>.\<close>

definition kcpMuxHeaderSizeof :: nat where "kcpMuxHeaderSizeof = 1"
definition kcpExchangeSizeof :: nat where "kcpExchangeSizeof = 4"

lemmas kcp_sizes = kcpMuxHeaderSizeof_def kcpExchangeSizeof_def

text \<open>\<open>kcpMux.packMsg\<close>; writing to a buffer does not fail.\<close>

definition mux_packMsg :: "kcp_mux \<Rightarrow> bool \<Rightarrow> bytes \<Rightarrow> go_error + bytes" where
  "mux_packMsg m inline payload =
     (if \<not> mx_isInline m then Inr payload else Inr (put_bool inline @ payload))"

text \<open>The frame \<open>sendInline\<close> gives to the socket for a state.\<close>

definition inline_frame :: "i32 \<Rightarrow> bytes" where
  "inline_frame state = put_bool True @ put_le kcpExchangeSizeof state"

section \<open>The built in protocol\<close>

text \<open>
  \<open>inlineProtocol\<close>: the new state of this end, the states it sends to the peer in order, the count
  and the error. The compare-and-swaps of the code are the equality tests on \<open>mx_state\<close>: the read
  goroutine, which runs this, is the only writer of the state but for \<open>close\<close>, which only leaves
  \<open>kmsEstablished\<close>.
\<close>

definition inlineProtocol :: "kcp_mux \<Rightarrow> i32 \<Rightarrow> kcp_mux \<times> i32 list \<times> int \<times> go_error option" where
  "inlineProtocol m ke =
     (let count = int (kcpMuxHeaderSizeof + kcpExchangeSizeof) in
      if ke = kmsSynSent \<and> mx_state m = kmsListen then
        (m\<lparr>mx_state := kmsSynRcvd\<rparr>, [kmsSynRcvd], count, None)
      else if ke = kmsSynRcvd \<and> mx_state m = kmsSynSent then
        (push_init (m\<lparr>mx_state := kmsEstablished\<rparr>), [kmsEstablished], count, None)
      else if ke = kmsEstablished \<and> mx_state m = kmsSynRcvd then
        (push_init (m\<lparr>mx_state := kmsEstablished\<rparr>), [], count, None)
      else if ke = kmsFinWait1 \<and> mx_state m = kmsEstablished then
        (let m' = m\<lparr>mx_state := kmsCloseWait\<rparr> in
         if mx_state m' = kmsCloseWait
         then (m'\<lparr>mx_state := kmsLastAck\<rparr>, [kmsCloseWait, kmsLastAck], count, None)
         else (m', [kmsCloseWait], count, None))
      else if ke = kmsTimeWait \<and> mx_state m = kmsLastAck then
        (push_close m, [], count, Some IoEOF)
      else if ke = kmsCloseWait \<and> mx_state m = kmsFinWait1 then
        (m\<lparr>mx_state := kmsFinWait2\<rparr>, [], count, None)
      else if ke = kmsLastAck \<and> mx_state m = kmsFinWait2 then
        (push_close (m\<lparr>mx_state := kmsTimeWait\<rparr>), [kmsTimeWait], count, Some IoEOF)
      else if ke = kmsFinWait1 \<and> mx_state m = kmsFinWait1 then
        (m\<lparr>mx_state := kmsClosing\<rparr>, [kmsClosing], count, None)
      else if ke = kmsClosing \<and> mx_state m = kmsClosing then
        (m\<lparr>mx_state := kmsTimeWait\<rparr>, [kmsTimeWait], count, None)
      else if ke = kmsTimeWait \<and> mx_state m = kmsTimeWait then
        (push_close m, [], count, Some IoEOF)
      else (m, [], 0, Some (InlineInvalid ke (mx_state m) (mx_isListen m))))"

text \<open>
  \<open>onMsg\<close> on the cached bytes \<open>msg\<close>; \<open>spare\<close> is what the cache's backing array holds beyond them,
  which the slice expression of the built in branch can reach, since nothing checks that the
  exchange is complete. The state is the connection's, this end's and the states sent so far.
\<close>

definition mux_onMsg :: "'st on_handler_once \<Rightarrow> bytes \<Rightarrow> ('st \<times> kcp_mux \<times> i32 list) on_handler_once" where
  "mux_onMsg handler spare = (\<lambda>(st, m, sent) msg.
     if \<not> mx_isInline m then
       go_bind (handler st msg) (\<lambda>(st', c, err). Ret ((st', m, sent), c, err))
     else if length msg < kcpMuxHeaderSizeof then Ret ((st, m, sent), 0, None)
     else go_bind (go_slice msg spare 0 (int kcpMuxHeaderSizeof)) (\<lambda>head.
       case binary_read kcpMuxHeaderSizeof get_bool head of
         Inl err \<Rightarrow> Ret ((st, m, sent), 0, Some err)
       | Inr inline \<Rightarrow>
           if \<not> inline then
             (if mx_state m = kmsEstablished then
                go_bind (go_slice_from msg (int kcpMuxHeaderSizeof)) (\<lambda>rest.
                  go_bind (handler st rest) (\<lambda>(st', c, err).
                    Ret ((st', m, sent), if c \<noteq> 0 then c + int kcpMuxHeaderSizeof else c, err)))
              else Ret ((st, m, sent), 0, Some (StateNotEstablished (mx_state m))))
           else
             go_bind (go_slice msg spare (int kcpMuxHeaderSizeof) (int (kcpMuxHeaderSizeof + kcpExchangeSizeof)))
               (\<lambda>body. case binary_read kcpExchangeSizeof get_le body of
                  Inl err \<Rightarrow> Ret ((st, m, sent), 0, Some err)
                | Inr ke \<Rightarrow>
                    (case inlineProtocol m ke of (m', outs, c, err) \<Rightarrow>
                       Ret ((st, m', sent @ outs), c, err)))))"

section \<open>Opening and closing\<close>

text \<open>
  \<open>init\<close> up to its wait: the end it leaves, the states it sends, and whether it goes on to wait for
  a token of \<open>initCh\<close>.
\<close>

definition mux_init :: "kcp_mux \<Rightarrow> kcp_mux \<times> i32 list \<times> bool" where
  "mux_init m =
     (if mx_initFlag m = kcpMuxUninit then
        (let m' = m\<lparr>mx_initFlag := kcpMuxInit\<rparr> in
         if \<not> mx_isInline m then (m', [], False)
         else (m', if mx_state m' = kmsSynSent then [kmsSynSent] else [], True))
      else (m, [], False))"

text \<open>The wait: a token, or after \<open>kcpInitTimeout\<close> the timer. Every possible result.\<close>

definition mux_init_wait :: "kcp_mux \<Rightarrow> (kcp_mux \<times> go_error option) list" where
  "mux_init_wait m = (m, Some (MuxInitTimeout (mx_state m))) #
     (if 0 < mx_initCh m then [(m\<lparr>mx_initCh := mx_initCh m - 1\<rparr>, None)] else [])"

text \<open>\<open>close\<close> up to its wait, inside \<open>closeOnce\<close>.\<close>

definition mux_close :: "kcp_mux \<Rightarrow> kcp_mux \<times> i32 list \<times> bool" where
  "mux_close m =
     (if mx_closeOnce m then (m, [], False)
      else (let m' = m\<lparr>mx_closeOnce := True\<rparr> in
        if \<not> mx_isInline m then (m', [], False)
        else if mx_state m' = kmsEstablished then (m'\<lparr>mx_state := kmsFinWait1\<rparr>, [kmsFinWait1], True)
        else (m', [], True)))"

definition mux_close_wait :: "kcp_mux \<Rightarrow> kcp_mux list" where
  "mux_close_wait m = m # (if 0 < mx_closeCh m then [m\<lparr>mx_closeCh := mx_closeCh m - 1\<rparr>] else [])"

section \<open>One message of the protocol\<close>

lemma push_frame [simp]:
  "mx_state (push_init m) = mx_state m" "mx_isInline (push_init m) = mx_isInline m"
  "mx_isListen (push_init m) = mx_isListen m" "mx_initFlag (push_init m) = mx_initFlag m"
  "mx_closeOnce (push_init m) = mx_closeOnce m" "mx_closeCh (push_init m) = mx_closeCh m"
  "mx_state (push_close m) = mx_state m" "mx_isInline (push_close m) = mx_isInline m"
  "mx_isListen (push_close m) = mx_isListen m" "mx_initFlag (push_close m) = mx_initFlag m"
  "mx_closeOnce (push_close m) = mx_closeOnce m" "mx_initCh (push_close m) = mx_initCh m"
  by (simp_all add: push_init_def push_close_def)

text \<open>The transition table, one rule per accepted pair of a message and a state.\<close>

lemma inline_open:
  "mx_state m = kmsListen \<Longrightarrow> inlineProtocol m kmsSynSent = (m\<lparr>mx_state := kmsSynRcvd\<rparr>, [kmsSynRcvd], 5, None)"
  "mx_state m = kmsSynSent \<Longrightarrow> inlineProtocol m kmsSynRcvd =
     (push_init (m\<lparr>mx_state := kmsEstablished\<rparr>), [kmsEstablished], 5, None)"
  "mx_state m = kmsSynRcvd \<Longrightarrow> inlineProtocol m kmsEstablished =
     (push_init (m\<lparr>mx_state := kmsEstablished\<rparr>), [], 5, None)"
  by (simp_all add: inlineProtocol_def kcp_sizes kms_defs)

lemma inline_close:
  "mx_state m = kmsEstablished \<Longrightarrow> inlineProtocol m kmsFinWait1 =
     (m\<lparr>mx_state := kmsLastAck\<rparr>, [kmsCloseWait, kmsLastAck], 5, None)"
  "mx_state m = kmsLastAck \<Longrightarrow> inlineProtocol m kmsTimeWait = (push_close m, [], 5, Some IoEOF)"
  "mx_state m = kmsFinWait1 \<Longrightarrow> inlineProtocol m kmsCloseWait = (m\<lparr>mx_state := kmsFinWait2\<rparr>, [], 5, None)"
  "mx_state m = kmsFinWait2 \<Longrightarrow> inlineProtocol m kmsLastAck =
     (push_close (m\<lparr>mx_state := kmsTimeWait\<rparr>), [kmsTimeWait], 5, Some IoEOF)"
  "mx_state m = kmsFinWait1 \<Longrightarrow> inlineProtocol m kmsFinWait1 = (m\<lparr>mx_state := kmsClosing\<rparr>, [kmsClosing], 5, None)"
  "mx_state m = kmsClosing \<Longrightarrow> inlineProtocol m kmsClosing = (m\<lparr>mx_state := kmsTimeWait\<rparr>, [kmsTimeWait], 5, None)"
  "mx_state m = kmsTimeWait \<Longrightarrow> inlineProtocol m kmsTimeWait = (push_close m, [], 5, Some IoEOF)"
  by (simp_all add: inlineProtocol_def kcp_sizes kms_defs)

lemmas inline_simps = inline_open inline_close

text \<open>How far an end has come; every accepted message takes it further.\<close>

definition mux_phase :: "i32 \<Rightarrow> nat" where
  "mux_phase st =
     (if st = kmsSynSent \<or> st = kmsListen then 0
      else if st = kmsSynRcvd then 1
      else if st = kmsEstablished then 2
      else if st = kmsFinWait1 then 3
      else if st = kmsCloseWait \<or> st = kmsFinWait2 \<or> st = kmsClosing then 4
      else 5)"

lemma mux_phase_simps [simp]:
  "mux_phase kmsSynSent = 0" "mux_phase kmsListen = 0" "mux_phase kmsSynRcvd = 1"
  "mux_phase kmsEstablished = 2" "mux_phase kmsFinWait1 = 3" "mux_phase kmsCloseWait = 4"
  "mux_phase kmsFinWait2 = 4" "mux_phase kmsClosing = 4" "mux_phase kmsTimeWait = 5"
  "mux_phase kmsLastAck = 5"
  by (simp_all add: mux_phase_def kms_defs)

text \<open>Tokens: none of \<open>initCh\<close> before the handshake is over, at most one of each.\<close>

definition mux_tokens :: "kcp_mux \<Rightarrow> bool" where
  "mux_tokens m \<longleftrightarrow> \<not> mx_blocked m \<and> mx_initCh m \<le> 1 \<and> mx_closeCh m \<le> 1
     \<and> (mux_phase (mx_state m) < 2 \<longrightarrow> mx_initCh m = 0)"

text \<open>The accepted pairs of a message and the state that takes it.\<close>

definition inline_pairs :: "(i32 \<times> i32) list" where
  "inline_pairs =
     [(kmsSynSent, kmsListen), (kmsSynRcvd, kmsSynSent), (kmsEstablished, kmsSynRcvd),
      (kmsFinWait1, kmsEstablished), (kmsTimeWait, kmsLastAck), (kmsCloseWait, kmsFinWait1),
      (kmsLastAck, kmsFinWait2), (kmsFinWait1, kmsFinWait1), (kmsClosing, kmsClosing),
      (kmsTimeWait, kmsTimeWait)]"

lemma inline_invalid:
  "(ke, mx_state m) \<notin> set inline_pairs \<Longrightarrow>
     inlineProtocol m ke = (m, [], 0, Some (InlineInvalid ke (mx_state m) (mx_isListen m)))"
  by (simp add: inline_pairs_def inlineProtocol_def cong: conj_cong)

lemma inline_cases [case_names valid invalid]:
  fixes m :: kcp_mux and ke :: i32
  obtains "ke = kmsSynSent \<and> mx_state m = kmsListen \<or> ke = kmsSynRcvd \<and> mx_state m = kmsSynSent
      \<or> ke = kmsEstablished \<and> mx_state m = kmsSynRcvd \<or> ke = kmsFinWait1 \<and> mx_state m = kmsEstablished
      \<or> ke = kmsTimeWait \<and> mx_state m = kmsLastAck \<or> ke = kmsCloseWait \<and> mx_state m = kmsFinWait1
      \<or> ke = kmsLastAck \<and> mx_state m = kmsFinWait2 \<or> ke = kmsFinWait1 \<and> mx_state m = kmsFinWait1
      \<or> ke = kmsClosing \<and> mx_state m = kmsClosing \<or> ke = kmsTimeWait \<and> mx_state m = kmsTimeWait"
  | "inlineProtocol m ke = (m, [], 0, Some (InlineInvalid ke (mx_state m) (mx_isListen m)))"
  using inline_invalid [of ke m] by (auto simp: inline_pairs_def)

lemma inline_phase:
  assumes "inlineProtocol m ke = (m', outs, c, None)"
  shows "mux_phase (mx_state m) < mux_phase (mx_state m') \<and> c = 5"
  using assms by (cases ke m rule: inline_cases) (auto simp: inline_simps)

lemma inline_frame_fields:
  "inlineProtocol m ke = (m', outs, c, err) \<Longrightarrow>
     mx_isInline m' = mx_isInline m \<and> mx_isListen m' = mx_isListen m \<and>
     mx_initFlag m' = mx_initFlag m \<and> mx_closeOnce m' = mx_closeOnce m"
  by (cases ke m rule: inline_cases) (auto simp: inline_simps)

lemma inline_tokens:
  "inlineProtocol m ke = (m', outs, c, err) \<Longrightarrow> mux_tokens m \<Longrightarrow> mx_closeCh m = 0 \<Longrightarrow>
     mux_tokens m' \<and> (err = None \<longrightarrow> mx_closeCh m' = 0)"
  by (cases ke m rule: inline_cases)
    (auto simp: inline_simps mux_tokens_def push_init_def push_close_def)

section \<open>onMsg\<close>

lemma mux_packMsg_inline: "mx_isInline m \<Longrightarrow> mux_packMsg m True (put_le 4 ke) = Inr (inline_frame ke)"
  by (simp add: mux_packMsg_def inline_frame_def kcp_sizes)

lemma inline_frame_eq: "inline_frame ke = 1 # put_le 4 ke"
  by (simp add: inline_frame_def put_bool_def kcp_sizes)

text \<open>
  A built in frame whose body, taken from the cache and what lies behind it, is four bytes long.
\<close>

lemma mux_onMsg_inline_body:
  assumes "mx_isInline m" and "4 \<le> length part + length spare"
  shows "mux_onMsg handler spare (st, m, sent) (1 # part) =
    (case inlineProtocol m (get_le (take 4 (part @ spare))) of (m', outs, c, err) \<Rightarrow>
       Ret ((st, m', sent @ outs), c, err))"
proof -
  have body: "go_slice (1 # part) spare 1 5 = Ret (take 4 (part @ spare))"
    using assms(2) by (simp add: go_slice_def)
  have head: "go_slice (1 # part) spare 0 1 = Ret [1]"
    by (simp add: go_slice_def)
  have "length (take 4 (part @ spare)) = 4" using assms(2) by simp
  with assms(1) body head show ?thesis
    by (simp add: mux_onMsg_def kcp_sizes binary_read_def del: take_append split: prod.split)
qed

lemma mux_onMsg_inline_short:
  assumes "mx_isInline m" and "length part + length spare < 4"
  shows "mux_onMsg handler spare (st, m, sent) (1 # part) = Panic SliceBounds"
  using assms by (simp add: mux_onMsg_def kcp_sizes go_slice_def binary_read_def)

section \<open>Properties\<close>

text \<open>
  A message of the built in protocol, framed by one end and followed by anything in the peer's cache, is
  read by the peer as exactly the state that was sent: its multiplexer answers as \<open>inlineProtocol\<close> does
  on that state, and the application's handler is not involved.
\<close>

theorem mux_inline_roundtrip:
  assumes "mx_isInline peer" and "mx_isInline m"
  shows "\<exists>msg. mux_packMsg peer True (put_le 4 ke) = Inr msg
    \<and> mux_onMsg handler spare (st, m, sent) (msg @ rest) =
        (case inlineProtocol m ke of (m', outs, c, err) \<Rightarrow> Ret ((st, m', sent @ outs), c, err))"
  using mux_onMsg_inline_body [OF assms(2), of "put_le 4 ke @ rest" spare handler st sent] assms(1)
  by (simp add: mux_packMsg_inline inline_frame_eq)

theorem mux_inline_roundtrip_witness:
  "\<exists>msg. mux_packMsg (newKCPMux True False) True (put_le 4 kmsSynSent) = Inr msg
    \<and> mux_onMsg (\<lambda>st msg. Ret (st, 0, None)) [] ((), newKCPMux True True, []) (msg @ [9]) =
        Ret (((), (newKCPMux True True)\<lparr>mx_state := kmsSynRcvd\<rparr>, [kmsSynRcvd]), 5, None)"
  using mux_inline_roundtrip [of "newKCPMux True False" "newKCPMux True True" kmsSynSent
      "\<lambda>st msg. Ret (st, 0, None)" "[]" "()" "[]" "[9]"]
  by (simp add: newKCPMux_def inline_simps)

text \<open>
  A message of the application reaches the peer's handler, without the frame header, exactly when the
  peer is established; in any other state it ends the peer's connection with an error.
\<close>

theorem mux_data_only_when_established:
  assumes "mx_isInline peer" and "mx_isInline m"
  shows "\<exists>msg. mux_packMsg peer False payload = Inr msg
    \<and> mux_onMsg handler spare (st, m, sent) (msg @ rest) =
      (if mx_state m = kmsEstablished
       then go_bind (handler st (payload @ rest)) (\<lambda>(st', c, err).
              Ret ((st', m, sent), if c = 0 then 0 else c + 1, err))
       else Ret ((st, m, sent), 0, Some (StateNotEstablished (mx_state m))))"
proof -
  have "go_slice (0 # payload @ rest) spare 0 1 = Ret [0]"
    by (simp add: go_slice_def)
  with assms show ?thesis
    by (auto simp: mux_packMsg_def put_bool_def mux_onMsg_def kcp_sizes binary_read_def
        go_slice_from_def intro!: arg_cong2 [where f = go_bind])
qed

theorem mux_data_only_when_established_witness:
  "\<exists>msg. mux_packMsg (newKCPMux True False) False [3, 4] = Inr msg
    \<and> mux_onMsg (\<lambda>st msg. Ret (length msg, 2, None)) [] (0, newKCPMux True True, []) (msg @ [])
      = Ret ((0, newKCPMux True True, []), 0, Some (StateNotEstablished kmsListen))"
  using mux_data_only_when_established [of "newKCPMux True False" "newKCPMux True True" "[3, 4]"
      "\<lambda>st msg. Ret (length msg, 2, None)" "[]" 0 "[]" "[]"]
  by (simp add: newKCPMux_def kms_defs)

text \<open>
  A frame of the built in protocol that arrives in two parts is never completed: on the first part the
  read loop panics or ends with an error, whatever lies behind the cached bytes.
\<close>

theorem split_inline_frame_ends_connection:
  assumes "mx_isInline m" and "length part < 4"
  shows "inner_loop (mux_onMsg handler spare) (st, m, sent) bp (1 # part) = InnerPanic SliceBounds
    \<or> (\<exists>st' err. inner_loop (mux_onMsg handler spare) (st, m, sent) bp (1 # part) = InnerErr st' bp (1 # part) err)"
proof (cases "length part + length spare < 4")
  case True
  then show ?thesis
    using mux_onMsg_inline_short [OF assms(1) True, of handler st sent]
    by (simp add: inner_loop.simps [of "mux_onMsg handler spare" "(st, m, sent)"])
next
  case False
  then have body: "4 \<le> length part + length spare" by simp
  obtain m' outs c err where p: "inlineProtocol m (get_le (take 4 (part @ spare))) = (m', outs, c, err)"
    by (metis prod_cases4)
  then have on: "mux_onMsg handler spare (st, m, sent) (1 # part) = Ret ((st, m', sent @ outs), c, err)"
    using mux_onMsg_inline_body [OF assms(1) body, of handler st sent] by simp
  show ?thesis
  proof (cases err)
    case None
    with inline_phase p have "c = 5" by blast
    with on None assms(2) show ?thesis
      by (simp add: inner_loop.simps [of "mux_onMsg handler spare" "(st, m, sent)"] go_slice_from_def)
  next
    case (Some e)
    with on show ?thesis
      by (simp add: inner_loop.simps [of "mux_onMsg handler spare" "(st, m, sent)"])
  qed
qed

theorem split_inline_frame_ends_connection_witness:
  "inner_loop (mux_onMsg (\<lambda>st msg. Ret (st, 0, None)) (replicate 8 0)) ((), newKCPMux True False, [])
      (newBufferPool []) [1, 0] = InnerPanic SliceBounds
   \<or> (\<exists>st' err. inner_loop (mux_onMsg (\<lambda>st msg. Ret (st, 0, None)) (replicate 8 0)) ((), newKCPMux True False, [])
      (newBufferPool []) [1, 0] = InnerErr st' (newBufferPool []) [1, 0] err)"
  by (rule split_inline_frame_ends_connection) (simp_all add: newKCPMux_def)

end
