(* ===== verification/Kcp_Handshake.thy ===== *)
theory Kcp_Handshake
  imports Kcp_Mux
begin

text \<open>
  Both ends of a KCP connection with the built in protocol: the client (\<open>isListen\<close> false) and the
  server, each with the multiplexer of \<open>pkg/xnet/kcp_mux.go\<close>, its read loop, and the states on
  their way to it. KCP delivers the frames of one direction in order and without loss, so what
  an end has still to read is a list. Either end may call \<open>close\<close> at any time; the timers of
  \<open>init\<close> and \<open>close\<close> do not fire.
\<close>

section \<open>One end\<close>

text \<open>
  The read loop of an end: running, ended by \<open>io.EOF\<close> (the orderly end), or by another error.
  \<open>ep_pending\<close> is what \<open>close\<close> has decided to send but not yet given to the socket.
\<close>

datatype read_status = ReadActive | ReadEOF | ReadErr go_error

record kcp_end =
  ep_mux :: kcp_mux
  ep_in :: "i32 list"
  ep_status :: read_status
  ep_pending :: "i32 list"

definition new_end :: "bool \<Rightarrow> kcp_end" where
  "new_end isListen =
     \<lparr>ep_mux = newKCPMux True isListen, ep_in = [], ep_status = ReadActive, ep_pending = []\<rparr>"

definition status_after :: "go_error option \<Rightarrow> read_status" where
  "status_after err =
     (case err of None \<Rightarrow> ReadActive | Some e \<Rightarrow> (if e = IoEOF then ReadEOF else ReadErr e))"

text \<open>The read loop takes the next state and runs the protocol on it.\<close>

definition ep_recv :: "kcp_end \<Rightarrow> (kcp_end \<times> i32 list) option" where
  "ep_recv e =
     (case ep_in e of
        [] \<Rightarrow> None
      | ke # q \<Rightarrow>
          if ep_status e = ReadActive then
            (case inlineProtocol (ep_mux e) ke of (m, outs, c, err) \<Rightarrow>
               Some (e\<lparr>ep_mux := m, ep_in := q, ep_status := status_after err\<rparr>, outs))
          else None)"

text \<open>\<open>init\<close> and \<open>close\<close> up to their waits, and the waits when the token is there.\<close>

definition ep_open :: "kcp_end \<Rightarrow> kcp_end \<times> i32 list" where
  "ep_open e = (case mux_init (ep_mux e) of (m, outs, wait) \<Rightarrow> (e\<lparr>ep_mux := m\<rparr>, outs))"

definition ep_close :: "kcp_end \<Rightarrow> kcp_end \<times> i32 list" where
  "ep_close e = (case mux_close (ep_mux e) of (m, outs, wait) \<Rightarrow> (e\<lparr>ep_mux := m\<rparr>, outs))"

definition ep_opened :: "kcp_end \<Rightarrow> kcp_end list" where
  "ep_opened e = map (\<lambda>(m, err). e\<lparr>ep_mux := m\<rparr>) (filter (\<lambda>(m, err). err = None) (mux_init_wait (ep_mux e)))"

definition ep_closed :: "kcp_end \<Rightarrow> kcp_end list" where
  "ep_closed e = map (\<lambda>m. e\<lparr>ep_mux := m\<rparr>) (mux_close_wait (ep_mux e))"

definition give :: "i32 list \<Rightarrow> kcp_end \<Rightarrow> kcp_end" where
  "give outs e = e\<lparr>ep_in := ep_in e @ outs\<rparr>"

section \<open>The connection\<close>

type_synonym kcp_link = "kcp_end \<times> kcp_end"

definition link_init :: "kcp_link \<Rightarrow> bool" where
  "link_init l \<longleftrightarrow> l = (new_end False, new_end True)"

text \<open>What the two read loops do.\<close>

inductive link_recv :: "kcp_link \<Rightarrow> kcp_link \<Rightarrow> bool" where
  recv_cli: "ep_recv c = Some (c', outs) \<Longrightarrow> link_recv (c, s) (c', give outs s)"
| recv_svr: "ep_recv s = Some (s', outs) \<Longrightarrow> link_recv (c, s) (give outs c, s')"

text \<open>
  All steps, the test of the state and the send of \<open>close\<close> taken together.
\<close>

inductive link_step :: "kcp_link \<Rightarrow> kcp_link \<Rightarrow> bool" where
  link_receive: "link_recv l l' \<Longrightarrow> link_step l l'"
| open_cli: "ep_open c = (c', outs) \<Longrightarrow> link_step (c, s) (c', give outs s)"
| open_svr: "ep_open s = (s', outs) \<Longrightarrow> link_step (c, s) (give outs c, s')"
| close_cli: "ep_close c = (c', outs) \<Longrightarrow> link_step (c, s) (c', give outs s)"
| close_svr: "ep_close s = (s', outs) \<Longrightarrow> link_step (c, s) (give outs c, s')"
| opened_cli: "c' \<in> set (ep_opened c) \<Longrightarrow> link_step (c, s) (c', s)"
| opened_svr: "s' \<in> set (ep_opened s) \<Longrightarrow> link_step (c, s) (c, s')"
| closed_cli: "c' \<in> set (ep_closed c) \<Longrightarrow> link_step (c, s) (c', s)"
| closed_svr: "s' \<in> set (ep_closed s) \<Longrightarrow> link_step (c, s) (c, s')"

section \<open>The reachable configurations\<close>

text \<open>
  The states of the two ends, what each has still to read, their read loops, and whether the
  client has begun its handshake.
\<close>

type_synonym link_config = "i32 \<times> i32 \<times> i32 list \<times> i32 list \<times> read_status \<times> read_status \<times> i32"

definition config :: "kcp_link \<Rightarrow> link_config" where
  "config = (\<lambda>(c, s). (mx_state (ep_mux c), mx_state (ep_mux s), ep_in c, ep_in s,
     ep_status c, ep_status s, mx_initFlag (ep_mux c)))"

definition link_configs :: "link_config list" where
  "link_configs =
    [(kmsSynSent, kmsListen, [], [], ReadActive, ReadActive, kcpMuxUninit),
     (kmsSynSent, kmsListen, [], [kmsSynSent], ReadActive, ReadActive, kcpMuxInit),
     (kmsSynSent, kmsSynRcvd, [kmsSynRcvd], [], ReadActive, ReadActive, kcpMuxInit),
     (kmsEstablished, kmsSynRcvd, [], [kmsEstablished], ReadActive, ReadActive, kcpMuxInit),
     (kmsEstablished, kmsEstablished, [], [], ReadActive, ReadActive, kcpMuxInit),
     (kmsEstablished, kmsFinWait1, [kmsFinWait1], [], ReadActive, ReadActive, kcpMuxInit),
     (kmsFinWait1, kmsSynRcvd, [], [kmsEstablished, kmsFinWait1], ReadActive, ReadActive, kcpMuxInit),
     (kmsFinWait1, kmsEstablished, [], [kmsFinWait1], ReadActive, ReadActive, kcpMuxInit),
     (kmsFinWait1, kmsFinWait1, [kmsFinWait1], [kmsFinWait1], ReadActive, ReadActive, kcpMuxInit),
     (kmsFinWait1, kmsClosing, [kmsFinWait1, kmsClosing], [], ReadActive, ReadActive, kcpMuxInit),
     (kmsFinWait1, kmsLastAck, [kmsCloseWait, kmsLastAck], [], ReadActive, ReadActive, kcpMuxInit),
     (kmsFinWait2, kmsLastAck, [kmsLastAck], [], ReadActive, ReadActive, kcpMuxInit),
     (kmsClosing, kmsFinWait1, [], [kmsFinWait1, kmsClosing], ReadActive, ReadActive, kcpMuxInit),
     (kmsClosing, kmsClosing, [kmsClosing], [kmsClosing], ReadActive, ReadActive, kcpMuxInit),
     (kmsClosing, kmsTimeWait, [kmsClosing, kmsTimeWait], [], ReadActive, ReadActive, kcpMuxInit),
     (kmsTimeWait, kmsClosing, [], [kmsClosing, kmsTimeWait], ReadActive, ReadActive, kcpMuxInit),
     (kmsTimeWait, kmsTimeWait, [], [], ReadEOF, ReadEOF, kcpMuxInit),
     (kmsTimeWait, kmsTimeWait, [kmsTimeWait], [], ReadActive, ReadEOF, kcpMuxInit),
     (kmsTimeWait, kmsTimeWait, [], [kmsTimeWait], ReadEOF, ReadActive, kcpMuxInit),
     (kmsTimeWait, kmsTimeWait, [kmsTimeWait], [kmsTimeWait], ReadActive, ReadActive, kcpMuxInit),
     (kmsTimeWait, kmsLastAck, [], [], ReadEOF, ReadEOF, kcpMuxInit),
     (kmsTimeWait, kmsLastAck, [], [kmsTimeWait], ReadEOF, ReadActive, kcpMuxInit),
     (kmsLastAck, kmsFinWait1, [], [kmsCloseWait, kmsLastAck], ReadActive, ReadActive, kcpMuxInit),
     (kmsLastAck, kmsFinWait2, [], [kmsLastAck], ReadActive, ReadActive, kcpMuxInit),
     (kmsLastAck, kmsTimeWait, [], [], ReadEOF, ReadEOF, kcpMuxInit),
     (kmsLastAck, kmsTimeWait, [kmsTimeWait], [], ReadActive, ReadEOF, kcpMuxInit)]"

text \<open>The invariant: one of these configurations, and the tokens in order.\<close>

definition end_ok :: "bool \<Rightarrow> kcp_end \<Rightarrow> bool" where
  "end_ok isListen e \<longleftrightarrow> mx_isInline (ep_mux e) \<and> mx_isListen (ep_mux e) = isListen
     \<and> mux_tokens (ep_mux e) \<and> (ep_status e = ReadActive \<longrightarrow> mx_closeCh (ep_mux e) = 0)"

definition link_inv :: "kcp_link \<Rightarrow> bool" where
  "link_inv l \<longleftrightarrow> config l \<in> set link_configs \<and> end_ok False (fst l) \<and> end_ok True (snd l)"

lemma give_frame [simp]:
  "ep_mux (give outs e) = ep_mux e" "ep_status (give outs e) = ep_status e"
  "ep_in (give outs e) = ep_in e @ outs" "ep_pending (give outs e) = ep_pending e"
  "end_ok b (give outs e) = end_ok b e"
  by (simp_all add: give_def end_ok_def)

lemma status_after_simps [simp]:
  "status_after None = ReadActive" "status_after (Some IoEOF) = ReadEOF"
  by (simp_all add: status_after_def)

lemma ep_recv_Some:
  "ep_recv e = Some (e', outs) \<longleftrightarrow>
     (\<exists>ke q m c err. ep_in e = ke # q \<and> ep_status e = ReadActive
        \<and> inlineProtocol (ep_mux e) ke = (m, outs, c, err)
        \<and> e' = e\<lparr>ep_mux := m, ep_in := q, ep_status := status_after err\<rparr>)"
  by (auto simp: ep_recv_def split: list.splits prod.splits if_splits)

lemma recv_end_ok: "ep_recv e = Some (e', outs) \<Longrightarrow> end_ok b e \<Longrightarrow> end_ok b e'"
proof -
  assume r: "ep_recv e = Some (e', outs)" and ok: "end_ok b e"
  obtain ke q m c err where p: "inlineProtocol (ep_mux e) ke = (m, outs, c, err)" and a: "ep_status e = ReadActive"
    and e': "e' = e\<lparr>ep_mux := m, ep_in := q, ep_status := status_after err\<rparr>"
    using r by (auto simp: ep_recv_Some)
  have t: "mux_tokens m \<and> (err = None \<longrightarrow> mx_closeCh m = 0)"
    using inline_tokens [OF p] ok a by (simp add: end_ok_def)
  show ?thesis
    using inline_frame_fields [OF p] t ok by (cases err) (simp_all add: e' end_ok_def status_after_def)
qed


text \<open>
  The same moves on configurations alone. What the protocol answers depends on the state only, so
  it can be asked of a fresh multiplexer put into that state.
\<close>

definition inline_answer :: "bool \<Rightarrow> i32 \<Rightarrow> i32 \<Rightarrow> i32 \<times> i32 list \<times> go_error option" where
  "inline_answer isListen st ke =
     (case inlineProtocol ((newKCPMux True isListen)\<lparr>mx_state := st\<rparr>) ke of (m, outs, c, err) \<Rightarrow>
        (mx_state m, outs, err))"

fun config_recv_cli :: "link_config \<Rightarrow> link_config list" where
  "config_recv_cli (a, b, ke # q, r, ReadActive, y, f) =
     (case inline_answer False a ke of (a', outs, err) \<Rightarrow> [(a', b, q, r @ outs, status_after err, y, f)])"
| "config_recv_cli _ = []"

fun config_recv_svr :: "link_config \<Rightarrow> link_config list" where
  "config_recv_svr (a, b, r, ke # q, x, ReadActive, f) =
     (case inline_answer True b ke of (b', outs, err) \<Rightarrow> [(a, b', r @ outs, q, x, status_after err, f)])"
| "config_recv_svr _ = []"

definition config_moves :: "link_config \<Rightarrow> link_config list" where
  "config_moves g = config_recv_cli g @ config_recv_svr g @
     (case g of (a, b, q, r, x, y, f) \<Rightarrow>
        (if f = kcpMuxUninit then [(a, b, q, r @ (if a = kmsSynSent then [kmsSynSent] else []), x, y, kcpMuxInit)] else [])
      @ (if a = kmsEstablished then [(kmsFinWait1, b, q, r @ [kmsFinWait1], x, y, f)] else [])
      @ (if b = kmsEstablished then [(a, kmsFinWait1, q @ [kmsFinWait1], r, x, y, f)] else []))"

lemma inline_answer_simps [simp]:
  "inline_answer b kmsListen kmsSynSent = (kmsSynRcvd, [kmsSynRcvd], None)"
  "inline_answer b kmsSynSent kmsSynRcvd = (kmsEstablished, [kmsEstablished], None)"
  "inline_answer b kmsSynRcvd kmsEstablished = (kmsEstablished, [], None)"
  "inline_answer b kmsEstablished kmsFinWait1 = (kmsLastAck, [kmsCloseWait, kmsLastAck], None)"
  "inline_answer b kmsLastAck kmsTimeWait = (kmsLastAck, [], Some IoEOF)"
  "inline_answer b kmsFinWait1 kmsCloseWait = (kmsFinWait2, [], None)"
  "inline_answer b kmsFinWait2 kmsLastAck = (kmsTimeWait, [kmsTimeWait], Some IoEOF)"
  "inline_answer b kmsFinWait1 kmsFinWait1 = (kmsClosing, [kmsClosing], None)"
  "inline_answer b kmsClosing kmsClosing = (kmsTimeWait, [kmsTimeWait], None)"
  "inline_answer b kmsTimeWait kmsTimeWait = (kmsTimeWait, [], Some IoEOF)"
  by (simp_all add: inline_answer_def inline_simps)

lemma config_moves_closed:
  "\<forall>g \<in> set link_configs. \<forall>g' \<in> set (config_moves g). g' \<in> set link_configs"
  unfolding link_configs_def list.set ball_simps
  by (intro conjI; simp add: config_moves_def kcpMuxUninit_def kcpMuxInit_def; simp add: kms_defs)

lemma inline_answer_eq:
  "inlineProtocol m ke = (m', outs, c, err) \<Longrightarrow>
     inline_answer (mx_isListen m) (mx_state m) ke = (mx_state m', outs, err)"
proof (cases "(ke, mx_state m) \<in> set inline_pairs")
  case True
  then show "inlineProtocol m ke = (m', outs, c, err) \<Longrightarrow> ?thesis"
    by (auto simp: inline_pairs_def inline_simps)
next
  case False
  then show "inlineProtocol m ke = (m', outs, c, err) \<Longrightarrow> ?thesis"
    using inline_invalid [of ke m] inline_invalid [of ke "(newKCPMux True (mx_isListen m))\<lparr>mx_state := mx_state m\<rparr>"]
    by (auto simp: inline_answer_def newKCPMux_def)
qed

lemma config_recv_cli_complete:
  assumes "ep_recv c = Some (c', outs)" and "\<not> mx_isListen (ep_mux c)"
  shows "config_recv_cli (config (c, s)) = [config (c', give outs s)]"
proof -
  obtain ke q m k err where "ep_in c = ke # q" "ep_status c = ReadActive"
    and p: "inlineProtocol (ep_mux c) ke = (m, outs, k, err)"
    and "c' = c\<lparr>ep_mux := m, ep_in := q, ep_status := status_after err\<rparr>"
    using assms(1) by (auto simp: ep_recv_Some)
  with inline_answer_eq [OF p] inline_frame_fields [OF p] assms(2) show ?thesis
    by (simp add: config_def)
qed

lemma config_recv_svr_complete:
  assumes "ep_recv s = Some (s', outs)" and "mx_isListen (ep_mux s)"
  shows "config_recv_svr (config (c, s)) = [config (give outs c, s')]"
proof -
  obtain ke q m k err where "ep_in s = ke # q" "ep_status s = ReadActive"
    and p: "inlineProtocol (ep_mux s) ke = (m, outs, k, err)"
    and "s' = s\<lparr>ep_mux := m, ep_in := q, ep_status := status_after err\<rparr>"
    using assms(1) by (auto simp: ep_recv_Some)
  with inline_answer_eq [OF p] assms(2) show ?thesis
    by (simp add: config_def)
qed

lemma config_recv_cli_enabled: "config_recv_cli (config (c, s)) \<noteq> [] \<Longrightarrow> ep_recv c \<noteq> None"
  by (cases "ep_in c"; cases "ep_status c") (auto simp: config_def ep_recv_def split: prod.splits)

lemma config_recv_svr_enabled: "config_recv_svr (config (c, s)) \<noteq> [] \<Longrightarrow> ep_recv s \<noteq> None"
  by (cases "ep_in s"; cases "ep_status s") (auto simp: config_def ep_recv_def split: prod.splits)

text \<open>The other operations leave the connection where it is, or make one of the moves.\<close>

lemma mux_open_close:
  "mux_init m = (m', outs, w) \<Longrightarrow> mx_isInline m \<Longrightarrow> mx_initFlag m = kcpMuxUninit \<and> outs = (if mx_state m = kmsSynSent then [kmsSynSent] else [])
      \<and> m' = m\<lparr>mx_initFlag := kcpMuxInit\<rparr> \<or> m' = m \<and> outs = []"
  "mux_close m = (m', outs, w) \<Longrightarrow> mx_state m = kmsEstablished \<and> outs = [kmsFinWait1]
      \<and> m' = m\<lparr>mx_closeOnce := True, mx_state := kmsFinWait1\<rparr>
      \<or> (\<exists>b. m' = m\<lparr>mx_closeOnce := b\<rparr>) \<and> outs = []"
  by (auto simp: mux_init_def mux_close_def Let_def split: if_splits intro: exI [of _ True] exI [of _ "mx_closeOnce m"])

lemma end_ok_ops:
  "ep_open e = (e', outs) \<Longrightarrow> end_ok b e \<Longrightarrow> end_ok b e'"
  "ep_close e = (e', outs) \<Longrightarrow> end_ok b e \<Longrightarrow> end_ok b e'"
  "e' \<in> set (ep_opened e) \<Longrightarrow> end_ok b e \<Longrightarrow> end_ok b e'"
  "e' \<in> set (ep_closed e) \<Longrightarrow> end_ok b e \<Longrightarrow> end_ok b e'"
proof -
  assume ok: "end_ok b e"
  show "ep_open e = (e', outs) \<Longrightarrow> end_ok b e'"
    using ok by (simp add: ep_open_def mux_init_def Let_def end_ok_def mux_tokens_def split: if_splits)
      (elim conjE; hypsubst; simp)+
  show "ep_close e = (e', outs) \<Longrightarrow> end_ok b e'"
    using ok by (simp add: ep_close_def mux_close_def Let_def end_ok_def mux_tokens_def split: if_splits)
      (elim conjE; hypsubst; simp)+
  show "e' \<in> set (ep_opened e) \<Longrightarrow> end_ok b e'"
    using ok by (auto simp: ep_opened_def mux_init_wait_def end_ok_def mux_tokens_def split: if_splits)
  show "e' \<in> set (ep_closed e) \<Longrightarrow> end_ok b e'"
    using ok by (auto simp: ep_closed_def mux_close_wait_def end_ok_def mux_tokens_def split: if_splits)
qed

lemma waits_config:
  "e' \<in> set (ep_opened e) \<Longrightarrow> \<exists>n. e' = e\<lparr>ep_mux := (ep_mux e)\<lparr>mx_initCh := n\<rparr>\<rparr>"
  "e' \<in> set (ep_closed e) \<Longrightarrow> \<exists>n. e' = e\<lparr>ep_mux := (ep_mux e)\<lparr>mx_closeCh := n\<rparr>\<rparr>"
  by (auto simp: ep_opened_def ep_closed_def mux_init_wait_def mux_close_wait_def split: if_splits
      intro: exI [of _ "mx_closeCh (ep_mux e)"])

lemma ep_open_config:
  assumes "ep_open e = (e', outs)" and "mx_isInline (ep_mux e)"
  shows "mx_initFlag (ep_mux e) = kcpMuxUninit \<and> outs = (if mx_state (ep_mux e) = kmsSynSent then [kmsSynSent] else [])
      \<and> e' = e\<lparr>ep_mux := (ep_mux e)\<lparr>mx_initFlag := kcpMuxInit\<rparr>\<rparr> \<or> e' = e \<and> outs = []"
  using assms by (cases e) (auto simp: ep_open_def mux_init_def Let_def split: if_splits)

lemma ep_close_config:
  assumes "ep_close e = (e', outs)"
  shows "mx_state (ep_mux e) = kmsEstablished \<and> outs = [kmsFinWait1]
      \<and> e' = e\<lparr>ep_mux := (ep_mux e)\<lparr>mx_closeOnce := True, mx_state := kmsFinWait1\<rparr>\<rparr>
      \<or> (\<exists>b. e' = e\<lparr>ep_mux := (ep_mux e)\<lparr>mx_closeOnce := b\<rparr>\<rparr>) \<and> outs = []"
  using assms mux_open_close(2) [of "ep_mux e"] by (fastforce simp: ep_close_def split: prod.splits)

text \<open>No read loop has ended with an error.\<close>

lemma config_status:
  "\<forall>g \<in> set link_configs. (case g of (a, b, q, r, x, y, f) \<Rightarrow> x \<in> {ReadActive, ReadEOF} \<and> y \<in> {ReadActive, ReadEOF})"
  by (simp add: link_configs_def)

text \<open>The server never sends \<open>kmsSynSent\<close>.\<close>

lemma server_not_synsent: "\<forall>g \<in> set link_configs. fst (snd g) \<noteq> kmsSynSent"
  unfolding link_configs_def list.set ball_simps by (intro conjI; simp add: kms_defs)

lemma link_recv_moves:
  assumes "link_recv l l'" and "link_inv l"
  shows "config l' \<in> set (config_recv_cli (config l) @ config_recv_svr (config l))"
  using assms
  by cases (auto simp: link_inv_def end_ok_def config_recv_cli_complete config_recv_svr_complete)

lemma link_step_moves:
  assumes "link_step l l'" and "link_inv l"
  shows "config l' = config l \<or> config l' \<in> set (config_moves (config l))"
  using assms
proof cases
  case link_receive
  then show ?thesis using link_recv_moves [OF _ assms(2), of l']
    unfolding config_moves_def set_append by blast
next
  case (open_cli c c' outs s)
  then have i: "mx_isInline (ep_mux c)" using assms(2) by (simp add: link_inv_def end_ok_def)
  then show ?thesis using ep_open_config [OF open_cli(3) i] open_cli(1,2)
    by (elim disjE) (auto simp: config_moves_def config_def give_def)
next
  case (open_svr s s' outs c)
  then have i: "mx_isInline (ep_mux s)" and "mx_state (ep_mux s) \<noteq> kmsSynSent"
    using assms(2) server_not_synsent by (auto simp: link_inv_def end_ok_def config_def)
  then show ?thesis using ep_open_config [OF open_svr(3) i] open_svr(1,2)
    by (elim disjE) (auto simp: config_def give_def)
next
  case (close_cli c c' outs s)
  show ?thesis using ep_close_config [OF close_cli(3)] unfolding close_cli(1,2)
    by (elim disjE exE conjE; simp add: config_moves_def config_def give_def)
next
  case (close_svr s s' outs c)
  show ?thesis using ep_close_config [OF close_svr(3)] unfolding close_svr(1,2)
    by (elim disjE exE conjE; simp add: config_moves_def config_def give_def)
qed (use waits_config in \<open>fastforce simp: config_def\<close>)+

lemma link_inv_step: "link_inv l \<Longrightarrow> link_step l l' \<Longrightarrow> link_inv l'"
proof -
  assume inv: "link_inv l" and st: "link_step l l'"
  have "config l' \<in> set link_configs"
    using link_step_moves [OF st inv] config_moves_closed inv by (auto simp: link_inv_def)
  moreover have "end_ok False (fst l') \<and> end_ok True (snd l')"
    using st inv
    by cases (auto simp: link_inv_def elim!: link_recv.cases intro: end_ok_ops recv_end_ok)
  ultimately show ?thesis by (simp add: link_inv_def)
qed

lemma link_inv_init: "link_init l \<Longrightarrow> link_inv l"
  by (simp add: link_init_def link_inv_def config_def new_end_def newKCPMux_def link_configs_def
      end_ok_def mux_tokens_def)

interpretation link: inductive_invariant link_init link_step link_inv
  by unfold_locales (auto intro: link_inv_init link_inv_step)

section \<open>Progress\<close>

text \<open>
  How much the read loops have left to do: nothing when no message is in flight, else what
  separates the two states from the last ones and the loops still running.
\<close>

definition config_rank :: "link_config \<Rightarrow> nat" where
  "config_rank = (\<lambda>(a, b, q, r, x, y, f). if q = [] \<and> r = [] then 0
     else 1 + (5 - mux_phase a) + (5 - mux_phase b)
       + (if x = ReadActive then 1 else 0) + (if y = ReadActive then 1 else 0))"

text \<open>The closing handshake has begun.\<close>

definition config_closing :: "link_config \<Rightarrow> bool" where
  "config_closing = (\<lambda>(a, b, q, r, x, y, f). 3 \<le> mux_phase a \<or> 3 \<le> mux_phase b)"

definition config_opening :: "link_config \<Rightarrow> bool" where
  "config_opening = (\<lambda>(a, b, q, r, x, y, f). mux_phase a \<le> 2 \<and> mux_phase b \<le> 2 \<and> f = kcpMuxInit)"

definition config_eof :: "link_config \<Rightarrow> bool" where
  "config_eof = (\<lambda>(a, b, q, r, x, y, f). x = ReadEOF \<and> y = ReadEOF)"

definition config_established :: "link_config \<Rightarrow> bool" where
  "config_established = (\<lambda>(a, b, q, r, x, y, f).
     a = kmsEstablished \<and> b = kmsEstablished \<and> x = ReadActive \<and> y = ReadActive)"

lemmas config_preds = config_rank_def config_closing_def config_opening_def config_eof_def config_established_def

lemma config_rank_table:
  "\<forall>g \<in> set link_configs. \<forall>g' \<in> set (config_recv_cli g @ config_recv_svr g). config_rank g' < config_rank g"
  unfolding link_configs_def list.set ball_simps
  by (intro conjI; simp add: config_rank_def)

lemma config_enabled_table:
  "\<forall>g \<in> set link_configs. 0 < config_rank g \<longrightarrow> config_recv_cli g \<noteq> [] \<or> config_recv_svr g \<noteq> []"
  unfolding link_configs_def list.set ball_simps
  by (intro conjI; simp add: config_rank_def)

lemma config_kept_table:
  "\<forall>g \<in> set link_configs. \<forall>g' \<in> set (config_recv_cli g @ config_recv_svr g).
     (config_closing g \<longrightarrow> config_closing g') \<and> (config_opening g \<longrightarrow> config_opening g')"
  unfolding link_configs_def list.set ball_simps
  by (intro conjI; simp add: config_closing_def config_opening_def)

lemma config_quiet_table:
  "\<forall>g \<in> set link_configs. config_rank g = 0 \<longrightarrow>
     (config_closing g \<longrightarrow> config_eof g) \<and> (config_opening g \<longrightarrow> config_established g)"
  unfolding link_configs_def list.set ball_simps
  by (intro conjI; simp add: config_preds kcpMuxUninit_def kcpMuxInit_def)

lemma link_recv_enabled:
  assumes "link_inv l" and "0 < config_rank (config l)"
  shows "\<exists>l'. link_recv l l'"
proof -
  obtain c s where l: "l = (c, s)" by fastforce
  have "config_recv_cli (config l) \<noteq> [] \<or> config_recv_svr (config l) \<noteq> []"
    using config_enabled_table assms by (auto simp: link_inv_def)
  then have "ep_recv c \<noteq> None \<or> ep_recv s \<noteq> None"
    using config_recv_cli_enabled config_recv_svr_enabled l by blast
  then show ?thesis unfolding l by (fastforce intro: link_recv.intros)
qed

interpretation link_run: progress_measure link_init link_step link_inv link_recv "\<lambda>l. config_rank (config l)"
proof unfold_locales
  show "link_recv s t \<Longrightarrow> link_step s t" for s t by (rule link_step.link_receive)
  show "link_inv s \<Longrightarrow> link_recv s t \<Longrightarrow> config_rank (config t) < config_rank (config s)" for s t
    using link_recv_moves [of s t] config_rank_table by (auto simp: link_inv_def)
  show "link_inv s \<Longrightarrow> 0 < config_rank (config s) \<Longrightarrow> \<exists>t. link_recv s t" for s
    by (rule link_recv_enabled)
qed

lemma link_recv_kept:
  assumes "link_inv l" and "link_recv l l'"
  shows "link_inv l'" and "config_closing (config l) \<Longrightarrow> config_closing (config l')"
    and "config_opening (config l) \<Longrightarrow> config_opening (config l')"
proof -
  show "link_inv l'" using assms by (blast intro: link_inv_step link_step.link_receive)
  have "config l \<in> set link_configs" using assms(1) by (simp add: link_inv_def)
  with link_recv_moves [OF assms(2,1)] config_kept_table
  show "config_closing (config l) \<Longrightarrow> config_closing (config l')"
    and "config_opening (config l) \<Longrightarrow> config_opening (config l')" by blast+
qed


definition link_opening :: "kcp_link \<Rightarrow> bool" where
  "link_opening l \<longleftrightarrow> link_inv l \<and> config_opening (config l)"


interpretation opening_run: inductive_invariant link_opening link_recv link_opening
  by unfold_locales (auto simp only: link_opening_def intro: link_recv_kept)

lemma link_quiet:
  assumes "link_inv l" and "\<forall>l'. \<not> link_recv l l'"
  shows "config_closing (config l) \<Longrightarrow> config_eof (config l)"
    and "config_opening (config l) \<Longrightarrow> config_established (config l)"
proof -
  have "config_rank (config l) = 0" using link_recv_enabled assms by blast
  moreover have "config l \<in> set link_configs" using assms(1) by (simp add: link_inv_def)
  ultimately show "config_closing (config l) \<Longrightarrow> config_eof (config l)"
    and "config_opening (config l) \<Longrightarrow> config_established (config l)"
    using config_quiet_table by blast+
qed

text \<open>From any state of the invariant the read loops run until they have nothing left to read.\<close>

lemma config_preds_iff:
  "config_closing (config l) \<longleftrightarrow>
     3 \<le> mux_phase (mx_state (ep_mux (fst l))) \<or> 3 \<le> mux_phase (mx_state (ep_mux (snd l)))"
  "config_opening (config l) \<longleftrightarrow> mux_phase (mx_state (ep_mux (fst l))) \<le> 2
     \<and> mux_phase (mx_state (ep_mux (snd l))) \<le> 2 \<and> mx_initFlag (ep_mux (fst l)) = kcpMuxInit"
  "config_eof (config l) \<longleftrightarrow> ep_status (fst l) = ReadEOF \<and> ep_status (snd l) = ReadEOF"
  "config_established (config l) \<longleftrightarrow> mx_state (ep_mux (fst l)) = kmsEstablished
     \<and> mx_state (ep_mux (snd l)) = kmsEstablished
     \<and> ep_status (fst l) = ReadActive \<and> ep_status (snd l) = ReadActive"
  by (simp_all add: config_preds config_def split: prod.splits)

lemma link_runs_out: "link_inv l \<Longrightarrow> \<exists>l'. steps link_recv l l' \<and> (\<forall>l''. \<not> link_recv l' l'')"
proof -
  assume "link_inv l"
  then obtain l' where l': "steps link_recv l l'" "config_rank (config l') = 0" "link_inv l'"
    using link_run.reaches_goal by blast
  then have "\<not> link_recv l' l''" for l''
    using link_run.prog_decreases [of l' l''] by auto
  with l'(1) show ?thesis by blast
qed

section \<open>The state test and the send of close taken apart\<close>

text \<open>
  In the code \<open>close\<close> first swaps the state and then gives its message to the socket; the read loop
  of the same end can send in between.
\<close>

definition ep_close_test :: "kcp_end \<Rightarrow> kcp_end" where
  "ep_close_test e =
     (case mux_close (ep_mux e) of (m, outs, wait) \<Rightarrow> e\<lparr>ep_mux := m, ep_pending := ep_pending e @ outs\<rparr>)"

definition ep_close_send :: "kcp_end \<Rightarrow> kcp_end \<times> i32 list" where
  "ep_close_send e = (e\<lparr>ep_pending := []\<rparr>, ep_pending e)"

inductive race_step :: "kcp_link \<Rightarrow> kcp_link \<Rightarrow> bool" where
  race_recv: "link_recv l l' \<Longrightarrow> race_step l l'"
| race_open: "ep_open c = (c', outs) \<Longrightarrow> race_step (c, s) (c', give outs s)"
| race_close_cli: "ep_close c = (c', outs) \<Longrightarrow> race_step (c, s) (c', give outs s)"
| race_close_svr: "ep_close s = (s', outs) \<Longrightarrow> race_step (c, s) (give outs c, s')"
| race_test_cli: "race_step (c, s) (ep_close_test c, s)"
| race_test_svr: "race_step (c, s) (c, ep_close_test s)"
| race_send_cli: "ep_close_send c = (c', outs) \<Longrightarrow> race_step (c, s) (c', give outs s)"
| race_send_svr: "ep_close_send s = (s', outs) \<Longrightarrow> race_step (c, s) (give outs c, s')"

text \<open>A run of such steps as a function, to follow one schedule.\<close>

datatype link_action = RecvCli | RecvSvr | OpenCli | CloseCli | CloseSvr | TestCli | TestSvr | SendCli | SendSvr

fun link_act :: "link_action \<Rightarrow> kcp_link \<Rightarrow> kcp_link option" where
  "link_act RecvCli (c, s) = map_option (\<lambda>(c', outs). (c', give outs s)) (ep_recv c)"
| "link_act RecvSvr (c, s) = map_option (\<lambda>(s', outs). (give outs c, s')) (ep_recv s)"
| "link_act OpenCli (c, s) = (case ep_open c of (c', outs) \<Rightarrow> Some (c', give outs s))"
| "link_act CloseCli (c, s) = (case ep_close c of (c', outs) \<Rightarrow> Some (c', give outs s))"
| "link_act CloseSvr (c, s) = (case ep_close s of (s', outs) \<Rightarrow> Some (give outs c, s'))"
| "link_act TestCli (c, s) = Some (ep_close_test c, s)"
| "link_act TestSvr (c, s) = Some (c, ep_close_test s)"
| "link_act SendCli (c, s) = (case ep_close_send c of (c', outs) \<Rightarrow> Some (c', give outs s))"
| "link_act SendSvr (c, s) = (case ep_close_send s of (s', outs) \<Rightarrow> Some (give outs c, s'))"

fun link_sched :: "link_action list \<Rightarrow> kcp_link \<Rightarrow> kcp_link option" where
  "link_sched [] l = Some l"
| "link_sched (a # as) l = Option.bind (link_act a l) (link_sched as)"

lemma link_act_race: "link_act a l = Some l' \<Longrightarrow> race_step l l'"
  by (cases "(a, l)" rule: link_act.cases)
    (auto intro: race_step.intros link_recv.intros split: prod.splits)

lemma link_sched_race:
  "link_sched as l = Some l' \<Longrightarrow> reachable link_init race_step l \<Longrightarrow> reachable link_init race_step l'"
proof (induction as arbitrary: l)
  case (Cons a as)
  then obtain l1 where "link_act a l = Some l1" and run: "link_sched as l1 = Some l'"
    by (auto simp: bind_eq_Some_conv)
  with Cons.prems(2) have "reachable link_init race_step l1"
    by (blast intro: reach_step link_act_race)
  with run show ?case by (rule Cons.IH)
qed simp

definition whole_actions :: "link_action set" where
  "whole_actions = {RecvCli, RecvSvr, OpenCli, CloseCli, CloseSvr}"

lemma link_act_step: "link_act a l = Some l' \<Longrightarrow> a \<in> whole_actions \<Longrightarrow> link_step l l'"
  by (cases "(a, l)" rule: link_act.cases)
    (auto simp: whole_actions_def intro: link_step.intros link_recv.intros split: prod.splits)

lemma link_sched_reachable:
  "link_sched as l = Some l' \<Longrightarrow> set as \<subseteq> whole_actions \<Longrightarrow> reachable link_init link_step l \<Longrightarrow>
     reachable link_init link_step l'"
proof (induction as arbitrary: l)
  case (Cons a as)
  then obtain l1 where a: "link_act a l = Some l1" and run: "link_sched as l1 = Some l'"
    by (auto simp: bind_eq_Some_conv)
  from a Cons.prems(2,3) have "reachable link_init link_step l1"
    by (auto intro: reach_step link_act_step)
  with run Cons.prems(2) show ?case by (auto intro: Cons.IH)
qed simp

lemma link_start: "reachable link_init link_step (new_end False, new_end True)"
  by (rule reach_init) (simp add: link_init_def)

lemmas sched_simps = new_end_def newKCPMux_def ep_open_def mux_init_def ep_recv_def ep_close_def
  inline_simps give_def ep_close_test_def ep_close_send_def mux_close_def push_init_def
  status_after_def kcpMuxUninit_def kcpMuxInit_def whole_actions_def

text \<open>
  The server tests its state, the client closes, the server answers it, and only then sends the
  message it had decided on.
\<close>

definition race_schedule :: "link_action list" where
  "race_schedule = [OpenCli, RecvSvr, RecvCli, RecvSvr, TestSvr, TestCli, SendCli, RecvSvr, SendSvr, RecvCli]"

lemma race_schedule_result:
  "\<exists>c s. link_sched race_schedule (new_end False, new_end True) = Some (c, s)
     \<and> ep_status c = ReadErr (InlineInvalid kmsClosing kmsFinWait1 False) \<and> mx_state (ep_mux s) = kmsClosing"
proof -
  have inv: "inlineProtocol m kmsClosing = (m, [], 0, Some (InlineInvalid kmsClosing kmsFinWait1 (mx_isListen m)))"
    if "mx_state m = kmsFinWait1" for m
    using that by (simp add: inlineProtocol_def kms_defs)
  show ?thesis
    by (simp add: race_schedule_def inv sched_simps)
qed

section \<open>Properties\<close>

text \<open>Neither end of a connection ever meets an invalid message; ends that may stop are in \<open>Kcp_Timeouts\<close>.\<close>

lemma link_never_invalid:
  assumes "reachable link_init link_step (c, s)"
  shows "ep_status c \<in> {ReadActive, ReadEOF} \<and> ep_status s \<in> {ReadActive, ReadEOF}
    \<and> \<not> mx_blocked (ep_mux c) \<and> \<not> mx_blocked (ep_mux s)"
  using link.inv_reachable [OF assms] config_status
  by (fastforce simp: link_inv_def end_ok_def mux_tokens_def config_def)

text \<open>C13.
  Liveness of the handshake: once the client has begun it and before either end closes, the two
  read loops alone always come to rest, and wherever they do both ends are established with their
  loops still running.
\<close>

theorem kcp_handshake_establishes:
  assumes "reachable link_init link_step l" and "mx_initFlag (ep_mux (fst l)) = kcpMuxInit"
    and "mux_phase (mx_state (ep_mux (fst l))) \<le> 2" and "mux_phase (mx_state (ep_mux (snd l))) \<le> 2"
  shows "(\<exists>l'. steps link_recv l l' \<and> (\<forall>l''. \<not> link_recv l' l''))
    \<and> (\<forall>l'. steps link_recv l l' \<and> (\<forall>l''. \<not> link_recv l' l'') \<longrightarrow>
         mx_state (ep_mux (fst l')) = kmsEstablished \<and> mx_state (ep_mux (snd l')) = kmsEstablished
         \<and> ep_status (fst l') = ReadActive \<and> ep_status (snd l') = ReadActive)"
proof (intro conjI allI impI; (elim conjE)?)
  have inv: "link_inv l" by (rule link.inv_reachable [OF assms(1)])
  then show "\<exists>l'. steps link_recv l l' \<and> (\<forall>l''. \<not> link_recv l' l'')" by (rule link_runs_out)
  fix l' assume r: "steps link_recv l l'" and q: "\<forall>l''. \<not> link_recv l' l''"
  have "link_opening l" using inv assms by (simp add: link_opening_def config_preds_iff)
  then have "link_opening l'" by (rule opening_run.inv_steps [OF r])
  then have e: "config_established (config l')" using link_quiet [OF _ q] by (simp add: link_opening_def)
  from e show "mx_state (ep_mux (fst l')) = kmsEstablished" "mx_state (ep_mux (snd l')) = kmsEstablished"
    "ep_status (fst l') = ReadActive" "ep_status (snd l') = ReadActive"
    by (simp_all add: config_preds_iff)
qed

theorem kcp_handshake_establishes_witness:
  "\<exists>l. link_sched [OpenCli] (new_end False, new_end True) = Some l
    \<and> (\<exists>l'. steps link_recv l l' \<and> (\<forall>l''. \<not> link_recv l' l''))"
proof -
  obtain l where run: "link_sched [OpenCli] (new_end False, new_end True) = Some l"
    and p: "mx_initFlag (ep_mux (fst l)) = kcpMuxInit" "mux_phase (mx_state (ep_mux (fst l))) \<le> 2"
    "mux_phase (mx_state (ep_mux (snd l))) \<le> 2"
    by (simp add: sched_simps)
  have "reachable link_init link_step l"
    by (rule link_sched_reachable [OF run _ link_start]) (simp add: whole_actions_def)
  from kcp_handshake_establishes [OF this p] run show ?thesis by blast
qed



text \<open>C31.
  A race in \<open>close\<close>: the swap to \<open>kmsFinWait1\<close> and the send of that message are separate, so an end
  that is closed by its peer in between answers \<open>kmsClosing\<close> before its own \<open>kmsFinWait1\<close>. The peer,
  still in \<open>kmsFinWait1\<close>, refuses it and its read loop ends with an error instead of \<open>io.EOF\<close>.
\<close>

theorem simultaneous_close_race:
  "\<exists>c s. reachable link_init race_step (c, s)
     \<and> ep_status c = ReadErr (InlineInvalid kmsClosing kmsFinWait1 False) \<and> mx_state (ep_mux s) = kmsClosing"
  using race_schedule_result link_sched_race [OF _ reach_init] by (fastforce simp: link_init_def)

end
