(* ===== verification/Kcp_Timeouts.thy ===== *)
theory Kcp_Timeouts
  imports Kcp_Handshake
begin

text \<open>
  The two ends of \<open>Kcp_Handshake\<close> when one of them may end at any time: the timers of \<open>init\<close> and \<open>close\<close> in
  \<open>pkg/xnet/kcp_mux.go\<close> fire, the socket is closed, or its connection fails. From then on the end takes no step, and of what it has
  sent the peer may still get a part.
\<close>

section \<open>Steps of one end\<close>


lemma give_Nil [simp]: "give [] e = e"
  by (simp add: give_def)


section \<open>Ends that stop\<close>



text \<open>\<open>lose\<close>: the frames beyond the first \<open>k\<close> that are in flight to an end never arrive.\<close>

definition lose :: "nat \<Rightarrow> kcp_end \<Rightarrow> kcp_end" where
  "lose k e = e\<lparr>ep_in := take k (ep_in e)\<rparr>"


section \<open>Simulation\<close>


definition sound_end :: "kcp_end \<Rightarrow> bool" where
  "sound_end e \<longleftrightarrow> ep_status e \<in> {ReadActive, ReadEOF} \<and> \<not> mx_blocked (ep_mux e)"




lemma sound_give [simp]: "sound_end (give outs e) = sound_end e" "sound_end (lose k e) = sound_end e"
  by (simp_all add: sound_end_def lose_def)







section \<open>Properties\<close>




end
