(* ===== verification/Actor_Handler.thy ===== *)
theory Actor_Handler
  imports Gotu_Prelude
begin

text \<open>
  The handler table of an actor, \<open>pkg/xactor/handler.go\<close>. A Go \<open>interface{}\<close> is nil or a value with
  its dynamic type; types are numbers, and \<open>t\<close> stands for the type \<open>*M\<close> of a type argument \<open>M\<close>.
  Handlers run on the state of the actor. A nil function and a missing map entry read the same,
  so both are \<open>None\<close>.
\<close>

section \<open>Dynamic types\<close>

type_synonym 'v iface = "(nat \<times> 'v) option"
type_synonym rtype = "nat option"

definition TypeOf :: "'v iface \<Rightarrow> rtype" where
  "TypeOf x = map_option fst x"

text \<open>\<open>x.(*M)\<close> with the comma-ok form\<close>

definition type_assert :: "nat \<Rightarrow> 'v iface \<Rightarrow> 'v option" where
  "type_assert t x = (case x of Some (t', v) \<Rightarrow> (if t' = t then Some v else None) | None \<Rightarrow> None)"

lemma type_assert_iff: "type_assert t x = Some v \<longleftrightarrow> x = Some (t, v)"
  by (auto simp: type_assert_def split: option.splits if_splits)

section \<open>Handlers\<close>

type_synonym ('st, 'v) sync_handler = "'st \<Rightarrow> 'v iface \<Rightarrow> 'st \<times> 'v iface \<times> go_error option"
type_synonym ('st, 'v) async_handler = "'st \<Rightarrow> 'v iface \<Rightarrow> 'st"
type_synonym 'st tick_handler = "'st \<Rightarrow> 'st"

definition SyncHandlerWrap :: "nat \<Rightarrow> nat \<Rightarrow> ('st \<Rightarrow> 'v \<Rightarrow> 'st \<times> 'v \<times> go_error option) \<Rightarrow>
    ('st, 'v) sync_handler option \<times> rtype" where
  "SyncHandlerWrap t1 t2 fn =
     (Some (\<lambda>st req. case type_assert t1 req of
        None \<Rightarrow> (st, None, Some ReqNotType)
      | Some r \<Rightarrow> (case fn st r of (st', resp, err) \<Rightarrow> (st', Some (t2, resp), err))), Some t1)"

definition AsyncHandlerWrap :: "nat \<Rightarrow> ('st \<Rightarrow> 'v \<Rightarrow> 'st) \<Rightarrow> ('st, 'v) async_handler option \<times> rtype" where
  "AsyncHandlerWrap t1 fn =
     (Some (\<lambda>st req. case type_assert t1 req of None \<Rightarrow> st | Some r \<Rightarrow> fn st r), Some t1)"

record ('st, 'v) handler_args =
  Syncs :: "(('st, 'v) sync_handler option \<times> rtype) list"
  Asyncs :: "(('st, 'v) async_handler option \<times> rtype) list"
  Tickers :: "'st tick_handler list"
  TickerDuration :: i64

record ('st, 'v) actor_handler =
  syncHandlers :: "rtype \<Rightarrow> ('st, 'v) sync_handler option"
  asyncHandler :: "rtype \<Rightarrow> ('st, 'v) async_handler option"
  tickFns :: "'st tick_handler list"
  tickerDuration :: i64

text \<open>\<open>1 * time.Minute\<close> in nanoseconds\<close>

definition defaultActorTickerDuration :: i64 where "defaultActorTickerDuration = 60000000000"

text \<open>One of the two registration loops; \<open>repeated\<close> makes its error.\<close>

fun register_loop :: "(rtype \<Rightarrow> go_error) \<Rightarrow> ('h option \<times> rtype) list \<Rightarrow> (rtype \<Rightarrow> 'h option) \<Rightarrow>
    go_error + (rtype \<Rightarrow> 'h option)" where
  "register_loop repeated [] tab = Inr tab"
| "register_loop repeated ((h, t) # hs) tab =
     (if tab t \<noteq> None then Inl (repeated t) else register_loop repeated hs (tab(t := h)))"

definition newActorHandler :: "('st, 'v) handler_args \<Rightarrow> go_error + ('st, 'v) actor_handler" where
  "newActorHandler arg =
     (case register_loop SyncRepeated (Syncs arg) (\<lambda>_. None) of
        Inl err \<Rightarrow> Inl err
      | Inr syncs \<Rightarrow>
          (case register_loop AsyncRepeated (Asyncs arg) (\<lambda>_. None) of
             Inl err \<Rightarrow> Inl err
           | Inr asyncs \<Rightarrow> Inr
               \<lparr>syncHandlers = syncs, asyncHandler = asyncs, tickFns = Tickers arg,
                tickerDuration = (if TickerDuration arg = 0 then defaultActorTickerDuration
                                  else TickerDuration arg)\<rparr>))"

definition getSyncHandler :: "('st, 'v) actor_handler \<Rightarrow> rtype \<Rightarrow> ('st, 'v) sync_handler option" where
  "getSyncHandler h t = syncHandlers h t"

definition getAsyncHandler :: "('st, 'v) actor_handler \<Rightarrow> rtype \<Rightarrow> ('st, 'v) async_handler option" where
  "getAsyncHandler h t = asyncHandler h t"

definition tick :: "('st, 'v) actor_handler \<Rightarrow> 'st \<Rightarrow> 'st" where
  "tick h st = fold (\<lambda>fn st. fn st) (tickFns h) st"

section \<open>Registration\<close>

text \<open>
  The loop against \<open>map_of\<close>, with handlers that are not nil: where the types are distinct and new it
  holds the entries of the list over the table it began with; otherwise it stops at the first type
  that is there already.
\<close>

definition table :: "('h option \<times> rtype) list \<Rightarrow> (rtype \<Rightarrow> 'h option) \<Rightarrow> rtype \<Rightarrow> 'h option" where
  "table hs tab t = (case map_of (map (\<lambda>(h, t). (t, h)) hs) t of Some h \<Rightarrow> h | None \<Rightarrow> tab t)"

lemma table_simps [simp]:
  "table [] tab = tab"
  "t \<notin> snd ` set hs \<Longrightarrow> table ((h, t) # hs) tab = table hs (tab(t := h))"
proof -
  show "table [] tab = tab" by (simp add: table_def fun_eq_iff)
  assume "t \<notin> snd ` set hs"
  then have "map_of (map (\<lambda>(h, t). (t, h)) hs) t = None" by (force simp: map_of_eq_None_iff)
  then show "table ((h, t) # hs) tab = table hs (tab(t := h))"
    by (auto simp: table_def fun_eq_iff split: option.splits)
qed

lemma table_get:
  "distinct (map snd hs) \<Longrightarrow> (h, t) \<in> set hs \<Longrightarrow> table hs tab t = h"
proof -
  assume "distinct (map snd hs)" and h: "(h, t) \<in> set hs"
  then have "distinct (map fst (map (\<lambda>(h, t). (t, h)) hs))" by (simp add: case_prod_beta comp_def)
  moreover have "(t, h) \<in> set (map (\<lambda>(h, t). (t, h)) hs)" using h by force
  ultimately show ?thesis using map_of_is_SomeI by (fastforce simp: table_def)
qed

lemma table_other: "t \<notin> snd ` set hs \<Longrightarrow> table hs tab t = tab t"
proof -
  assume "t \<notin> snd ` set hs"
  then have "map_of (map (\<lambda>(h, t). (t, h)) hs) t = None" by (force simp: map_of_eq_None_iff)
  then show ?thesis by (simp add: table_def)
qed

lemma register_loop_ok:
  "\<forall>(h, t) \<in> set hs. h \<noteq> None \<Longrightarrow> distinct (map snd hs) \<Longrightarrow> \<forall>t \<in> snd ` set hs. tab t = None \<Longrightarrow>
     register_loop repeated hs tab = Inr (table hs tab)"
proof (induction repeated hs tab rule: register_loop.induct)
  case (2 repeated h t hs tab)
  then have t: "t \<notin> snd ` set hs" and n: "tab t = None" by auto
  have "\<forall>u \<in> snd ` set hs. (tab(t := h)) u = None" using 2(4) t by auto
  with 2(1,2,3) n have "register_loop repeated hs (tab(t := h)) = Inr (table hs (tab(t := h)))"
    by (simp del: fun_upd_apply)
  with t n show ?case by simp
qed simp

lemma register_loop_Inr:
  "\<forall>(h, t) \<in> set hs. h \<noteq> None \<Longrightarrow> register_loop repeated hs tab = Inr tab' \<Longrightarrow>
     distinct (map snd hs) \<and> (\<forall>t \<in> snd ` set hs. tab t = None)"
proof (induction repeated hs tab rule: register_loop.induct)
  case (2 repeated h t hs tab)
  from 2(2,3) have n: "tab t = None" and h: "h \<noteq> None" by (auto split: if_splits)
  with 2 have d: "distinct (map snd hs)" and new: "\<forall>u \<in> snd ` set hs. (tab(t := h)) u = None"
    by (simp_all del: fun_upd_apply)
  have t: "t \<notin> snd ` set hs"
  proof
    assume "t \<in> snd ` set hs"
    with new have "(tab(t := h)) t = None" by (rule bspec)
    with h show False by simp
  qed
  have "\<forall>u \<in> snd ` set hs. tab u = None"
  proof
    fix u assume "u \<in> snd ` set hs"
    with new t show "tab u = None" by (metis fun_upd_other)
  qed
  with d t n show ?case by simp
qed simp

lemma register_loop_stops:
  "\<forall>(h, t) \<in> set hs. h \<noteq> None \<Longrightarrow>
     register_loop repeated hs tab = Inl err \<Longrightarrow>
     \<exists>pre h t post. hs = pre @ (h, t) # post \<and> err = repeated t
       \<and> (t \<in> snd ` set pre \<or> tab t \<noteq> None) \<and> distinct (map snd pre)
       \<and> (\<forall>u \<in> snd ` set pre. tab u = None)"
proof (induction repeated hs tab rule: register_loop.induct)
  case (2 repeated h t hs tab)
  show ?case
  proof (cases "tab t = None")
    case True
    with 2(2,3) have run: "register_loop repeated hs (tab(t := h)) = Inl err"
      and h: "h \<noteq> None" and hs: "\<forall>(h, t) \<in> set hs. h \<noteq> None" by auto
    obtain pre h' t' post where p: "hs = pre @ (h', t') # post" "err = repeated t'"
      "t' \<in> snd ` set pre \<or> (tab(t := h)) t' \<noteq> None" "distinct (map snd pre)"
      and new: "\<forall>u \<in> snd ` set pre. (tab(t := h)) u = None"
      using 2(1) [OF _ hs run] True by blast
    have t: "t \<notin> snd ` set pre"
    proof
      assume "t \<in> snd ` set pre"
      with new have "(tab(t := h)) t = None" by (rule bspec)
      with h show False by simp
    qed
    have old: "\<forall>u \<in> snd ` set ((h, t) # pre). tab u = None"
    proof
      fix u assume "u \<in> snd ` set ((h, t) # pre)"
      with new t True show "tab u = None" by (cases "u = t") (auto split: if_splits)
    qed
    have "t' \<in> snd ` set ((h, t) # pre) \<or> tab t' \<noteq> None" using p(3) by (auto split: if_splits)
    with p(1,2,4) t old show ?thesis
      by (intro exI [of _ "(h, t) # pre"] exI [of _ h'] exI [of _ t'] exI [of _ post]) simp
  next
    case False
    with 2 show ?thesis by (intro exI [of _ "[]"]) auto
  qed
qed simp

section \<open>Properties\<close>

text \<open>
  Registration of an actor's handlers, none of them nil: it succeeds exactly when no request type
  is given twice among the synchronous handlers nor among the asynchronous ones; then each request
  type is answered by its own handler and every other type by none. Otherwise the error names the
  first type that repeats.
\<close>

theorem handler_registration:
  assumes "\<forall>(h, t) \<in> set (Syncs arg). h \<noteq> None" and "\<forall>(h, t) \<in> set (Asyncs arg). h \<noteq> None"
  shows "case newActorHandler arg of
      Inr h \<Rightarrow> distinct (map snd (Syncs arg)) \<and> distinct (map snd (Asyncs arg))
        \<and> (\<forall>(f, t) \<in> set (Syncs arg). getSyncHandler h t = f)
        \<and> (\<forall>(f, t) \<in> set (Asyncs arg). getAsyncHandler h t = f)
        \<and> (\<forall>t. t \<notin> snd ` set (Syncs arg) \<longrightarrow> getSyncHandler h t = None)
        \<and> (\<forall>t. t \<notin> snd ` set (Asyncs arg) \<longrightarrow> getAsyncHandler h t = None)
    | Inl err \<Rightarrow>
        (\<exists>pre h t post. Syncs arg = pre @ (h, t) # post \<and> err = SyncRepeated t
           \<and> t \<in> snd ` set pre \<and> distinct (map snd pre))
      \<or> distinct (map snd (Syncs arg)) \<and>
        (\<exists>pre h t post. Asyncs arg = pre @ (h, t) # post \<and> err = AsyncRepeated t
           \<and> t \<in> snd ` set pre \<and> distinct (map snd pre))"
proof -
  have S: "register_loop SyncRepeated (Syncs arg) (\<lambda>_. None) = Inr (table (Syncs arg) (\<lambda>_. None))"
    if "distinct (map snd (Syncs arg))" by (rule register_loop_ok [OF assms(1) that]) simp
  have A: "register_loop AsyncRepeated (Asyncs arg) (\<lambda>_. None) = Inr (table (Asyncs arg) (\<lambda>_. None))"
    if "distinct (map snd (Asyncs arg))" by (rule register_loop_ok [OF assms(2) that]) simp
  show ?thesis
  proof (cases "register_loop SyncRepeated (Syncs arg) (\<lambda>_. None)")
    case (Inl err)
    with register_loop_stops [OF assms(1) Inl] show ?thesis by (simp add: newActorHandler_def)
  next
    case sync: (Inr syncs)
    then have ds: "distinct (map snd (Syncs arg))" using register_loop_Inr [OF assms(1)] by blast
    show ?thesis
    proof (cases "register_loop AsyncRepeated (Asyncs arg) (\<lambda>_. None)")
      case (Inl err)
      with sync ds register_loop_stops [OF assms(2) Inl] show ?thesis by (simp add: newActorHandler_def)
    next
      case async: (Inr asyncs)
      then have da: "distinct (map snd (Asyncs arg))" using register_loop_Inr [OF assms(2)] by blast
      with ds sync async S A show ?thesis
        by (auto simp: newActorHandler_def getSyncHandler_def getAsyncHandler_def table_get table_other)
    qed
  qed
qed

theorem handler_registration_witness:
  "case newActorHandler \<lparr>Syncs = [SyncHandlerWrap 1 2 (\<lambda>st v. (st + v, v, None)), SyncHandlerWrap 1 3 (\<lambda>st v. (st, st, None))],
      Asyncs = [AsyncHandlerWrap 1 (\<lambda>st v. v)], Tickers = [Suc], TickerDuration = 0\<rparr> of
     Inr h \<Rightarrow> False
   | Inl err \<Rightarrow> err = SyncRepeated (Some 1)"
  using handler_registration [of "\<lparr>Syncs = [SyncHandlerWrap 1 2 (\<lambda>st v. (st + v, v, None)), SyncHandlerWrap 1 3 (\<lambda>st v. (st, st, None))],
      Asyncs = [AsyncHandlerWrap 1 (\<lambda>st v. v)], Tickers = [Suc], TickerDuration = 0\<rparr>"]
  by (auto simp: SyncHandlerWrap_def AsyncHandlerWrap_def Cons_eq_append_conv split: sum.splits)

end
