(* ===== verification/Actor_Loop.thy ===== *)
theory Actor_Loop
  imports Actor_Handler
begin

text \<open>
  An actor of \<open>pkg/xactor/actor_groutine.go\<close> with its mail box: callers put mails into a bounded
  channel, one goroutine (\<open>logicLoop\<close>) handles them one after another, a synchronous mail carries a
  channel for its one result. Contexts and the log are left out; a caller whose context is done
  may give up at any time.
\<close>

section \<open>Mails\<close>

definition syncMail :: int where "syncMail = 0"
definition asyncMail :: int where "asyncMail = 1"
definition mailMaxCount :: nat where "mailMaxCount = 100"

type_synonym 'v mail_result = "'v iface \<times> go_error option"

text \<open>\<open>m_id\<close> tells one mail from another, as its address does in the code.\<close>

record 'v mail =
  m_id :: nat
  m_t :: int
  m_req :: "'v iface"

definition newMail :: "nat \<Rightarrow> int \<Rightarrow> 'v iface \<Rightarrow> 'v mail" where
  "newMail i t req = \<lparr>m_id = i, m_t = t, m_req = req\<rparr>"

text \<open>
  The branch of \<open>logicLoop\<close> for a mail: the state of the actor after it and what goes to the
  mail's result channel.
\<close>

definition handle_mail :: "('st, 'v) actor_handler \<Rightarrow> 'st \<Rightarrow> 'v mail \<Rightarrow> 'st \<times> 'v mail_result option" where
  "handle_mail h st m =
     (if m_t m = syncMail then
        (case getSyncHandler h (TypeOf (m_req m)) of
           Some f \<Rightarrow> (case f st (m_req m) of (st', resp, err) \<Rightarrow> (st', Some (resp, err)))
         | None \<Rightarrow> (st, Some (None, Some HandlerNil)))
      else if m_t m = asyncMail then
        (case getAsyncHandler h (TypeOf (m_req m)) of
           Some f \<Rightarrow> (f st (m_req m), None)
         | None \<Rightarrow> (st, None))
      else (st, None))"

section \<open>The actor\<close>

text \<open>
  What a caller of \<open>syncRequest\<close> is doing with a mail: not involved, waiting in its \<open>select\<close>, or back
  with a result.
\<close>

datatype 'v call_status = NotCalled | Waiting | Returned "'v mail_result"

text \<open>
  \<open>ac_resultCh\<close> is the contents of the result channel of each mail, which holds one. \<open>ac_blocked\<close>
  would be the logic goroutine stuck in a send to a full one. \<open>ac_sent\<close> and \<open>ac_trace\<close> are history:
  the mails sent so far, and the turns of the loop (a mail, or \<open>None\<close> for the ticker).
\<close>

record ('st, 'v) actor =
  ac_handler :: "('st, 'v) actor_handler"
  ac_state :: 'st
  ac_box :: "'v mail list"
  ac_resultCh :: "nat \<Rightarrow> 'v mail_result list"
  ac_calls :: "nat \<Rightarrow> 'v call_status"
  ac_closed :: bool
  ac_running :: bool
  ac_blocked :: bool
  ac_sent :: "'v mail list"
  ac_trace :: "'v mail option list"

definition new_actor :: "('st, 'v) actor_handler \<Rightarrow> 'st \<Rightarrow> ('st, 'v) actor" where
  "new_actor h st =
     \<lparr>ac_handler = h, ac_state = st, ac_box = [], ac_resultCh = (\<lambda>_. []), ac_calls = (\<lambda>_. NotCalled),
      ac_closed = False, ac_running = True, ac_blocked = False, ac_sent = [], ac_trace = []\<rparr>"

text \<open>\<open>sendMail\<close> when the channel has room; with a full channel the caller waits.\<close>

definition sendMail :: "('st, 'v) actor \<Rightarrow> 'v mail \<Rightarrow> ('st, 'v) actor option" where
  "sendMail a m =
     (if length (ac_box a) < mailMaxCount
      then Some (a\<lparr>ac_box := ac_box a @ [m], ac_sent := ac_sent a @ [m]\<rparr>) else None)"

definition syncRequest_send :: "('st, 'v) actor \<Rightarrow> 'v iface \<Rightarrow> ('st, 'v) actor option" where
  "syncRequest_send a req =
     (let i = length (ac_sent a) in
      map_option (\<lambda>a. a\<lparr>ac_calls := (ac_calls a)(i := Waiting)\<rparr>) (sendMail a (newMail i syncMail req)))"

definition asyncRequest :: "('st, 'v) actor \<Rightarrow> 'v iface \<Rightarrow> ('st, 'v) actor option" where
  "asyncRequest a req = sendMail a (newMail (length (ac_sent a)) asyncMail req)"

text \<open>The two cases of the \<open>select\<close> of \<open>syncRequest\<close>.\<close>

definition syncRequest_result :: "('st, 'v) actor \<Rightarrow> nat \<Rightarrow> ('st, 'v) actor option" where
  "syncRequest_result a i =
     (case (ac_calls a i, ac_resultCh a i) of
        (Waiting, r # q) \<Rightarrow> Some (a\<lparr>ac_resultCh := (ac_resultCh a)(i := q),
                                    ac_calls := (ac_calls a)(i := Returned r)\<rparr>)
      | _ \<Rightarrow> None)"

definition syncRequest_cancel :: "('st, 'v) actor \<Rightarrow> nat \<Rightarrow> ('st, 'v) actor option" where
  "syncRequest_cancel a i =
     (if ac_calls a i = Waiting
      then Some (a\<lparr>ac_calls := (ac_calls a)(i := Returned (None, Some CancelRequest))\<rparr>) else None)"

text \<open>\<open>m.resultCh <- r\<close>\<close>

definition push_result :: "nat \<Rightarrow> 'v mail_result \<Rightarrow> ('st, 'v) actor \<Rightarrow> ('st, 'v) actor" where
  "push_result i r a =
     (if length (ac_resultCh a i) < 1
      then a\<lparr>ac_resultCh := (ac_resultCh a)(i := ac_resultCh a i @ [r])\<rparr>
      else a\<lparr>ac_blocked := True\<rparr>)"

text \<open>The turns of \<open>logicLoop\<close>: a mail, the ticker, the close channel. After the first two it ticks.\<close>

definition loop_mail :: "('st, 'v) actor \<Rightarrow> ('st, 'v) actor option" where
  "loop_mail a =
     (case ac_box a of
        m # q \<Rightarrow>
          if ac_running a \<and> \<not> ac_blocked a then
            (case handle_mail (ac_handler a) (ac_state a) m of (st, res) \<Rightarrow>
               let a1 = a\<lparr>ac_box := q, ac_trace := ac_trace a @ [Some m], ac_state := st\<rparr>;
                   a2 = (case res of None \<Rightarrow> a1 | Some r \<Rightarrow> push_result (m_id m) r a1)
               in Some (if ac_blocked a2 then a2 else a2\<lparr>ac_state := tick (ac_handler a) (ac_state a2)\<rparr>))
          else None
      | [] \<Rightarrow> None)"

definition loop_tick :: "('st, 'v) actor \<Rightarrow> ('st, 'v) actor option" where
  "loop_tick a =
     (if ac_running a \<and> \<not> ac_blocked a
      then Some (a\<lparr>ac_trace := ac_trace a @ [None], ac_state := tick (ac_handler a) (ac_state a)\<rparr>)
      else None)"

definition loop_close :: "('st, 'v) actor \<Rightarrow> ('st, 'v) actor option" where
  "loop_close a =
     (if ac_running a \<and> \<not> ac_blocked a \<and> ac_closed a then Some (a\<lparr>ac_running := False\<rparr>) else None)"

text \<open>\<open>Close\<close> up to its wait for the loop: closing a closed channel panics.\<close>

definition actor_Close :: "('st, 'v) actor \<Rightarrow> ('st, 'v) actor go" where
  "actor_Close a = (if ac_closed a then Panic CloseOfClosed else Ret (a\<lparr>ac_closed := True\<rparr>))"

inductive actor_step :: "('st, 'v) actor \<Rightarrow> ('st, 'v) actor \<Rightarrow> bool" where
  step_sync: "syncRequest_send a req = Some a' \<Longrightarrow> actor_step a a'"
| step_async: "asyncRequest a req = Some a' \<Longrightarrow> actor_step a a'"
| step_result: "syncRequest_result a i = Some a' \<Longrightarrow> actor_step a a'"
| step_cancel: "syncRequest_cancel a i = Some a' \<Longrightarrow> actor_step a a'"
| step_mail: "loop_mail a = Some a' \<Longrightarrow> actor_step a a'"
| step_tick: "loop_tick a = Some a' \<Longrightarrow> actor_step a a'"
| step_stop: "loop_close a = Some a' \<Longrightarrow> actor_step a a'"
| step_close: "actor_Close a = Ret a' \<Longrightarrow> actor_step a a'"

definition actor_init :: "('st, 'v) actor_handler \<Rightarrow> 'st \<Rightarrow> ('st, 'v) actor \<Rightarrow> bool" where
  "actor_init h st a \<longleftrightarrow> a = new_actor h st"

section \<open>The serial specification\<close>

text \<open>
  What an actor promises: its state and the results are those of handling the mails one at a
  time, in the order they were sent, with the tick functions after each turn.
\<close>

fun serial :: "('st, 'v) actor_handler \<Rightarrow> 'st \<Rightarrow> 'v mail option list \<Rightarrow> 'st \<times> (nat \<times> 'v mail_result) list" where
  "serial h st [] = (st, [])"
| "serial h st (None # ts) = serial h (tick h st) ts"
| "serial h st (Some m # ts) =
     (case handle_mail h st m of (st', res) \<Rightarrow>
        (case serial h (tick h st') ts of (st'', rs) \<Rightarrow>
           (st'', (case res of None \<Rightarrow> [] | Some r \<Rightarrow> [(m_id m, r)]) @ rs)))"

definition mails :: "'v mail option list \<Rightarrow> 'v mail list" where
  "mails ts = concat (map (\<lambda>t. case t of None \<Rightarrow> [] | Some m \<Rightarrow> [m]) ts)"

lemma mails_simps [simp]:
  "mails [] = []" "mails (None # ts) = mails ts" "mails (Some m # ts) = m # mails ts"
  "mails (ts @ us) = mails ts @ mails us"
  by (simp_all add: mails_def)

lemma serial_append:
  "serial h st (ts @ us) =
     (case serial h st ts of (st1, rs1) \<Rightarrow> (case serial h st1 us of (st2, rs2) \<Rightarrow> (st2, rs1 @ rs2)))"
  by (induction h st ts rule: serial.induct) (auto split: prod.splits)

lemma handle_mail_result: "snd (handle_mail h st m) \<noteq> None \<longleftrightarrow> m_t m = syncMail"
  by (auto simp: handle_mail_def syncMail_def asyncMail_def split: option.splits prod.splits)

lemma serial_ids: "map fst (snd (serial h st ts)) = map m_id (filter (\<lambda>m. m_t m = syncMail) (mails ts))"
proof (induction h st ts rule: serial.induct)
  case (3 h st m ts)
  obtain st' res where hm: "handle_mail h st m = (st', res)" by fastforce
  obtain st'' rs where s: "serial h (tick h st') ts = (st'', rs)" by fastforce
  from 3 [OF hm [symmetric]] s have "map fst rs = map m_id (filter (\<lambda>m. m_t m = syncMail) (mails ts))" by simp
  with hm s handle_mail_result [of h st m] show ?case by (auto split: option.splits)
qed auto

section \<open>The invariant\<close>

definition queue_ok :: "('st, 'v) actor \<Rightarrow> bool" where
  "queue_ok a \<longleftrightarrow> mails (ac_trace a) @ ac_box a = ac_sent a
     \<and> map m_id (ac_sent a) = [0..<length (ac_sent a)] \<and> length (ac_box a) \<le> mailMaxCount"

definition callers_ok :: "('st, 'v) actor \<Rightarrow> bool" where
  "callers_ok a \<longleftrightarrow> (\<forall>i. ac_calls a i \<noteq> NotCalled \<longrightarrow> i < length (ac_sent a))
     \<and> (\<forall>m \<in> set (ac_sent a). m_t m = syncMail \<longleftrightarrow> ac_calls a (m_id m) \<noteq> NotCalled)"

definition results :: "('st, 'v) actor_handler \<Rightarrow> 'st \<Rightarrow> ('st, 'v) actor \<Rightarrow> (nat \<times> 'v mail_result) list" where
  "results h st a = snd (serial h st (ac_trace a))"

fun call_ok :: "'v mail_result option \<Rightarrow> 'v mail_result list \<Rightarrow> 'v call_status \<Rightarrow> bool" where
  "call_ok res ch NotCalled \<longleftrightarrow> res = None \<and> ch = []"
| "call_ok res ch Waiting \<longleftrightarrow> ch = (case res of None \<Rightarrow> [] | Some r \<Rightarrow> [r])"
| "call_ok res ch (Returned r) \<longleftrightarrow> res = Some r \<and> ch = []
     \<or> r = (None, Some CancelRequest) \<and> ch = (case res of None \<Rightarrow> [] | Some r \<Rightarrow> [r])"

definition replies_ok :: "('st, 'v) actor_handler \<Rightarrow> 'st \<Rightarrow> ('st, 'v) actor \<Rightarrow> bool" where
  "replies_ok h st a \<longleftrightarrow>
     (\<forall>i. call_ok (map_of (results h st a) i) (ac_resultCh a i) (ac_calls a i))"

definition state_ok :: "('st, 'v) actor_handler \<Rightarrow> 'st \<Rightarrow> ('st, 'v) actor \<Rightarrow> bool" where
  "state_ok h st a \<longleftrightarrow> ac_handler a = h \<and> \<not> ac_blocked a \<and> ac_state a = fst (serial h st (ac_trace a))
     \<and> (\<not> ac_running a \<longrightarrow> ac_closed a)"

definition actor_inv :: "('st, 'v) actor_handler \<Rightarrow> 'st \<Rightarrow> ('st, 'v) actor \<Rightarrow> bool" where
  "actor_inv h st a \<longleftrightarrow> queue_ok a \<and> callers_ok a \<and> replies_ok h st a \<and> state_ok h st a"

lemmas actor_inv_defs = actor_inv_def queue_ok_def callers_ok_def replies_ok_def state_ok_def results_def

lemma queue_ids_distinct:
  "queue_ok a \<Longrightarrow> distinct (map m_id (mails (ac_trace a) @ ac_box a))"
  by (simp add: queue_ok_def del: map_append)

lemma unhandled_no_result:
  assumes "queue_ok a" and "ac_box a = m # q"
  shows "map_of (results h st a) (m_id m) = None"
proof -
  have "m_id m \<notin> set (map m_id (mails (ac_trace a)))"
    using queue_ids_distinct [OF assms(1)] assms(2) by simp
  then have "m_id m \<notin> set (map fst (results h st a))"
    unfolding results_def serial_ids by auto
  then show ?thesis by (simp add: map_of_eq_None_iff)
qed

text \<open>The mail turn under the invariant: the result channel has room, so the loop does not block.\<close>

lemma loop_mail_shape:
  assumes "actor_inv h st a" and "loop_mail a = Some a'"
  obtains m q st' res where "ac_box a = m # q" and "handle_mail h (ac_state a) m = (st', res)"
    and "a' = a\<lparr>ac_box := q, ac_trace := ac_trace a @ [Some m], ac_state := tick h st',
      ac_resultCh := (case res of None \<Rightarrow> ac_resultCh a | Some r \<Rightarrow> (ac_resultCh a)(m_id m := [r]))\<rparr>"
proof -
  obtain m q where box: "ac_box a = m # q" using assms(2) by (auto simp: loop_mail_def split: list.splits)
  obtain st' res where hm: "handle_mail h (ac_state a) m = (st', res)" by fastforce
  have inv: "queue_ok a" "replies_ok h st a" "state_ok h st a" using assms(1) by (auto simp: actor_inv_def)
  have "map_of (results h st a) (m_id m) = None" using unhandled_no_result [OF inv(1) box] .
  with inv(2) have ch: "ac_resultCh a (m_id m) = []"
    unfolding replies_ok_def by (cases "ac_calls a (m_id m)") (auto dest!: spec [of _ "m_id m"])
  have "a' = a\<lparr>ac_box := q, ac_trace := ac_trace a @ [Some m], ac_state := tick h st',
      ac_resultCh := (case res of None \<Rightarrow> ac_resultCh a | Some r \<Rightarrow> (ac_resultCh a)(m_id m := [r]))\<rparr>"
    using assms(2) box hm ch inv(3)
    by (cases a) (auto simp: loop_mail_def push_result_def state_ok_def Let_def split: option.splits if_splits)
  then show ?thesis by (rule that [OF box hm])
qed

lemma results_mail:
  assumes "state_ok h st a" and "handle_mail h (ac_state a) m = (st', res)"
    and "ac_trace a' = ac_trace a @ [Some m]"
  shows "results h st a' = results h st a @ (case res of None \<Rightarrow> [] | Some r \<Rightarrow> [(m_id m, r)])"
    and "fst (serial h st (ac_trace a')) = tick h st'"
  using assms by (auto simp: results_def state_ok_def serial_append split: prod.splits)

lemma mail_step_inv:
  assumes inv: "actor_inv h st a" and step: "loop_mail a = Some a'"
  shows "actor_inv h st a'"
proof -
  obtain m q st' res where box: "ac_box a = m # q" and hm: "handle_mail h (ac_state a) m = (st', res)"
    and a': "a' = a\<lparr>ac_box := q, ac_trace := ac_trace a @ [Some m], ac_state := tick h st',
      ac_resultCh := (case res of None \<Rightarrow> ac_resultCh a | Some r \<Rightarrow> (ac_resultCh a)(m_id m := [r]))\<rparr>"
    using loop_mail_shape [OF inv step] .
  have parts: "queue_ok a" "callers_ok a" "replies_ok h st a" "state_ok h st a"
    using inv by (auto simp: actor_inv_def)
  have rs: "results h st a' = results h st a @ (case res of None \<Rightarrow> [] | Some r \<Rightarrow> [(m_id m, r)])"
    and fin: "fst (serial h st (ac_trace a')) = tick h st'"
    using results_mail [OF parts(4) hm, of a'] a' by simp_all
  have new: "map_of (results h st a) (m_id m) = None" using unhandled_no_result [OF parts(1) box] .
  have called: "ac_calls a (m_id m) \<noteq> NotCalled" if "res = Some r" for r
  proof -
    have "m_t m = syncMail" using handle_mail_result [of h "ac_state a" m] hm that by simp
    moreover have "m \<in> set (ac_sent a)" using parts(1) box unfolding queue_ok_def
      by (metis in_set_conv_decomp)
    ultimately show ?thesis using parts(2) by (simp add: callers_ok_def)
  qed
  have "queue_ok a'" using parts(1) box a' by (auto simp: queue_ok_def)
  moreover have "callers_ok a'" using parts(2) a' by (simp add: callers_ok_def)
  moreover have "state_ok h st a'" using parts(4) fin a' by (simp add: state_ok_def)
  moreover have frame: "ac_calls a' = ac_calls a"
    "ac_resultCh a' = (case res of None \<Rightarrow> ac_resultCh a | Some r \<Rightarrow> (ac_resultCh a)(m_id m := [r]))"
    using a' by simp_all
  have "replies_ok h st a'"
    unfolding replies_ok_def
  proof
    fix i
    have old: "call_ok (map_of (results h st a) i) (ac_resultCh a i) (ac_calls a i)"
      using parts(3) by (simp add: replies_ok_def)
    show "call_ok (map_of (results h st a') i) (ac_resultCh a' i) (ac_calls a' i)"
    proof (cases "i = m_id m \<and> res \<noteq> None")
      case True
      then obtain r where r: "res = Some r" by auto
      with True old new called [OF r] show ?thesis
        by (cases "ac_calls a i") (auto simp: rs frame map_add_def)
    next
      case False
      with old show ?thesis by (auto simp: rs frame map_add_def split: option.splits)
    qed
  qed
  with calculation show ?thesis by (simp add: actor_inv_def)
qed

text \<open>The other steps; sends first.\<close>

lemma sendMail_Some:
  "sendMail a m = Some a' \<longleftrightarrow> length (ac_box a) < mailMaxCount
     \<and> a' = a\<lparr>ac_box := ac_box a @ [m], ac_sent := ac_sent a @ [m]\<rparr>"
  by (auto simp: sendMail_def)

lemma not_called_next: "callers_ok a \<Longrightarrow> ac_calls a (length (ac_sent a)) = NotCalled"
  by (auto simp: callers_ok_def)

lemma ids_below: "queue_ok a \<Longrightarrow> m \<in> set (ac_sent a) \<Longrightarrow> m_id m < length (ac_sent a)"
proof -
  assume "queue_ok a" and "m \<in> set (ac_sent a)"
  then have "m_id m \<in> set [0..<length (ac_sent a)]" unfolding queue_ok_def by (metis image_eqI set_map)
  then show ?thesis by simp
qed

lemma results_frame [simp]:
  "results h st (a\<lparr>ac_box := b\<rparr>) = results h st a" "results h st (a\<lparr>ac_sent := ms\<rparr>) = results h st a"
  "results h st (a\<lparr>ac_calls := c\<rparr>) = results h st a" "results h st (a\<lparr>ac_resultCh := ch\<rparr>) = results h st a"
  "results h st (a\<lparr>ac_running := r\<rparr>) = results h st a" "results h st (a\<lparr>ac_closed := r\<rparr>) = results h st a"
  by (simp_all add: results_def)

lemma replies_okD: "replies_ok h st a \<Longrightarrow> call_ok (map_of (results h st a) i) (ac_resultCh a i) (ac_calls a i)"
  by (simp add: replies_ok_def)

lemma sync_step_inv:
  assumes inv: "actor_inv h st a" and step: "syncRequest_send a req = Some a'"
  shows "actor_inv h st a'"
proof -
  let ?i = "length (ac_sent a)" let ?m = "newMail ?i syncMail req"
  have room: "length (ac_box a) < mailMaxCount"
    and a': "a' = a\<lparr>ac_box := ac_box a @ [?m], ac_sent := ac_sent a @ [?m],
      ac_calls := (ac_calls a)(?i := Waiting)\<rparr>"
    using step by (auto simp: syncRequest_send_def sendMail_Some Let_def)
  have parts: "queue_ok a" "callers_ok a" "replies_ok h st a" "state_ok h st a"
    using inv by (auto simp: actor_inv_def)
  have "queue_ok a'" using parts(1) room a' by (auto simp: queue_ok_def newMail_def)
  moreover have "callers_ok a'"
    using parts(2) ids_below [OF parts(1)] a' by (fastforce simp: callers_ok_def newMail_def)
  moreover have "state_ok h st a'" using parts(4) a' by (simp add: state_ok_def)
  moreover have "replies_ok h st a'"
    unfolding replies_ok_def
  proof
    fix i
    show "call_ok (map_of (results h st a') i) (ac_resultCh a' i) (ac_calls a' i)"
      using replies_okD [OF parts(3), of i] not_called_next [OF parts(2)] a' by (cases "i = ?i") auto
  qed
  ultimately show ?thesis by (simp add: actor_inv_def)
qed

lemma async_step_inv:
  assumes inv: "actor_inv h st a" and step: "asyncRequest a req = Some a'"
  shows "actor_inv h st a'"
proof -
  let ?i = "length (ac_sent a)" let ?m = "newMail ?i asyncMail req"
  have room: "length (ac_box a) < mailMaxCount"
    and a': "a' = a\<lparr>ac_box := ac_box a @ [?m], ac_sent := ac_sent a @ [?m]\<rparr>"
    using step by (auto simp: asyncRequest_def sendMail_Some)
  have parts: "queue_ok a" "callers_ok a" "replies_ok h st a" "state_ok h st a"
    using inv by (auto simp: actor_inv_def)
  have "queue_ok a'" using parts(1) room a' by (auto simp: queue_ok_def newMail_def)
  moreover have "callers_ok a'"
    using parts(2) not_called_next [OF parts(2)] a'
    by (auto simp: callers_ok_def newMail_def syncMail_def asyncMail_def less_SucI)
  moreover have "state_ok h st a'" using parts(4) a' by (simp add: state_ok_def)
  moreover have "replies_ok h st a'" using parts(3) a' by (simp add: replies_ok_def)
  ultimately show ?thesis by (simp add: actor_inv_def)
qed

lemma result_step_inv:
  assumes inv: "actor_inv h st a" and step: "syncRequest_result a i = Some a'"
  shows "actor_inv h st a'"
proof -
  obtain r q where w: "ac_calls a i = Waiting" and ch: "ac_resultCh a i = r # q"
    and a': "a' = a\<lparr>ac_resultCh := (ac_resultCh a)(i := q), ac_calls := (ac_calls a)(i := Returned r)\<rparr>"
    using step by (auto simp: syncRequest_result_def split: call_status.splits list.splits)
  have parts: "queue_ok a" "callers_ok a" "replies_ok h st a" "state_ok h st a"
    using inv by (auto simp: actor_inv_def)
  have "callers_ok a'" using parts(2) w a' by (auto simp: callers_ok_def)
  moreover have "queue_ok a'" "state_ok h st a'" using parts a' by (auto simp: queue_ok_def state_ok_def)
  moreover have "replies_ok h st a'"
    unfolding replies_ok_def
  proof
    fix j
    show "call_ok (map_of (results h st a') j) (ac_resultCh a' j) (ac_calls a' j)"
      using replies_okD [OF parts(3), of j] w ch a' by (cases "j = i") (auto split: option.splits)
  qed
  ultimately show ?thesis by (simp add: actor_inv_def)
qed

lemma cancel_step_inv:
  assumes inv: "actor_inv h st a" and step: "syncRequest_cancel a i = Some a'"
  shows "actor_inv h st a'"
proof -
  have w: "ac_calls a i = Waiting"
    and a': "a' = a\<lparr>ac_calls := (ac_calls a)(i := Returned (None, Some CancelRequest))\<rparr>"
    using step by (auto simp: syncRequest_cancel_def split: if_splits)
  have parts: "queue_ok a" "callers_ok a" "replies_ok h st a" "state_ok h st a"
    using inv by (auto simp: actor_inv_def)
  have "callers_ok a'" using parts(2) w a' by (auto simp: callers_ok_def)
  moreover have "queue_ok a'" "state_ok h st a'" using parts a' by (auto simp: queue_ok_def state_ok_def)
  moreover have "replies_ok h st a'"
    unfolding replies_ok_def
  proof
    fix j
    show "call_ok (map_of (results h st a') j) (ac_resultCh a' j) (ac_calls a' j)"
      using replies_okD [OF parts(3), of j] w a' by (cases "j = i") auto
  qed
  ultimately show ?thesis by (simp add: actor_inv_def)
qed

lemma tick_step_inv:
  assumes inv: "actor_inv h st a" and step: "loop_tick a = Some a'"
  shows "actor_inv h st a'"
proof -
  have a': "a' = a\<lparr>ac_trace := ac_trace a @ [None], ac_state := tick (ac_handler a) (ac_state a)\<rparr>"
    using step by (auto simp: loop_tick_def split: if_splits)
  with inv show ?thesis by (auto simp: actor_inv_defs serial_append split: prod.splits)
qed

lemma stop_step_inv:
  "actor_inv h st a \<Longrightarrow> loop_close a = Some a' \<Longrightarrow> actor_inv h st a'"
  "actor_inv h st a \<Longrightarrow> actor_Close a = Ret a' \<Longrightarrow> actor_inv h st a'"
  by (auto simp: loop_close_def actor_Close_def actor_inv_defs split: if_splits)

lemma actor_inv_step: "actor_inv h st a \<Longrightarrow> actor_step a a' \<Longrightarrow> actor_inv h st a'"
  by (erule actor_step.cases)
    (auto intro: sync_step_inv async_step_inv result_step_inv cancel_step_inv mail_step_inv
      tick_step_inv stop_step_inv)

lemma actor_inv_init: "actor_init h st a \<Longrightarrow> actor_inv h st a"
  by (simp add: actor_init_def new_actor_def actor_inv_defs mailMaxCount_def)

interpretation actor: inductive_invariant "actor_init h st" actor_step "actor_inv h st"
  for h st by unfold_locales (auto intro: actor_inv_init actor_inv_step)

section \<open>Progress and closing\<close>

lemma loop_mail_enabled: "actor_inv h st a \<Longrightarrow> ac_running a \<Longrightarrow> ac_box a \<noteq> [] \<Longrightarrow> \<exists>a'. loop_mail a = Some a'"
  by (auto simp: loop_mail_def actor_inv_defs neq_Nil_conv Let_def split: prod.splits)

lemma loop_mail_keeps:
  assumes "actor_inv h st a" and "loop_mail a = Some a'"
  shows "ac_running a' = ac_running a" and "ac_calls a' = ac_calls a" and "ac_sent a' = ac_sent a"
    and "length (ac_box a') < length (ac_box a)"
proof -
  obtain m q st' res where "ac_box a = m # q"
    and "a' = a\<lparr>ac_box := q, ac_trace := ac_trace a @ [Some m], ac_state := tick h st',
      ac_resultCh := (case res of None \<Rightarrow> ac_resultCh a | Some r \<Rightarrow> (ac_resultCh a)(m_id m := [r]))\<rparr>"
    using loop_mail_shape [OF assms] .
  then show "ac_running a' = ac_running a" "ac_calls a' = ac_calls a" "ac_sent a' = ac_sent a"
    "length (ac_box a') < length (ac_box a)" by simp_all
qed

text \<open>What the loop does when nothing but mails arrives at it: it empties the box.\<close>

definition serving :: "('st, 'v) actor_handler \<Rightarrow> 'st \<Rightarrow> (nat \<Rightarrow> 'v call_status) \<Rightarrow> ('st, 'v) actor \<Rightarrow> bool" where
  "serving h st calls a \<longleftrightarrow> actor_inv h st a \<and> ac_running a \<and> ac_calls a = calls"

interpretation serve: progress_measure "serving h st calls" "\<lambda>a a'. loop_mail a = Some a'" "serving h st calls"
  "\<lambda>a a'. loop_mail a = Some a'" "\<lambda>a. length (ac_box a)"
  for h st calls
  by unfold_locales (auto simp: serving_def loop_mail_keeps intro: mail_step_inv loop_mail_enabled)

lemma handled_has_result:
  assumes "actor_inv h st a" and "ac_box a = []" and "ac_calls a i = Waiting"
  shows "\<exists>r. ac_resultCh a i = [r]"
proof -
  have parts: "queue_ok a" "callers_ok a" "replies_ok h st a" "state_ok h st a"
    using assms(1) by (auto simp: actor_inv_def)
  have sent: "mails (ac_trace a) = ac_sent a" and ids: "map m_id (ac_sent a) = [0..<length (ac_sent a)]"
    using parts(1) assms(2) by (auto simp: queue_ok_def)
  have "i < length (ac_sent a)" using parts(2) assms(3) unfolding callers_ok_def by (metis call_status.distinct(1))
  then have "i \<in> set (map m_id (ac_sent a))" unfolding ids by simp
  then obtain m where m: "m \<in> set (ac_sent a)" "m_id m = i" by auto
  with parts(2) assms(3) have "m_t m = syncMail" by (simp add: callers_ok_def)
  with m sent have "i \<in> set (map fst (results h st a))" unfolding results_def serial_ids by auto
  then have "map_of (results h st a) i \<noteq> None" by (auto simp: map_of_eq_None_iff)
  with replies_okD [OF parts(3), of i] assms(3) show ?thesis by auto
qed

text \<open>After the loop has ended nothing is handled any more.\<close>

definition stranded :: "nat \<Rightarrow> ('st, 'v) actor \<Rightarrow> bool" where
  "stranded i a \<longleftrightarrow> \<not> ac_running a \<and> i < length (ac_sent a) \<and> ac_resultCh a i = []
     \<and> ac_calls a i \<in> {Waiting, Returned (None, Some CancelRequest)}"

interpretation stranding: inductive_invariant "stranded i" actor_step "stranded i"
  for i
proof unfold_locales
  fix a a' :: "('a, 'b) actor"
  assume "stranded i a" and "actor_step a a'"
  then show "stranded i a'"
    by (auto simp: stranded_def syncRequest_send_def asyncRequest_def sendMail_Some syncRequest_result_def
        syncRequest_cancel_def loop_mail_def loop_tick_def loop_close_def actor_Close_def Let_def
        elim!: actor_step.cases split: if_splits call_status.splits list.splits)
qed

lemma closed_stays: "actor_step a a' \<Longrightarrow> ac_closed a \<Longrightarrow> ac_closed a'"
  by (auto simp: syncRequest_send_def asyncRequest_def sendMail_Some syncRequest_result_def push_result_def
      syncRequest_cancel_def loop_mail_def loop_tick_def loop_close_def actor_Close_def Let_def
      elim!: actor_step.cases split: if_splits call_status.splits list.splits option.splits prod.splits)

interpretation closing: inductive_invariant ac_closed actor_step ac_closed
  by unfold_locales (auto intro: closed_stays)

section \<open>The actor of the tests\<close>

text \<open>
  \<open>LogicActor\<close> of \<open>pkg/xactor/actor_test.go\<close>: a counter and an echo; \<open>1\<close> stands for
  \<open>*ShowDataReq\<close>, \<open>2\<close> for \<open>*ShowDataResp\<close>. It is the concrete actor the witnesses run.
\<close>

definition logic_args :: "(nat, string) handler_args" where
  "logic_args =
     \<lparr>Syncs = [SyncHandlerWrap 1 2 (\<lambda>n str. (n + 1, str, None))],
      Asyncs = [AsyncHandlerWrap 1 (\<lambda>n str. n + 1)], Tickers = [\<lambda>n. n], TickerDuration = 50000000\<rparr>"

definition logic_handler :: "(nat, string) actor_handler" where
  "logic_handler = (case newActorHandler logic_args of Inr h \<Rightarrow> h | Inl e \<Rightarrow> undefined)"

definition logic_actor :: "(nat, string) actor" where
  "logic_actor = new_actor logic_handler 0"

definition logic_request :: "(nat, string) actor" where
  "logic_request = (case syncRequest_send logic_actor (Some (1, ''hi'')) of Some a \<Rightarrow> a | None \<Rightarrow> logic_actor)"

definition logic_stopped :: "(nat, string) actor" where
  "logic_stopped = logic_request\<lparr>ac_closed := True, ac_running := False\<rparr>"

lemma logic_simps:
  "ac_calls logic_request 0 = Waiting" "ac_running logic_request" "ac_sent logic_request = [newMail 0 syncMail (Some (1, ''hi''))]"
  "ac_box logic_request = [newMail 0 syncMail (Some (1, ''hi''))]" "ac_trace logic_request = []"
  "ac_resultCh logic_request 0 = []" "\<not> ac_running logic_stopped"
  "ac_calls logic_stopped 0 = Waiting" "ac_resultCh logic_stopped 0 = []" "\<not> ac_closed logic_request" "\<not> ac_blocked logic_request"
  by (simp_all add: logic_stopped_def logic_request_def logic_actor_def new_actor_def syncRequest_send_def
      sendMail_def mailMaxCount_def Let_def)

lemma logic_reachable:
  "reachable (actor_init logic_handler 0) actor_step logic_actor"
  "reachable (actor_init logic_handler 0) actor_step logic_request"
  "reachable (actor_init logic_handler 0) actor_step logic_stopped"
proof -
  show a: "reachable (actor_init logic_handler 0) actor_step logic_actor"
    by (rule reach_init) (simp add: actor_init_def logic_actor_def)
  have s: "syncRequest_send logic_actor (Some (1, ''hi'')) = Some logic_request"
    by (simp add: logic_request_def syncRequest_send_def sendMail_def logic_actor_def new_actor_def mailMaxCount_def Let_def)
  with a show b: "reachable (actor_init logic_handler 0) actor_step logic_request"
    by (blast intro: reach_step step_sync)
  have o: "\<not> ac_closed logic_request" "ac_running logic_request" "\<not> ac_blocked logic_request"
    by (simp_all add: logic_simps)
  then have "actor_step logic_request (logic_request\<lparr>ac_closed := True\<rparr>)"
    by (auto intro: step_close simp: actor_Close_def)
  moreover have "actor_step (logic_request\<lparr>ac_closed := True\<rparr>) logic_stopped"
    using o by (auto intro!: step_stop simp: loop_close_def logic_stopped_def)
  ultimately show "reachable (actor_init logic_handler 0) actor_step logic_stopped"
    using b by (blast intro: reach_step)
qed

section \<open>Properties\<close>

text \<open>
  The mail box is first in first out and loses nothing: at any time the mails handled so far
  followed by those waiting are the mails sent, in the order they were sent and each once; at most
  \<open>mailMaxCount\<close> wait, and the logic goroutine never blocks sending a result.
\<close>

theorem actor_mail_fifo:
  assumes "reachable (actor_init h st) actor_step a"
  shows "mails (ac_trace a) @ ac_box a = ac_sent a \<and> distinct (map m_id (ac_sent a))
    \<and> length (ac_box a) \<le> mailMaxCount \<and> \<not> ac_blocked a"
  using actor.inv_reachable [OF assms] by (simp add: actor_inv_def queue_ok_def state_ok_def)

theorem actor_mail_fifo_witness:
  "mails (ac_trace logic_request) @ ac_box logic_request = [newMail 0 syncMail (Some (1, ''hi''))]
    \<and> \<not> ac_blocked logic_request"
  using actor_mail_fifo [OF logic_reachable(2)] by (simp add: logic_simps)



text \<open>C20.
  While the logic loop runs every waiting request is answered: mail turns of the loop alone lead to a
  state in which the request can return, and with the result its mail has in the serial run.
\<close>

theorem actor_answers_waiting:
  assumes "reachable (actor_init h st) actor_step a" and "ac_running a" and "ac_calls a i = Waiting"
  shows "\<exists>a' r. steps (\<lambda>a a'. loop_mail a = Some a') a a' \<and> ac_calls a' i = Waiting
    \<and> ac_resultCh a' i = [r] \<and> map_of (snd (serial h st (ac_trace a'))) i = Some r"
proof -
  have "serving h st (ac_calls a) a" using actor.inv_reachable [OF assms(1)] assms(2) by (simp add: serving_def)
  then obtain a' where a': "steps (\<lambda>a a'. loop_mail a = Some a') a a'" "ac_box a' = []"
    and s: "actor_inv h st a'" "ac_calls a' i = Waiting"
    using serve.reaches_goal [of h st "ac_calls a" a] assms(3) by (auto simp: serving_def)
  obtain r where r: "ac_resultCh a' i = [r]" using handled_has_result [OF s(1) a'(2) s(2)] by blast
  have "replies_ok h st a'" using s(1) by (simp add: actor_inv_def)
  from replies_okD [OF this, of i] s(2) r have "map_of (snd (serial h st (ac_trace a'))) i = Some r"
    by (auto simp: results_def split: option.splits)
  with a'(1) s(2) r show ?thesis by blast
qed

theorem actor_answers_waiting_witness:
  "\<exists>a' r. steps (\<lambda>a a'. loop_mail a = Some a') logic_request a' \<and> ac_calls a' 0 = Waiting
    \<and> ac_resultCh a' 0 = [r] \<and> map_of (snd (serial logic_handler 0 (ac_trace a'))) 0 = Some r"
  by (rule actor_answers_waiting [OF logic_reachable(2)]) (simp_all add: logic_simps)

text \<open>C32.
  Mails that are in the box when the loop ends, or come later, are lost: a request that waits then is
  never answered; it can only end by its own context, and waits for ever without one.
\<close>

theorem actor_close_strands_requests:
  assumes "\<not> ac_running a" and "ac_calls a i = Waiting" and "ac_resultCh a i = []"
    and "reachable (actor_init h st) actor_step a" and "steps actor_step a a'"
  shows "ac_calls a' i \<in> {Waiting, Returned (None, Some CancelRequest)} \<and> syncRequest_result a' i = None"
proof -
  have "callers_ok a" using actor.inv_reachable [OF assms(4)] by (simp add: actor_inv_def)
  with assms(1,2,3) have "stranded i a" unfolding callers_ok_def stranded_def by (metis call_status.distinct(1) insertI1)
  then have "stranded i a'" by (rule stranding.inv_steps [OF assms(5)])
  then show ?thesis by (auto simp: stranded_def syncRequest_result_def split: call_status.splits)
qed

theorem actor_close_strands_requests_witness:
  "ac_calls logic_stopped 0 \<in> {Waiting, Returned (None, Some CancelRequest)}
     \<and> syncRequest_result logic_stopped 0 = None"
  by (rule actor_close_strands_requests [OF _ _ _ logic_reachable(3) steps_refl]) (simp_all add: logic_simps)

text \<open>
  \<open>Close\<close> is not idempotent: after one call of it any later call panics, whatever the actor has done
  in between.
\<close>

theorem actor_second_close_panics:
  assumes "actor_Close a = Ret a1" and "steps actor_step a1 a2"
  shows "actor_Close a2 = Panic CloseOfClosed"
proof -
  have "ac_closed a1" using assms(1) by (auto simp: actor_Close_def split: if_splits)
  then have "ac_closed a2" by (rule closing.inv_steps [OF assms(2)])
  then show ?thesis by (simp add: actor_Close_def)
qed

theorem actor_second_close_panics_witness:
  "actor_Close (logic_request\<lparr>ac_closed := True\<rparr>) = Panic CloseOfClosed"
  by (rule actor_second_close_panics [of logic_request, OF _ steps_refl]) (simp add: actor_Close_def logic_simps)

end
