(* ===== verification/Actor_Manager.thy ===== *)
theory Actor_Manager
  imports Actor_Loop
begin

text \<open>
  The table of actors, \<open>pkg/xactor/manager.go\<close>, with \<open>NewActorGroutine\<close>, \<open>Close\<close> and the typed
  requests of \<open>actor_groutine.go\<close> that use it. Actors live at addresses; the table maps names to
  them.
\<close>

section \<open>The table\<close>

record ('st, 'v) actor_world =
  actors :: "string \<rightharpoonup> nat"
  aw_heap :: "nat \<Rightarrow> ('st, 'v) actor"
  aw_name :: "nat \<Rightarrow> string"
  aw_next :: nat

definition empty_world :: "(nat \<Rightarrow> ('st, 'v) actor) \<Rightarrow> ('st, 'v) actor_world" where
  "empty_world garbage = \<lparr>actors = Map.empty, aw_heap = garbage, aw_name = (\<lambda>_. ''''), aw_next = 0\<rparr>"

definition registerActor :: "('st, 'v) actor_world \<Rightarrow> nat \<Rightarrow> go_error + ('st, 'v) actor_world" where
  "registerActor w a =
     (if actors w (aw_name w a) \<noteq> None then Inl (ActorRepeated (aw_name w a))
      else Inr (w\<lparr>actors := (actors w)(aw_name w a \<mapsto> a)\<rparr>))"

definition deregisterActor :: "('st, 'v) actor_world \<Rightarrow> nat \<Rightarrow> ('st, 'v) actor_world" where
  "deregisterActor w a = w\<lparr>actors := (actors w)(aw_name w a := None)\<rparr>"

definition GetActor :: "('st, 'v) actor_world \<Rightarrow> string \<Rightarrow> go_error + nat" where
  "GetActor w name = (case actors w name of None \<Rightarrow> Inl (ActorNil name) | Some a \<Rightarrow> Inr a)"

text \<open>\<open>name\<close> and \<open>args\<close> are what the module's \<open>Name\<close> and \<open>InitArg\<close> return, \<open>st\<close> is its state.\<close>

definition NewActorGroutine :: "('st, 'v) actor_world \<Rightarrow> string \<Rightarrow> ('st, 'v) handler_args \<Rightarrow> 'st \<Rightarrow>
    go_error + ('st, 'v) actor_world" where
  "NewActorGroutine w name args st =
     (case newActorHandler args of
        Inl err \<Rightarrow> Inl err
      | Inr h \<Rightarrow>
          registerActor (w\<lparr>aw_heap := (aw_heap w)(aw_next w := new_actor h st),
                           aw_name := (aw_name w)(aw_next w := name),
                           aw_next := aw_next w + 1\<rparr>) (aw_next w))"

section \<open>Requests\<close>

text \<open>
  \<open>SyncRequest[M1, M2]\<close>; \<open>call\<close> is \<open>syncRequest\<close> on the actor found, \<open>t2\<close> the type \<open>*M2\<close>.
\<close>

definition SyncRequest :: "nat \<Rightarrow> ('st, 'v) actor_world \<Rightarrow> string \<Rightarrow> (nat \<Rightarrow> 'v mail_result) \<Rightarrow> go_error + 'v" where
  "SyncRequest t2 w name call =
     (case GetActor w name of
        Inl err \<Rightarrow> Inl err
      | Inr a \<Rightarrow>
          (case call a of (result, err) \<Rightarrow>
             (case err of
                Some e \<Rightarrow> Inl e
              | None \<Rightarrow>
                  (case type_assert t2 result of
                     None \<Rightarrow> Inl ResultNotType
                   | Some resp \<Rightarrow> Inr resp))))"

text \<open>\<open>None\<close>: the caller waits for room in the mail box.\<close>

definition AsyncRequest :: "('st, 'v) actor_world \<Rightarrow> string \<Rightarrow> 'v iface \<Rightarrow> ('st, 'v) actor_world option" where
  "AsyncRequest w name req =
     (case GetActor w name of
        Inl err \<Rightarrow> Some w
      | Inr a \<Rightarrow> map_option (\<lambda>x. w\<lparr>aw_heap := (aw_heap w)(a := x)\<rparr>) (asyncRequest (aw_heap w a) req))"

section \<open>Closing\<close>

text \<open>
  \<open>Close\<close>: the close channel, then the wait, during which the actor runs, until its loop has ended,
  then the table.
\<close>

inductive Close :: "('st, 'v) actor_world \<Rightarrow> nat \<Rightarrow> ('st, 'v) actor_world \<Rightarrow> bool" where
  Close_returns: "actor_Close (aw_heap w a) = Ret x \<Longrightarrow> steps actor_step x y \<Longrightarrow> \<not> ac_running y \<Longrightarrow>
     Close w a (deregisterActor (w\<lparr>aw_heap := (aw_heap w)(a := y)\<rparr>) a)"

inductive close_list :: "('st, 'v) actor_world \<Rightarrow> nat list \<Rightarrow> ('st, 'v) actor_world \<Rightarrow> bool" where
  close_nil: "close_list w [] w"
| close_cons: "Close w a w1 \<Longrightarrow> close_list w1 as w' \<Longrightarrow> close_list w (a # as) w'"

text \<open>\<open>CloseAll\<close>: the actors of the table in the order the map iteration gives them.\<close>

inductive CloseAll :: "('st, 'v) actor_world \<Rightarrow> ('st, 'v) actor_world \<Rightarrow> bool" where
  "distinct as \<Longrightarrow> set as = ran (actors w) \<Longrightarrow> close_list w as w' \<Longrightarrow> CloseAll w w'"

inductive_cases close_nilE: "close_list w [] w'"
inductive_cases close_consE: "close_list w (a # as) w'"

section \<open>The invariant of the table\<close>

definition world_ok :: "('st, 'v) actor_world \<Rightarrow> bool" where
  "world_ok w \<longleftrightarrow> finite (dom (actors w)) \<and>
     (\<forall>name a. actors w name = Some a \<longrightarrow> a < aw_next w \<and> aw_name w a = name)"

lemma world_ok_new: "world_ok w \<Longrightarrow> NewActorGroutine w name args st = Inr w' \<Longrightarrow> world_ok w'"
  by (fastforce simp: world_ok_def NewActorGroutine_def registerActor_def less_SucI split: sum.splits if_splits)

lemma world_ok_deregister: "world_ok w \<Longrightarrow> world_ok (deregisterActor w a)"
  by (auto simp: world_ok_def deregisterActor_def)

lemma world_ok_Close: "Close w a w' \<Longrightarrow> world_ok w \<Longrightarrow> world_ok w'"
  by (erule Close.cases) (auto simp: world_ok_def deregisterActor_def)

lemma Close_effect:
  assumes "Close w a w'"
  shows "actors w' = (actors w)(aw_name w a := None)" and "aw_name w' = aw_name w"
    and "b \<noteq> a \<Longrightarrow> aw_heap w' b = aw_heap w b"
    and "\<not> ac_running (aw_heap w' a) \<and> ac_closed (aw_heap w' a)"
proof -
  obtain x y where x: "actor_Close (aw_heap w a) = Ret x" and y: "steps actor_step x y" "\<not> ac_running y"
    and w': "w' = deregisterActor (w\<lparr>aw_heap := (aw_heap w)(a := y)\<rparr>) a"
    using assms by cases
  have "ac_closed x" using x by (auto simp: actor_Close_def split: if_splits)
  then have "ac_closed y" by (rule closing.inv_steps [OF y(1)])
  then show "\<not> ac_running (aw_heap w' a) \<and> ac_closed (aw_heap w' a)" using y w' by (simp add: deregisterActor_def)
qed (use assms in \<open>auto simp: deregisterActor_def elim!: Close.cases\<close>)

text \<open>An open actor whose loop is not blocked can be closed: the loop takes the close channel.\<close>

definition closable :: "('st, 'v) actor \<Rightarrow> bool" where
  "closable x \<longleftrightarrow> \<not> ac_closed x \<and> \<not> ac_blocked x"

lemma Close_possible: "closable (aw_heap w a) \<Longrightarrow> \<exists>w'. Close w a w'"
proof -
  assume o: "closable (aw_heap w a)"
  let ?x = "(aw_heap w a)\<lparr>ac_closed := True\<rparr>"
  have c: "actor_Close (aw_heap w a) = Ret ?x" using o by (simp add: closable_def actor_Close_def)
  show ?thesis
  proof (cases "ac_running (aw_heap w a)")
    case True
    then have "actor_step ?x (?x\<lparr>ac_running := False\<rparr>)"
      using o by (auto intro!: step_stop simp: loop_close_def closable_def)
    then have "steps actor_step ?x (?x\<lparr>ac_running := False\<rparr>)" by (rule steps_one)
    then show ?thesis using Close_returns [OF c, of "?x\<lparr>ac_running := False\<rparr>"] by auto
  next
    case False
    then show ?thesis using Close_returns [OF c steps_refl] by auto
  qed
qed

lemma close_list_possible:
  "distinct as \<Longrightarrow> \<forall>a \<in> set as. closable (aw_heap w a) \<Longrightarrow> \<exists>w'. close_list w as w'"
proof (induction as arbitrary: w)
  case (Cons a as)
  then obtain w1 where w1: "Close w a w1" using Close_possible by (metis list.set_intros(1))
  have "\<forall>b \<in> set as. closable (aw_heap w1 b)"
  proof
    fix b assume b: "b \<in> set as"
    with Cons.prems(1) have "b \<noteq> a" by auto
    with Close_effect(3) [OF w1] Cons.prems(2) b show "closable (aw_heap w1 b)" by simp
  qed
  then obtain w' where "close_list w1 as w'" using Cons.IH [of w1] Cons.prems(1) by auto
  with w1 show ?case by (blast intro: close_cons)
qed (blast intro: close_nil)

lemma close_list_effect:
  "close_list w as w' \<Longrightarrow> distinct as \<Longrightarrow>
     aw_name w' = aw_name w
     \<and> actors w' = (\<lambda>n. if n \<in> aw_name w ` set as then None else actors w n)
     \<and> (\<forall>b. b \<notin> set as \<longrightarrow> aw_heap w' b = aw_heap w b)
     \<and> (\<forall>a \<in> set as. \<not> ac_running (aw_heap w' a) \<and> ac_closed (aw_heap w' a))"
proof (induction rule: close_list.induct)
  case (close_cons w a w1 as w')
  have ih: "aw_name w' = aw_name w1"
    "actors w' = (\<lambda>n. if n \<in> aw_name w1 ` set as then None else actors w1 n)"
    "\<forall>b. b \<notin> set as \<longrightarrow> aw_heap w' b = aw_heap w1 b"
    "\<forall>a \<in> set as. \<not> ac_running (aw_heap w' a) \<and> ac_closed (aw_heap w' a)"
    using close_cons by auto
  note e = Close_effect [OF close_cons(1)]
  have "aw_heap w' a = aw_heap w1 a" using ih(3) close_cons.prems by simp
  with ih e show ?case by (auto simp: fun_eq_iff)
qed auto

section \<open>Properties\<close>

text \<open>
  Starting an actor: a free name and a good handler table make the actor the one its name finds, with
  its loop running and an empty mail box, and leave every other name as it was; a name in use is an
  error, whoever has it.
\<close>

theorem new_actor_registered:
  assumes "newActorHandler args = Inr h"
  shows "if actors w name = None
    then \<exists>w'. NewActorGroutine w name args st = Inr w' \<and> GetActor w' name = Inr (aw_next w)
      \<and> aw_heap w' (aw_next w) = new_actor h st \<and> (\<forall>n. n \<noteq> name \<longrightarrow> GetActor w' n = GetActor w n)
    else NewActorGroutine w name args st = Inl (ActorRepeated name)"
  using assms by (auto simp: NewActorGroutine_def registerActor_def GetActor_def)

text \<open>
  Typed requests: a request of type \<open>*M1\<close> to a handler made by \<open>SyncHandlerWrap[M1, M2]\<close> comes back as
  what the wrapped function returns, its error or a response of type \<open>*M2\<close>; asking for another
  response type gives an error and never a value of the wrong type.
\<close>

theorem typed_request_roundtrip:
  assumes "newActorHandler args = Inr h" and "SyncHandlerWrap t1 t2 fn \<in> set (Syncs args)"
    and "\<forall>(f, t) \<in> set (Syncs args). f \<noteq> None" and "GetActor w name = Inr a"
    and "m_t m = syncMail" and "m_req m = Some (t1, v)"
    and "handle_mail h st m = (st', Some r)" and "call a = r"
  shows "case fn st v of
      (st1, resp, Some err) \<Rightarrow> st' = st1 \<and> SyncRequest t w name call = Inl err
    | (st1, resp, None) \<Rightarrow> st' = st1 \<and>
        SyncRequest t w name call = (if t = t2 then Inr resp else Inl ResultNotType)"
proof -
  obtain H where wrap: "SyncHandlerWrap t1 t2 fn = (Some H, Some t1)"
    and H: "H st (Some (t1, v)) = (case fn st v of (st', resp, err) \<Rightarrow> (st', Some (t2, resp), err))"
    by (simp add: SyncHandlerWrap_def type_assert_def)
  obtain syncs where reg: "register_loop SyncRepeated (Syncs args) (\<lambda>_. None) = Inr syncs"
    and h: "getSyncHandler h = syncs"
    using assms(1)
    by (cases "register_loop SyncRepeated (Syncs args) (\<lambda>_. None)")
      (fastforce simp: newActorHandler_def getSyncHandler_def split: sum.splits)+
  have d: "distinct (map snd (Syncs args))" using register_loop_Inr [OF assms(3) reg] by simp
  have "syncs = table (Syncs args) (\<lambda>_. None)" using register_loop_ok [OF assms(3) d] reg by auto
  with table_get [OF d assms(2) [unfolded wrap]] h have "getSyncHandler h (Some t1) = Some H" by simp
  with assms(4-8) H show ?thesis
    by (auto simp: handle_mail_def TypeOf_def SyncRequest_def type_assert_def split: prod.splits option.splits)
qed

text \<open>
  \<open>CloseAll\<close>, in whatever order the map gives the actors: where none of them is closed it can return,
  and when it does the table is empty and every actor that was in it is closed with its loop ended.
\<close>

theorem CloseAll_empties:
  assumes "world_ok w" and "\<forall>a \<in> ran (actors w). closable (aw_heap w a)"
  shows "(\<exists>w'. CloseAll w w') \<and>
    (\<forall>w'. CloseAll w w' \<longrightarrow> actors w' = Map.empty
       \<and> (\<forall>a \<in> ran (actors w). \<not> ac_running (aw_heap w' a) \<and> ac_closed (aw_heap w' a)))"
proof (intro conjI allI impI)
  have "finite (ran (actors w))" using assms(1) by (simp add: world_ok_def finite_ran)
  then obtain as where as: "set as = ran (actors w)" "distinct as" using finite_distinct_list by blast
  with close_list_possible [of as w] assms(2) show "\<exists>w'. CloseAll w w'" by (auto intro: CloseAll.intros)
next
  fix w' assume "CloseAll w w'"
  then obtain as where as: "distinct as" "set as = ran (actors w)" "close_list w as w'" by cases
  have names: "n \<in> aw_name w ` ran (actors w)" if "actors w n = Some a" for n a
    using that assms(1) by (force simp: world_ok_def ran_def)
  show "actors w' = Map.empty"
  proof
    fix n
    show "actors w' n = None"
      using close_list_effect [OF as(3,1)] as(2) names [of n] by (cases "actors w n") auto
  qed
  show "\<forall>a \<in> ran (actors w). \<not> ac_running (aw_heap w' a) \<and> ac_closed (aw_heap w' a)"
    using close_list_effect [OF as(3,1)] as(2) by simp
qed

section \<open>Witnesses\<close>

definition logic_world :: "(nat, string) actor_world" where
  "logic_world = (case NewActorGroutine (empty_world (\<lambda>_. logic_actor)) ''LogicActor'' logic_args 0 of
     Inr w \<Rightarrow> w | Inl e \<Rightarrow> empty_world (\<lambda>_. logic_actor))"

lemma logic_handler_new: "newActorHandler logic_args = Inr logic_handler"
  by (simp add: logic_handler_def newActorHandler_def logic_args_def SyncHandlerWrap_def AsyncHandlerWrap_def)

lemma logic_world_new:
  "NewActorGroutine (empty_world (\<lambda>_. logic_actor)) ''LogicActor'' logic_args 0 = Inr logic_world"
  by (simp add: logic_world_def NewActorGroutine_def logic_handler_new registerActor_def empty_world_def)

lemma logic_world_actors: "actors logic_world = [''LogicActor'' \<mapsto> 0]" "aw_heap logic_world 0 = logic_actor"
  by (simp_all add: logic_world_def NewActorGroutine_def logic_handler_new registerActor_def empty_world_def
      logic_actor_def)

theorem new_actor_registered_witness:
  "NewActorGroutine logic_world ''LogicActor'' logic_args 5 = Inl (ActorRepeated ''LogicActor'')"
  using new_actor_registered [OF logic_handler_new, of logic_world "''LogicActor''" 5]
  by (simp add: logic_world_actors)

theorem typed_request_roundtrip_witness:
  "SyncRequest 2 logic_world ''LogicActor'' (\<lambda>_. (Some (2, ''hi''), None)) = Inr ''hi''"
  using typed_request_roundtrip [OF logic_handler_new, of 1 2 "\<lambda>n str. (n + 1, str, None)" logic_world
      "''LogicActor''" 0 "newMail 0 syncMail (Some (1, ''hi''))" "''hi''" 0 1
      "(Some (2, ''hi''), None)" "\<lambda>_. (Some (2, ''hi''), None)" 2]
  by (simp add: logic_args_def SyncHandlerWrap_def newMail_def GetActor_def logic_world_actors handle_mail_def
      getSyncHandler_def logic_handler_def newActorHandler_def TypeOf_def type_assert_def AsyncHandlerWrap_def)

theorem CloseAll_empties_witness:
  "\<exists>w'. CloseAll logic_world w' \<and> actors w' = Map.empty"
proof -
  have "world_ok logic_world"
    using world_ok_new [OF _ logic_world_new] by (simp add: world_ok_def empty_world_def)
  moreover have "\<forall>a \<in> ran (actors logic_world). closable (aw_heap logic_world a)"
    by (simp add: logic_world_actors closable_def logic_actor_def new_actor_def)
  ultimately show ?thesis using CloseAll_empties by blast
qed

end
