(* ===== verification/Latency_Mock.thy ===== *)
theory Latency_Mock
  imports Gotu_Prelude
begin

text \<open>
  The module that simulates a bad network, \<open>pkg/xlatency/latency.go\<close>: it drops datagrams at random
  and holds the others back for a random time. Its handlers run on the goroutine of an actor, one
  at a time, each followed by \<open>tickLoop\<close>. Counters keep their width. The clock is an argument (Unix
  milliseconds); the generator of \<open>math/rand\<close> is a parameter.
\<close>

section \<open>The random generator\<close>

text \<open>\<open>rnd_seed\<close> is the generator after \<open>rand.Seed\<close>, \<open>rnd_int31n\<close> a draw of \<open>rand.Int31n\<close>.\<close>

record 'g go_rand =
  rnd_seed :: "i64 \<Rightarrow> 'g"
  rnd_int31n :: "i32 \<Rightarrow> 'g \<Rightarrow> i32 \<times> 'g"

text \<open>Documented: the result is in \<open>[0,n)\<close>; it panics if \<open>n <= 0\<close>.\<close>

definition rand_ok :: "'g go_rand \<Rightarrow> bool" where
  "rand_ok R \<longleftrightarrow> (\<forall>n g. 0 < sint n \<longrightarrow>
     0 \<le> sint (fst (rnd_int31n R n g)) \<and> sint (fst (rnd_int31n R n g)) < sint n)"

definition Int31n :: "'g go_rand \<Rightarrow> i32 \<Rightarrow> 'g \<Rightarrow> (i32 \<times> 'g) go" where
  "Int31n R n g = (if sint n \<le> 0 then Panic InvalidRandArg else Ret (rnd_int31n R n g))"

section \<open>The actor's state\<close>

record latencyMsg =
  lm_inout :: bool
  lm_at :: i64
  lm_msg :: bytes

record LatencyMockArgs =
  arName :: string
  arInLoss :: u32
  arInLatency :: u32
  arOutLoss :: u32
  arOutLatency :: u32

text \<open>\<open>'f\<close> stands for the two send functions.\<close>

record 'f LatencyActor =
  la_name :: string
  inLoss :: u32
  inLatency :: u32
  outLoss :: u32
  outLatency :: u32
  la_msgs :: "latencyMsg list"
  inBytes :: u32
  inLostBytes :: u32
  inLostPackets :: u32
  inPackets :: u32
  inDelay :: i64
  outBytes :: u32
  outLostBytes :: u32
  outLostPackets :: u32
  outPackets :: u32
  outDelay :: i64
  sendToCli :: "'f option"
  sendToSvr :: "'f option"

text \<open>\<open>NewLatencyActor\<close> without the start of its goroutine.\<close>

definition NewLatencyActor :: "LatencyMockArgs \<Rightarrow> 'f LatencyActor" where
  "NewLatencyActor arg =
     \<lparr>la_name = arName arg, inLoss = arInLoss arg, inLatency = arInLatency arg,
      outLoss = arOutLoss arg, outLatency = arOutLatency arg, la_msgs = [],
      inBytes = 0, inLostBytes = 0, inLostPackets = 0, inPackets = 0, inDelay = 0,
      outBytes = 0, outLostBytes = 0, outLostPackets = 0, outPackets = 0, outDelay = 0,
      sendToCli = None, sendToSvr = None\<rparr>"

section \<open>Operations\<close>

definition isLoss :: "'g go_rand \<Rightarrow> i64 \<Rightarrow> bool \<Rightarrow> nat \<Rightarrow> 'f LatencyActor \<times> 'g \<Rightarrow>
    (('f LatencyActor \<times> 'g) \<times> bool) go" where
  "isLoss R now inout len = (\<lambda>(l, g).
     if inout then
       (let l = l\<lparr>inPackets := inPackets l + 1\<rparr> in
        go_bind (Int31n R 100 (rnd_seed R now)) (\<lambda>(r, g).
          if sint r < sint (inLoss l)
          then Ret ((l\<lparr>inLostPackets := inLostPackets l + 1,
                       inLostBytes := inLostBytes l + of_nat len\<rparr>, g), True)
          else Ret ((l, g), False)))
     else
       (let l = l\<lparr>outPackets := outPackets l + 1\<rparr> in
        go_bind (Int31n R 100 (rnd_seed R now)) (\<lambda>(r, g).
          if sint r < sint (outLoss l)
          then Ret ((l\<lparr>outLostPackets := outLostPackets l + 1,
                       outLostBytes := outLostBytes l + of_nat len\<rparr>, g), True)
          else Ret ((l, g), False))))"

definition randLatency :: "'g go_rand \<Rightarrow> bool \<Rightarrow> 'f LatencyActor \<times> 'g \<Rightarrow>
    (('f LatencyActor \<times> 'g) \<times> i64) go" where
  "randLatency R inout = (\<lambda>(l, g).
     if inout then
       (if 0 < inLatency l then
          go_bind (Int31n R (inLatency l) g) (\<lambda>(r, g).
            Ret ((l\<lparr>inDelay := inDelay l + scast r\<rparr>, g), scast r))
        else Ret ((l, g), 0))
     else
       (if 0 < outLatency l then
          go_bind (Int31n R (outLatency l) g) (\<lambda>(r, g).
            Ret ((l\<lparr>outDelay := outDelay l + scast r\<rparr>, g), scast r))
        else Ret ((l, g), 0)))"

definition la_extend :: "'g go_rand \<Rightarrow> i64 \<Rightarrow> bool \<Rightarrow> bytes \<Rightarrow> 'f LatencyActor \<times> 'g \<Rightarrow>
    ('f LatencyActor \<times> 'g) go" where
  "la_extend R now inout msg = (\<lambda>(l, g).
     let l = (if inout then l\<lparr>inBytes := inBytes l + of_nat (length msg)\<rparr>
              else l\<lparr>outBytes := outBytes l + of_nat (length msg)\<rparr>) in
     go_bind (randLatency R inout (l, g)) (\<lambda>((l, g), rl).
       Ret (l\<lparr>la_msgs := la_msgs l @ [\<lparr>lm_inout = inout, lm_at = now + rl, lm_msg = msg\<rparr>]\<rparr>, g)))"

definition RegisterSendToSvr :: "'f option \<Rightarrow> 'f LatencyActor \<Rightarrow> 'f LatencyActor" where
  "RegisterSendToSvr f l = l\<lparr>sendToSvr := f\<rparr>"

definition RegisterSendToCli :: "'f option \<Rightarrow> 'f LatencyActor \<Rightarrow> 'f LatencyActor" where
  "RegisterSendToCli f l = l\<lparr>sendToCli := f\<rparr>"

text \<open>The two receivers read the clock once to seed and once for the deadline.\<close>

definition RecvFromCli :: "'g go_rand \<Rightarrow> i64 \<Rightarrow> i64 \<Rightarrow> bytes \<Rightarrow> 'f LatencyActor \<times> 'g \<Rightarrow>
    ('f LatencyActor \<times> 'g) go" where
  "RecvFromCli R now1 now2 msg s =
     go_bind (isLoss R now1 False (length msg) s) (\<lambda>(s, lost).
       if lost then Ret s else la_extend R now2 False msg s)"

definition RecvFromSvr :: "'g go_rand \<Rightarrow> i64 \<Rightarrow> i64 \<Rightarrow> bytes \<Rightarrow> 'f LatencyActor \<times> 'g \<Rightarrow>
    ('f LatencyActor \<times> 'g) go" where
  "RecvFromSvr R now1 now2 msg s =
     go_bind (isLoss R now1 True (length msg) s) (\<lambda>(s, lost).
       if lost then Ret s else la_extend R now2 True msg s)"

text \<open>\<open>tickLoop\<close>: what it sends, by which function, in order; the messages kept.\<close>

fun tick_loop :: "i64 \<Rightarrow> 'f LatencyActor \<Rightarrow> latencyMsg list \<Rightarrow> latencyMsg list \<Rightarrow> ('f \<times> bytes) list \<Rightarrow>
    latencyMsg list \<times> ('f \<times> bytes) list" where
  "tick_loop now l [] msgs sent = (msgs, sent)"
| "tick_loop now l (m # ms) msgs sent =
     (if sint now < sint (lm_at m) then tick_loop now l ms (msgs @ [m]) sent
      else
        (case (lm_inout m, sendToCli l, sendToSvr l) of
           (True, Some f, _) \<Rightarrow> tick_loop now l ms msgs (sent @ [(f, lm_msg m)])
         | (False, _, Some f) \<Rightarrow> tick_loop now l ms msgs (sent @ [(f, lm_msg m)])
         | _ \<Rightarrow> tick_loop now l ms msgs sent))"

definition tickLoop :: "i64 \<Rightarrow> 'f LatencyActor \<Rightarrow> 'f LatencyActor \<times> ('f \<times> bytes) list" where
  "tickLoop now l =
     (case tick_loop now l (la_msgs l) [] [] of (msgs, sent) \<Rightarrow> (l\<lparr>la_msgs := msgs\<rparr>, sent))"

text \<open>The two averages \<open>Close\<close> prints; a division by zero would panic.\<close>

definition go_div_u64 :: "u64 \<Rightarrow> u64 \<Rightarrow> u64 go" where
  "go_div_u64 a b = (if b = 0 then Panic DivideByZero else Ret (a div b))"

definition Close_average :: "u32 \<Rightarrow> u32 \<Rightarrow> i64 \<Rightarrow> u64 go" where
  "Close_average packets lostPackets delay =
     (let transfer = packets - lostPackets in
      if transfer \<noteq> 0 then go_div_u64 delay (ucast transfer) else Ret 0)"

definition Close_averages :: "'f LatencyActor \<Rightarrow> (u64 \<times> u64) go" where
  "Close_averages l =
     go_bind (Close_average (inPackets l) (inLostPackets l) (inDelay l)) (\<lambda>inAverageDelay.
       go_bind (Close_average (outPackets l) (outLostPackets l) (outDelay l)) (\<lambda>outAverageDelay.
         Ret (inAverageDelay, outAverageDelay)))"

section \<open>Ticks\<close>

definition due :: "i64 \<Rightarrow> latencyMsg \<Rightarrow> bool" where
  "due now m \<longleftrightarrow> sint (lm_at m) \<le> sint now"

text \<open>The function a message leaves by, when there is one.\<close>

definition outlet :: "'f LatencyActor \<Rightarrow> latencyMsg \<Rightarrow> 'f option" where
  "outlet l m = (if lm_inout m then sendToCli l else sendToSvr l)"

definition sends_of :: "'f LatencyActor \<Rightarrow> latencyMsg list \<Rightarrow> ('f \<times> bytes) list" where
  "sends_of l ms = concat (map (\<lambda>m. case outlet l m of None \<Rightarrow> [] | Some f \<Rightarrow> [(f, lm_msg m)]) ms)"

lemma tick_loop_eq:
  "tick_loop now l ms kept sent =
     (kept @ filter (\<lambda>m. \<not> due now m) ms, sent @ sends_of l (filter (due now) ms))"
proof (induction now l ms kept sent rule: tick_loop.induct)
  case (2 now l m ms kept sent)
  show ?case
  proof (cases "due now m")
    case True
    then have late: "\<not> sint now < sint (lm_at m)" by (simp add: due_def)
    have one: "sends_of l (m # ms') = (case outlet l m of None \<Rightarrow> [] | Some f \<Rightarrow> [(f, lm_msg m)]) @ sends_of l ms'"
      for ms' by (simp add: sends_of_def)
    have "tick_loop now l (m # ms) kept sent =
        tick_loop now l ms kept (sent @ (case outlet l m of None \<Rightarrow> [] | Some f \<Rightarrow> [(f, lm_msg m)]))"
      using late by (simp add: outlet_def split: option.split bool.split)
    also have "\<dots> = (kept @ filter (\<lambda>m. \<not> due now m) ms,
        sent @ (case outlet l m of None \<Rightarrow> [] | Some f \<Rightarrow> [(f, lm_msg m)]) @ sends_of l (filter (due now) ms))"
      using 2(2-) late by (cases "lm_inout m"; cases "sendToCli l"; cases "sendToSvr l") (simp_all add: outlet_def)
    finally show ?thesis using True by (simp add: one)
  next
    case False
    then have "sint now < sint (lm_at m)" by (simp add: due_def)
    with 2 False show ?thesis by simp
  qed
qed (simp add: sends_of_def)

lemma tickLoop_eq:
  "tickLoop now l = (l\<lparr>la_msgs := filter (\<lambda>m. \<not> due now m) (la_msgs l)\<rparr>,
     sends_of l (filter (due now) (la_msgs l)))"
  by (simp add: tickLoop_def tick_loop_eq)

section \<open>Receiving\<close>

text \<open>The fields of one direction.\<close>

definition loss_of :: "bool \<Rightarrow> 'f LatencyActor \<Rightarrow> u32" where
  "loss_of inout l = (if inout then inLoss l else outLoss l)"

definition latency_of :: "bool \<Rightarrow> 'f LatencyActor \<Rightarrow> u32" where
  "latency_of inout l = (if inout then inLatency l else outLatency l)"

definition packets_of :: "bool \<Rightarrow> 'f LatencyActor \<Rightarrow> u32" where
  "packets_of inout l = (if inout then inPackets l else outPackets l)"

definition lost_of :: "bool \<Rightarrow> 'f LatencyActor \<Rightarrow> u32" where
  "lost_of inout l = (if inout then inLostPackets l else outLostPackets l)"

definition delay_of :: "bool \<Rightarrow> 'f LatencyActor \<Rightarrow> i64" where
  "delay_of inout l = (if inout then inDelay l else outDelay l)"

lemmas direction_defs = loss_of_def latency_of_def packets_of_def lost_of_def delay_of_def

lemma direction_frame [simp]:
  "latency_of b (l\<lparr>la_msgs := ms\<rparr>) = latency_of b l" "packets_of b (l\<lparr>la_msgs := ms\<rparr>) = packets_of b l"
  "lost_of b (l\<lparr>la_msgs := ms\<rparr>) = lost_of b l" "delay_of b (l\<lparr>la_msgs := ms\<rparr>) = delay_of b l"
  by (simp_all add: direction_defs)

definition recv_from :: "'g go_rand \<Rightarrow> i64 \<Rightarrow> i64 \<Rightarrow> bool \<Rightarrow> bytes \<Rightarrow> 'f LatencyActor \<times> 'g \<Rightarrow>
    ('f LatencyActor \<times> 'g) go" where
  "recv_from R now1 now2 inout msg =
     (if inout then RecvFromSvr R now1 now2 msg else RecvFromCli R now1 now2 msg)"

text \<open>The draw that decides on the loss: a function of the clock alone.\<close>

definition loss_draw :: "'g go_rand \<Rightarrow> i64 \<Rightarrow> i32" where
  "loss_draw R now = fst (rnd_int31n R 100 (rnd_seed R now))"

definition loses :: "'g go_rand \<Rightarrow> i64 \<Rightarrow> bool \<Rightarrow> 'f LatencyActor \<Rightarrow> bool" where
  "loses R now inout l \<longleftrightarrow> sint (loss_draw R now) < sint (loss_of inout l)"

lemma Int31n_100: "Int31n R 100 g = Ret (rnd_int31n R 100 g)"
  by (simp add: Int31n_def)

lemma isLoss_result:
  "\<exists>l' g'. isLoss R now inout n (l, g) = Ret ((l', g'), loses R now inout l)
     \<and> la_msgs l' = la_msgs l \<and> sendToCli l' = sendToCli l \<and> sendToSvr l' = sendToSvr l
     \<and> g' = snd (rnd_int31n R 100 (rnd_seed R now))
     \<and> (\<forall>b. latency_of b l' = latency_of b l \<and> loss_of b l' = loss_of b l \<and> delay_of b l' = delay_of b l)
     \<and> (\<forall>b. packets_of b l' = packets_of b l + (if b = inout then 1 else 0))
     \<and> (\<forall>b. lost_of b l' = lost_of b l + (if b = inout \<and> loses R now inout l then 1 else 0))"
  by (auto simp: isLoss_def Int31n_100 loses_def loss_draw_def direction_defs Let_def split: prod.splits)

text \<open>A message that is kept: its deadline, or the panic of \<open>Int31n\<close>.\<close>

lemma extend_panics_iff:
  "la_extend R now inout msg (l, g) = Panic InvalidRandArg \<longleftrightarrow>
     \<not> (latency_of inout l = 0 \<or> 0 < sint (latency_of inout l))"
  by (auto simp: la_extend_def randLatency_def Int31n_def latency_of_def Let_def word_neq_0_conv split: prod.splits)

lemma sint_scast_i64 [simp]: "sint (scast (r :: i32) :: i64) = sint r"
  by (rule sint_up_scast) (simp add: is_up)

lemma randLatency_kept:
  assumes "randLatency R inout (l, g) = Ret ((l', g'), rl)" and "rand_ok R"
  shows "0 \<le> sint rl \<and> sint rl < max 1 (sint (latency_of inout l)) \<and> la_msgs l' = la_msgs l
     \<and> sendToCli l' = sendToCli l \<and> sendToSvr l' = sendToSvr l
     \<and> (\<forall>b. latency_of b l' = latency_of b l \<and> loss_of b l' = loss_of b l
          \<and> packets_of b l' = packets_of b l \<and> lost_of b l' = lost_of b l
          \<and> delay_of b l' = delay_of b l + (if b = inout then rl else 0))"
proof (cases "latency_of inout l = 0")
  case True
  with assms(1) show ?thesis by (auto simp: randLatency_def direction_defs split: if_splits)
next
  case False
  let ?r = "fst (rnd_int31n R (latency_of inout l) g)"
  have pos: "0 < sint (latency_of inout l)"
    using assms(1) False by (auto simp: randLatency_def Int31n_def direction_defs word_neq_0_conv split: if_splits)
  then have "0 \<le> sint ?r \<and> sint ?r < sint (latency_of inout l)" using assms(2) by (simp add: rand_ok_def)
  moreover have "rl = scast ?r" and "l' = (if inout then l\<lparr>inDelay := inDelay l + scast ?r\<rparr> else l\<lparr>outDelay := outDelay l + scast ?r\<rparr>)"
    using assms(1) False pos
    by (auto simp: randLatency_def Int31n_def latency_of_def word_neq_0_conv split: if_splits prod.splits)
  ultimately show ?thesis by (auto simp: direction_defs)
qed

lemma extend_kept:
  assumes "la_extend R now inout msg (l, g) = Ret (l', g')" and "rand_ok R"
  shows "\<exists>rl :: i64. la_msgs l' = la_msgs l @ [\<lparr>lm_inout = inout, lm_at = now + rl, lm_msg = msg\<rparr>]
     \<and> 0 \<le> sint rl \<and> sint rl < max 1 (sint (latency_of inout l))
     \<and> sendToCli l' = sendToCli l \<and> sendToSvr l' = sendToSvr l
     \<and> (\<forall>b. latency_of b l' = latency_of b l \<and> loss_of b l' = loss_of b l
          \<and> packets_of b l' = packets_of b l \<and> lost_of b l' = lost_of b l
          \<and> delay_of b l' = delay_of b l + (if b = inout then rl else 0))"
proof -
  define l0 where "l0 = (if inout then l\<lparr>inBytes := inBytes l + of_nat (length msg)\<rparr>
              else l\<lparr>outBytes := outBytes l + of_nat (length msg)\<rparr>)"
  obtain l1 rl where r: "randLatency R inout (l0, g) = Ret ((l1, g'), rl)"
    and l': "l' = l1\<lparr>la_msgs := la_msgs l1 @ [\<lparr>lm_inout = inout, lm_at = now + rl, lm_msg = msg\<rparr>]\<rparr>"
    using assms(1) by (auto simp: la_extend_def l0_def go_bind_eq_Ret)
  have l0: "la_msgs l0 = la_msgs l" "sendToCli l0 = sendToCli l" "sendToSvr l0 = sendToSvr l"
    "latency_of b l0 = latency_of b l" "loss_of b l0 = loss_of b l" "packets_of b l0 = packets_of b l"
    "lost_of b l0 = lost_of b l" "delay_of b l0 = delay_of b l" for b
    by (simp_all add: l0_def direction_defs)
  have app: "la_msgs l' = la_msgs l1 @ [\<lparr>lm_inout = inout, lm_at = now + rl, lm_msg = msg\<rparr>]"
    "sendToCli l' = sendToCli l1" "sendToSvr l' = sendToSvr l1"
    "latency_of b l' = latency_of b l1" "loss_of b l' = loss_of b l1" "packets_of b l' = packets_of b l1"
    "lost_of b l' = lost_of b l1" "delay_of b l' = delay_of b l1" for b
    by (simp_all add: l' direction_defs)
  show ?thesis
    using randLatency_kept [OF r assms(2)] unfolding app l0 by (intro exI [of _ rl]) simp
qed

text \<open>A receiver: the loss, or the kept message.\<close>

lemma recv_from_eq:
  "\<exists>l1 g1. recv_from R now1 now2 inout msg (l, g) =
      (if loses R now1 inout l then Ret (l1, g1) else la_extend R now2 inout msg (l1, g1))
     \<and> la_msgs l1 = la_msgs l \<and> sendToCli l1 = sendToCli l \<and> sendToSvr l1 = sendToSvr l
     \<and> (\<forall>b. latency_of b l1 = latency_of b l \<and> loss_of b l1 = loss_of b l \<and> delay_of b l1 = delay_of b l)
     \<and> (\<forall>b. packets_of b l1 = packets_of b l + (if b = inout then 1 else 0))
     \<and> (\<forall>b. lost_of b l1 = lost_of b l + (if b = inout \<and> loses R now1 inout l then 1 else 0))"
proof -
  obtain l1 g1 where loss: "isLoss R now1 inout (length msg) (l, g) = Ret ((l1, g1), loses R now1 inout l)"
    and frame: "la_msgs l1 = la_msgs l \<and> sendToCli l1 = sendToCli l \<and> sendToSvr l1 = sendToSvr l"
      "\<forall>b. latency_of b l1 = latency_of b l \<and> loss_of b l1 = loss_of b l \<and> delay_of b l1 = delay_of b l"
      "\<forall>b. packets_of b l1 = packets_of b l + (if b = inout then 1 else 0)"
      "\<forall>b. lost_of b l1 = lost_of b l + (if b = inout \<and> loses R now1 inout l then 1 else 0)"
    using isLoss_result [of R now1 inout "length msg" l g] by blast
  have "recv_from R now1 now2 inout msg (l, g) =
      (if loses R now1 inout l then Ret (l1, g1) else la_extend R now2 inout msg (l1, g1))"
    using loss by (cases inout) (simp_all add: recv_from_def RecvFromSvr_def RecvFromCli_def)
  with frame show ?thesis by blast
qed

section \<open>Runs\<close>

text \<open>What reaches the actor: datagrams from either side with the two clock readings, and ticks.\<close>

datatype latency_event = Recv bool bytes i64 i64 | Tick i64

text \<open>The state with its history: the datagrams received, lost, and taken out by ticks.\<close>

record ('f, 'g) latency_run =
  lr_actor :: "'f LatencyActor"
  lr_rand :: 'g
  lr_received :: "(bool \<times> bytes) list"
  lr_lost :: "(bool \<times> bytes) list"
  lr_done :: "latencyMsg list"
  lr_sent :: "('f \<times> bytes) list"

definition new_run :: "'f LatencyActor \<Rightarrow> 'g \<Rightarrow> ('f, 'g) latency_run" where
  "new_run l g = \<lparr>lr_actor = l, lr_rand = g, lr_received = [], lr_lost = [], lr_done = [], lr_sent = []\<rparr>"

fun run_event :: "'g go_rand \<Rightarrow> latency_event \<Rightarrow> ('f, 'g) latency_run \<Rightarrow> ('f, 'g) latency_run go" where
  "run_event R (Recv inout msg now1 now2) w =
     go_bind (recv_from R now1 now2 inout msg (lr_actor w, lr_rand w)) (\<lambda>(l, g).
       Ret (w\<lparr>lr_actor := l, lr_rand := g, lr_received := lr_received w @ [(inout, msg)],
              lr_lost := lr_lost w @ (if loses R now1 inout (lr_actor w) then [(inout, msg)] else [])\<rparr>))"
| "run_event R (Tick now) w =
     (case tickLoop now (lr_actor w) of (l, sent) \<Rightarrow>
        Ret (w\<lparr>lr_actor := l, lr_done := lr_done w @ filter (due now) (la_msgs (lr_actor w)),
               lr_sent := lr_sent w @ sent\<rparr>))"

fun run_events :: "'g go_rand \<Rightarrow> latency_event list \<Rightarrow> ('f, 'g) latency_run \<Rightarrow> ('f, 'g) latency_run go" where
  "run_events R [] w = Ret w"
| "run_events R (e # es) w = go_bind (run_event R e w) (run_events R es)"

definition strip :: "latencyMsg \<Rightarrow> bool \<times> bytes" where
  "strip m = (lm_inout m, lm_msg m)"

definition way :: "bool \<Rightarrow> (bool \<times> bytes) list \<Rightarrow> nat" where
  "way b xs = length (filter (\<lambda>x. fst x = b) xs)"

lemma way_simps [simp]: "way b [] = 0" "way b (xs @ ys) = way b xs + way b ys"
  "way b [x] = (if fst x = b then 1 else 0)"
  by (simp_all add: way_def)

text \<open>
  Nothing is duplicated or forgotten; the packet counters count, and the delay counter stays below
  what its messages can have drawn, while no counter has wrapped.
\<close>

definition run_conserves :: "('f, 'g) latency_run \<Rightarrow> bool" where
  "run_conserves w \<longleftrightarrow> mset (lr_received w) =
     mset (lr_lost w) + mset (map strip (la_msgs (lr_actor w))) + mset (map strip (lr_done w))"

definition run_sends :: "('f, 'g) latency_run \<Rightarrow> bool" where
  "run_sends w \<longleftrightarrow> lr_sent w = sends_of (lr_actor w) (lr_done w)"

definition run_counts :: "LatencyMockArgs \<Rightarrow> ('f, 'g) latency_run \<Rightarrow> bool" where
  "run_counts arg w \<longleftrightarrow>
     (\<forall>b. packets_of b (lr_actor w) = of_nat (way b (lr_received w))
        \<and> lost_of b (lr_actor w) = of_nat (way b (lr_lost w))
        \<and> way b (lr_lost w) \<le> way b (lr_received w)
        \<and> latency_of b (lr_actor w) = (if b then arInLatency arg else arOutLatency arg))"

lemma run_Recv_cases:
  assumes "run_event R (Recv inout msg now1 now2) w = Ret w'" and "rand_ok R"
  obtains l g rl where
    "w' = w\<lparr>lr_actor := l, lr_rand := g, lr_received := lr_received w @ [(inout, msg)],
       lr_lost := lr_lost w @ (if loses R now1 inout (lr_actor w) then [(inout, msg)] else [])\<rparr>"
    "la_msgs l = la_msgs (lr_actor w) @ (if loses R now1 inout (lr_actor w) then []
       else [\<lparr>lm_inout = inout, lm_at = now2 + rl, lm_msg = msg\<rparr>])"
    "sendToCli l = sendToCli (lr_actor w)" "sendToSvr l = sendToSvr (lr_actor w)"
    "\<forall>b. latency_of b l = latency_of b (lr_actor w)"
    "\<forall>b. packets_of b l = packets_of b (lr_actor w) + (if b = inout then 1 else 0)"
    "\<forall>b. lost_of b l = lost_of b (lr_actor w) + (if b = inout \<and> loses R now1 inout (lr_actor w) then 1 else 0)"
    "\<forall>b. delay_of b l = delay_of b (lr_actor w)
       + (if b = inout \<and> \<not> loses R now1 inout (lr_actor w) then rl else 0)"
    "0 \<le> sint rl" "sint rl < max 1 (sint (latency_of inout (lr_actor w)))"
proof -
  let ?a = "lr_actor w" let ?lose = "loses R now1 inout ?a"
  obtain l g where run: "recv_from R now1 now2 inout msg (?a, lr_rand w) = Ret (l, g)"
    and w': "w' = w\<lparr>lr_actor := l, lr_rand := g, lr_received := lr_received w @ [(inout, msg)],
       lr_lost := lr_lost w @ (if ?lose then [(inout, msg)] else [])\<rparr>"
    using assms(1) by (auto simp: go_bind_eq_Ret)
  obtain l1 g1 where split: "recv_from R now1 now2 inout msg (?a, lr_rand w) =
      (if ?lose then Ret (l1, g1) else la_extend R now2 inout msg (l1, g1))"
    and f: "la_msgs l1 = la_msgs ?a" "sendToCli l1 = sendToCli ?a" "sendToSvr l1 = sendToSvr ?a"
      "\<forall>b. latency_of b l1 = latency_of b ?a \<and> loss_of b l1 = loss_of b ?a \<and> delay_of b l1 = delay_of b ?a"
      "\<forall>b. packets_of b l1 = packets_of b ?a + (if b = inout then 1 else 0)"
      "\<forall>b. lost_of b l1 = lost_of b ?a + (if b = inout \<and> ?lose then 1 else 0)"
    using recv_from_eq [of R now1 now2 inout msg ?a "lr_rand w"] by blast
  show ?thesis
  proof (cases ?lose)
    case True
    with run split have "l = l1" by simp
    with w' f True show ?thesis by (intro that [where l = l and g = g and rl = 0]) auto
  next
    case False
    with run split have "la_extend R now2 inout msg (l1, g1) = Ret (l, g)" by simp
    from extend_kept [OF this assms(2)] obtain rl where
      "la_msgs l = la_msgs l1 @ [\<lparr>lm_inout = inout, lm_at = now2 + rl, lm_msg = msg\<rparr>]"
      "0 \<le> sint rl" "sint rl < max 1 (sint (latency_of inout l1))"
      "sendToCli l = sendToCli l1" "sendToSvr l = sendToSvr l1"
      "\<forall>b. latency_of b l = latency_of b l1 \<and> loss_of b l = loss_of b l1
          \<and> packets_of b l = packets_of b l1 \<and> lost_of b l = lost_of b l1
          \<and> delay_of b l = delay_of b l1 + (if b = inout then rl else 0)" by blast
    with w' f False show ?thesis by (intro that [where l = l and g = g and rl = rl]) auto
  qed
qed

lemma sends_of_cong: "sendToCli l' = sendToCli l \<Longrightarrow> sendToSvr l' = sendToSvr l \<Longrightarrow> sends_of l' = sends_of l"
proof -
  assume "sendToCli l' = sendToCli l" and "sendToSvr l' = sendToSvr l"
  then have "outlet l' = outlet l" by (simp add: outlet_def fun_eq_iff)
  then show ?thesis by (simp add: sends_of_def fun_eq_iff)
qed

lemma sends_of_append: "sends_of l (xs @ ys) = sends_of l xs @ sends_of l ys"
  by (simp add: sends_of_def)

lemma mset_split: "mset (filter P xs) + mset (filter (\<lambda>x. \<not> P x) xs) = mset xs"
  by (metis mset_filter multiset_partition)

lemma run_event_conserves:
  assumes "run_event R e w = Ret w'" and "rand_ok R" and "run_conserves w" and "run_sends w"
  shows "run_conserves w' \<and> run_sends w'"
proof (cases e)
  case (Recv inout msg now1 now2)
  let ?lose = "loses R now1 inout (lr_actor w)"
  obtain l g rl where w': "w' = w\<lparr>lr_actor := l, lr_rand := g, lr_received := lr_received w @ [(inout, msg)],
       lr_lost := lr_lost w @ (if ?lose then [(inout, msg)] else [])\<rparr>"
    and ms: "la_msgs l = la_msgs (lr_actor w) @ (if ?lose then []
       else [\<lparr>lm_inout = inout, lm_at = now2 + rl, lm_msg = msg\<rparr>])"
    and fs: "sendToCli l = sendToCli (lr_actor w)" "sendToSvr l = sendToSvr (lr_actor w)"
    using run_Recv_cases [OF assms(1) [unfolded Recv] assms(2)] .
  have "run_conserves w'"
    using assms(3) by (cases ?lose) (simp_all add: w' ms run_conserves_def strip_def)
  moreover have "run_sends w'"
    using assms(4) by (simp add: w' run_sends_def sends_of_cong [OF fs])
  ultimately show ?thesis ..
next
  case (Tick now)
  let ?ms = "la_msgs (lr_actor w)"
  have w': "w' = w\<lparr>lr_actor := (lr_actor w)\<lparr>la_msgs := filter (\<lambda>m. \<not> due now m) ?ms\<rparr>,
      lr_done := lr_done w @ filter (due now) ?ms,
      lr_sent := lr_sent w @ sends_of (lr_actor w) (filter (due now) ?ms)\<rparr>"
    using assms(1) Tick by (simp add: tickLoop_eq)
  have "image_mset strip (mset ?ms) = image_mset strip (mset (filter (\<lambda>m. \<not> due now m) ?ms))
      + image_mset strip (mset (filter (due now) ?ms))"
    using mset_split [of "due now" ?ms] by (metis image_mset_union add.commute)
  moreover have "sends_of ((lr_actor w)\<lparr>la_msgs := ms\<rparr>) = sends_of (lr_actor w)" for ms
    by (rule sends_of_cong) simp_all
  ultimately show ?thesis using assms(3,4) w'
    by (simp add: run_conserves_def run_sends_def sends_of_append del: mset_filter)
qed

lemma run_events_conserves:
  "run_events R es w = Ret w' \<Longrightarrow> rand_ok R \<Longrightarrow> run_conserves w \<and> run_sends w \<Longrightarrow>
     run_conserves w' \<and> run_sends w'"
  by (induction R es w rule: run_events.induct)
    (auto simp: go_bind_eq_Ret dest: run_event_conserves simp del: run_event.simps)

section \<open>The counters\<close>

lemma run_event_counts:
  assumes "run_event R e w = Ret w'" and "rand_ok R" and "run_counts arg w"
  shows "run_counts arg w'"
proof (cases e)
  case (Recv inout msg now1 now2)
  let ?lose = "loses R now1 inout (lr_actor w)"
  obtain l g where "w' = w\<lparr>lr_actor := l, lr_rand := g, lr_received := lr_received w @ [(inout, msg)],
       lr_lost := lr_lost w @ (if ?lose then [(inout, msg)] else [])\<rparr>"
    and "\<forall>b. latency_of b l = latency_of b (lr_actor w)"
    "\<forall>b. packets_of b l = packets_of b (lr_actor w) + (if b = inout then 1 else 0)"
    "\<forall>b. lost_of b l = lost_of b (lr_actor w) + (if b = inout \<and> ?lose then 1 else 0)"
    using run_Recv_cases [OF assms(1) [unfolded Recv] assms(2)] .
  with assms(3) show ?thesis by (cases ?lose) (auto simp: run_counts_def intro: le_SucI)
next
  case (Tick now)
  with assms(1,3) show ?thesis by (auto simp: tickLoop_eq run_counts_def)
qed

text \<open>The sum of the delays drawn, as long as no more than \<open>2\<^sup>3\<^sup>2\<close> packets have come.\<close>

definition run_delays :: "('f, 'g) latency_run \<Rightarrow> bool" where
  "run_delays w \<longleftrightarrow> (\<forall>b. way b (lr_received w) < 2 ^ 32 \<longrightarrow>
     0 \<le> sint (delay_of b (lr_actor w)) \<and>
     sint (delay_of b (lr_actor w)) \<le>
       int (way b (lr_received w) - way b (lr_lost w)) * (max 1 (sint (latency_of b (lr_actor w))) - 1))"

lemma delay_product_bound:
  fixes k lat :: int
  assumes "0 \<le> k" and "k < 2 ^ 32" and "lat < 2 ^ 31"
  shows "k * (max 1 lat - 1) + (max 1 lat - 1) < 2 ^ 63"
proof -
  have "0 \<le> max 1 lat - 1" "max 1 lat - 1 \<le> 2 ^ 31 - 2" using assms(3) by auto
  then have "(k + 1) * (max 1 lat - 1) \<le> 2 ^ 32 * (2 ^ 31 - 2)"
    using assms(1,2) by (intro mult_mono) auto
  then show ?thesis by (simp add: algebra_simps)
qed

lemma sint_u32_less: "sint (x :: u32) < 2 ^ 31"
  using sint_lt [of x] by simp

lemma run_event_delays:
  assumes "run_event R e w = Ret w'" and "rand_ok R" and "run_counts arg w" and "run_delays w"
  shows "run_delays w'"
proof (cases e)
  case (Recv inout msg now1 now2)
  let ?a = "lr_actor w" let ?lose = "loses R now1 inout ?a"
  obtain l g rl where w': "w' = w\<lparr>lr_actor := l, lr_rand := g, lr_received := lr_received w @ [(inout, msg)],
       lr_lost := lr_lost w @ (if ?lose then [(inout, msg)] else [])\<rparr>"
    and lat: "\<forall>b. latency_of b l = latency_of b ?a"
    and delay: "\<forall>b. delay_of b l = delay_of b ?a + (if b = inout \<and> \<not> ?lose then rl else 0)"
    and rl: "0 \<le> sint rl" "sint rl < max 1 (sint (latency_of inout ?a))"
    using run_Recv_cases [OF assms(1) [unfolded Recv] assms(2)] .
  show ?thesis
    unfolding run_delays_def
  proof (intro allI impI)
    fix b assume small: "way b (lr_received w') < 2 ^ 32"
    let ?k = "int (way b (lr_received w) - way b (lr_lost w))" and ?m = "max 1 (sint (latency_of b ?a)) - 1"
    have small0: "way b (lr_received w) < 2 ^ 32" using small w' by simp
    have old: "0 \<le> sint (delay_of b ?a)" "sint (delay_of b ?a) \<le> ?k * ?m"
      using assms(4) small0 by (auto simp: run_delays_def)
    have le: "way b (lr_lost w) \<le> way b (lr_received w)" using assms(3) by (simp add: run_counts_def)
    show "0 \<le> sint (delay_of b (lr_actor w')) \<and> sint (delay_of b (lr_actor w')) \<le>
        int (way b (lr_received w') - way b (lr_lost w')) * (max 1 (sint (latency_of b (lr_actor w'))) - 1)"
    proof (cases "b = inout \<and> \<not> ?lose")
      case True
      have "?k * ?m + ?m < 2 ^ 63" using small0 by (intro delay_product_bound sint_u32_less) auto
      then have sum: "sint (delay_of b ?a + rl) = sint (delay_of b ?a) + sint rl"
        using old rl True by (intro sint_add_i64) auto
      have k: "int (way b (lr_received w') - way b (lr_lost w')) = ?k + 1"
        using True le w' by (simp add: of_nat_diff)
      have "sint rl \<le> ?m" using rl(2) True by simp
      moreover have "delay_of b (lr_actor w') = delay_of b ?a + rl" using delay True w' by simp
      ultimately show ?thesis
        using old rl(1) sum unfolding k by (simp add: w' lat algebra_simps)
    next
      case False
      then have "way b (lr_received w') - way b (lr_lost w') = way b (lr_received w) - way b (lr_lost w)"
        using w' by auto
      moreover have "delay_of b (lr_actor w') = delay_of b ?a" using delay False w' by (cases "b = inout") simp_all
      ultimately show ?thesis using old w' lat by simp
    qed
  qed
next
  case (Tick now)
  with assms(1,4) show ?thesis by (auto simp: tickLoop_eq run_delays_def)
qed

lemma run_events_counts:
  "run_events R es w = Ret w' \<Longrightarrow> rand_ok R \<Longrightarrow> run_counts arg w \<and> run_delays w \<Longrightarrow>
     run_counts arg w' \<and> run_delays w'"
proof (induction R es w rule: run_events.induct)
  case (2 R e es w)
  then obtain w1 where "run_event R e w = Ret w1" and "run_events R es w1 = Ret w'"
    by (auto simp: go_bind_eq_Ret simp del: run_event.simps)
  with 2 run_event_counts run_event_delays show ?case by blast
qed simp

lemma new_run_ok:
  "run_conserves (new_run (NewLatencyActor arg) g)" "run_sends (new_run (NewLatencyActor arg) g)"
  "run_counts arg (new_run (NewLatencyActor arg) g)" "run_delays (new_run (NewLatencyActor arg) g)"
  by (simp_all add: new_run_def NewLatencyActor_def run_conserves_def run_sends_def run_counts_def
      run_delays_def sends_of_def direction_defs)

lemma sint_u32:
  fixes x :: u32
  shows "sint x = (if uint x < 2 ^ 31 then uint x else uint x - 2 ^ 32)"
proof (cases "uint x < 2 ^ 31")
  case True
  have "sint x = signed_take_bit 31 (uint x)" by (simp add: sint_uint)
  also have "\<dots> = uint x" using True by (intro signed_take_bit_int_eq_self) (auto intro: order_trans [OF _ uint_ge_0])
  finally show ?thesis using True by simp
next
  case False
  have "x = word_of_int (uint x - 2 ^ 32)" by (simp add: word_of_int_eq_iff take_bit_eq_mod flip: word_of_int_uint)
  moreover have "sint (word_of_int (uint x - 2 ^ 32) :: u32) = signed_take_bit 31 (uint x - 2 ^ 32)"
    by (subst sint_sbintrunc') simp
  ultimately have "sint x = signed_take_bit 31 (uint x - 2 ^ 32)" by metis
  also have "\<dots> = uint x - 2 ^ 32"
    using False uint_lt2p [of x] by (intro signed_take_bit_int_eq_self) auto
  finally show ?thesis using False by simp
qed

lemma latency_bad_iff:
  fixes x :: u32
  shows "\<not> (x = 0 \<or> 0 < sint x) \<longleftrightarrow> 2 ^ 31 \<le> uint x"
proof -
  have "\<not> (u = 0 \<or> 0 < (if u < 2 ^ 31 then u else u - 2 ^ 32)) \<longleftrightarrow> 2 ^ 31 \<le> u"
    if "0 \<le> u" "u < 2 ^ 32" for u :: int
    using that by auto
  from this [of "uint x"] show ?thesis
    using uint_lt2p [of x] by (simp add: sint_u32 uint_0_iff)
qed

lemma uint_nonneg_i64:
  fixes d :: i64
  assumes "0 \<le> sint d"
  shows "uint d = sint d"
proof -
  have "uint d = take_bit 64 (sint d)" using uint_sint [of d] by simp
  also have "\<dots> = sint d" using assms sint_lt [of d] by (intro take_bit_int_eq_self) auto
  finally show ?thesis .
qed

lemma Close_average_bound:
  assumes "packets = of_nat P" and "lost = of_nat L" and "L \<le> P" and "P < 2 ^ 32"
    and "0 \<le> sint d" and "sint d \<le> int (P - L) * m" and "0 \<le> m"
  shows "\<exists>a. Close_average packets lost d = Ret a \<and> uint a \<le> m"
proof -
  let ?t = "packets - lost"
  have t: "?t = of_nat (P - L)" using assms(1-3) by (simp add: of_nat_diff)
  have ut: "uint ?t = int (P - L)"
    unfolding t using assms(4) by (simp add: unsigned_of_nat take_bit_nat_eq_self uint_nat)
  show ?thesis
  proof (cases "?t = 0")
    case True
    then show ?thesis using assms(7) by (simp add: Close_average_def)
  next
    case False
    then have "uint ?t \<noteq> 0" by (simp only: uint_0_iff) simp
    then have pos: "0 < int (P - L)" unfolding ut by linarith
    have u: "uint (ucast ?t :: u64) = int (P - L)"
      using ut by (simp add: uint_up_ucast is_up)
    then have nz: "(ucast ?t :: u64) \<noteq> 0" using pos by (metis less_irrefl unsigned_0)
    have "uint (d div ucast ?t) = sint d div int (P - L)"
      using u uint_nonneg_i64 [OF assms(5)] by (simp add: uint_div)
    also have "\<dots> \<le> int (P - L) * m div int (P - L)" using assms(6) pos by (rule zdiv_mono1)
    also have "\<dots> = m" using pos by simp
    finally show ?thesis using False nz by (simp add: Close_average_def go_div_u64_def)
  qed
qed

section \<open>A concrete generator\<close>

text \<open>A generator that always draws the same number keeps the documented contract.\<close>

definition zero_rand :: "unit go_rand" where
  "zero_rand = \<lparr>rnd_seed = (\<lambda>_. ()), rnd_int31n = (\<lambda>n g. (0, g))\<rparr>"

lemma zero_rand_ok: "rand_ok zero_rand"
  by (simp add: rand_ok_def zero_rand_def)

definition mock_args :: LatencyMockArgs where
  "mock_args = \<lparr>arName = ''udp'', arInLoss = 0, arInLatency = 20, arOutLoss = 100, arOutLatency = 0\<rparr>"

lemmas mock_simps = zero_rand_def mock_args_def NewLatencyActor_def new_run_def recv_from_def
  RecvFromSvr_def RecvFromCli_def isLoss_def Int31n_def la_extend_def randLatency_def loses_def
  loss_draw_def loss_of_def latency_of_def

section \<open>Properties\<close>

text \<open>
  A tick sends exactly the messages whose time has come, in the order they were received, each by the
  function of its direction where one is registered, and keeps the others in their order; it changes
  nothing else.
\<close>

theorem latency_tick:
  "tickLoop now l =
     (l\<lparr>la_msgs := filter (\<lambda>m. \<not> sint (lm_at m) \<le> sint now) (la_msgs l)\<rparr>,
      concat (map (\<lambda>m. case (if lm_inout m then sendToCli l else sendToSvr l) of
                         None \<Rightarrow> [] | Some f \<Rightarrow> [(f, lm_msg m)])
        (filter (\<lambda>m. sint (lm_at m) \<le> sint now) (la_msgs l))))"
  unfolding tickLoop_eq sends_of_def outlet_def due_def by simp

text \<open>
  No datagram is duplicated or forgotten, whatever the generator draws: after any sequence of datagrams
  and ticks the ones received are the ones lost, the ones still held and the ones a tick took out,
  and what has been sent are the latter, in that order.
\<close>

theorem latency_conservation:
  assumes "rand_ok R" and "run_events R es (new_run (NewLatencyActor arg) g) = Ret w"
  shows "mset (lr_received w) = mset (lr_lost w) + mset (map strip (la_msgs (lr_actor w))) + mset (map strip (lr_done w))
    \<and> lr_sent w = sends_of (lr_actor w) (lr_done w)"
  using run_events_conserves [OF assms(2,1) conjI [OF new_run_ok(1,2)]]
  by (simp add: run_conserves_def run_sends_def)

theorem latency_conservation_witness:
  "\<exists>w. run_events zero_rand [Recv True [1] 5 5, Recv False [2] 6 6, Tick 9]
       (new_run (NewLatencyActor mock_args :: bool LatencyActor) ()) = Ret w
     \<and> mset [(True, [1]), (False, [2])] = mset (lr_lost w) + mset (map strip (la_msgs (lr_actor w))) + mset (map strip (lr_done w))"
proof -
  obtain w where run: "run_events zero_rand [Recv True [1] 5 5, Recv False [2] 6 6, Tick 9]
       (new_run (NewLatencyActor mock_args :: bool LatencyActor) ()) = Ret w"
    and rec: "lr_received w = [(True, [1]), (False, [2])]"
    by (simp add: mock_simps tickLoop_def)
  from latency_conservation [OF zero_rand_ok run] run rec show ?thesis by auto
qed

text \<open>C30.
  A datagram that is not lost is held no longer than the configured latency: its deadline lies in
  \<open>[now, now + latency)\<close>, or is \<open>now\<close> without a latency, where the clock does not run out of its width; so
  the first tick from \<open>now + latency\<close> on takes it out.
\<close>

theorem latency_deadline:
  assumes "rand_ok R" and "recv_from R now1 now2 inout msg (l, g) = Ret (l', g')"
    and "\<not> loses R now1 inout l" and "0 \<le> sint now2" and "sint now2 + 2 ^ 31 < 2 ^ 63"
  shows "\<exists>m. la_msgs l' = la_msgs l @ [m] \<and> strip m = (inout, msg) \<and> sint now2 \<le> sint (lm_at m)
    \<and> sint (lm_at m) < sint now2 + max 1 (sint (latency_of inout l))
    \<and> (\<forall>now. sint now2 + sint (latency_of inout l) \<le> sint now \<and> sint now2 \<le> sint now \<longrightarrow> due now m)"
proof -
  obtain l1 g1 where "la_extend R now2 inout msg (l1, g1) = Ret (l', g')"
    and l1: "la_msgs l1 = la_msgs l" "latency_of inout l1 = latency_of inout l"
    using recv_from_eq [of R now1 now2 inout msg l g] assms(2,3) by auto
  from extend_kept [OF this(1) assms(1)] obtain rl where
    m: "la_msgs l' = la_msgs l @ [\<lparr>lm_inout = inout, lm_at = now2 + rl, lm_msg = msg\<rparr>]"
    and rl: "0 \<le> sint rl" "sint rl < max 1 (sint (latency_of inout l))"
    using l1 by auto
  have "sint (now2 + rl) = sint now2 + sint rl"
    using assms(4,5) rl sint_u32_less [of "latency_of inout l"] by (intro sint_add_i64) auto
  with m rl show ?thesis by (auto simp: strip_def due_def)
qed

theorem latency_deadline_witness:
  "\<exists>l' m. recv_from zero_rand 5 7 True [1] (NewLatencyActor mock_args :: bool LatencyActor, ()) = Ret (l', ())
     \<and> la_msgs l' = [m] \<and> due 27 m"
proof -
  obtain l' where run: "recv_from zero_rand 5 7 True [1] (NewLatencyActor mock_args :: bool LatencyActor, ()) = Ret (l', ())"
    by (simp add: mock_simps)
  have keep: "\<not> loses zero_rand 5 True (NewLatencyActor mock_args :: bool LatencyActor)"
    by (simp add: mock_simps)
  from latency_deadline [OF zero_rand_ok run keep] run show ?thesis
    by (auto simp: NewLatencyActor_def mock_args_def latency_of_def)
qed

text \<open>
  The flags are \<open>uint32\<close> but the generator takes an \<open>int32\<close>: with a latency of \<open>2\<^sup>3\<^sup>1\<close> or more (what a
  negative command line value becomes) a datagram that is not lost crashes the process, and with any
  other latency none does.
\<close>

theorem latency_panics_iff:
  "recv_from R now1 now2 inout msg (l, g) = Panic InvalidRandArg \<longleftrightarrow>
     \<not> loses R now1 inout l \<and> 2 ^ 31 \<le> uint (latency_of inout l)"
proof -
  obtain l1 g1 where eq: "recv_from R now1 now2 inout msg (l, g) =
      (if loses R now1 inout l then Ret (l1, g1) else la_extend R now2 inout msg (l1, g1))"
    and l1: "latency_of inout l1 = latency_of inout l"
    using recv_from_eq [of R now1 now2 inout msg l g] by blast
  show ?thesis
    using extend_panics_iff [of R now2 inout msg l1 g1] unfolding eq latency_bad_iff l1 by simp
qed

text \<open>
  The loss rate at its ends: 0 loses nothing, 100 loses everything; a value of \<open>2\<^sup>3\<^sup>1\<close> or more, which the
  comparison reads as a negative \<open>int32\<close>, loses nothing.
\<close>

theorem latency_loss_rate:
  assumes "rand_ok R"
  shows "(loss_of inout l = 0 \<longrightarrow> \<not> loses R now inout l) \<and> (loss_of inout l = 100 \<longrightarrow> loses R now inout l)
    \<and> (2 ^ 31 \<le> uint (loss_of inout l) \<longrightarrow> \<not> loses R now inout l)"
proof -
  have "0 \<le> sint (loss_draw R now) \<and> sint (loss_draw R now) < 100"
    using assms unfolding rand_ok_def loss_draw_def by (elim allE [of _ 100] allE [of _ "rnd_seed R now"]) simp
  then show ?thesis using uint_lt2p [of "loss_of inout l"] by (auto simp: loses_def sint_u32 [of "loss_of inout l"])
qed

theorem latency_loss_rate_witness:
  "loses zero_rand 3 False (NewLatencyActor mock_args :: bool LatencyActor)"
  using latency_loss_rate [OF zero_rand_ok, of False "NewLatencyActor mock_args :: bool LatencyActor" 3]
  by (simp add: loss_of_def NewLatencyActor_def mock_args_def)

text \<open>
  The generator is seeded with the clock before every draw, so the datagrams of one direction that arrive
  in the same millisecond share one fate: either all of them are lost or none is.
\<close>

theorem latency_same_millisecond:
  assumes "isLoss R now inout n1 (l1, g1) = Ret (s1, lost1)"
    and "isLoss R now inout n2 (l2, g2) = Ret (s2, lost2)" and "loss_of inout l1 = loss_of inout l2"
  shows "lost1 = lost2"
  using isLoss_result [of R now inout n1 l1 g1] isLoss_result [of R now inout n2 l2 g2] assms
  by (auto simp: loses_def)

theorem latency_same_millisecond_witness:
  "\<exists>s1 s2 lost1 lost2. isLoss zero_rand 3 False 10 (NewLatencyActor mock_args :: bool LatencyActor, ()) = Ret (s1, lost1)
     \<and> isLoss zero_rand 3 False 20 (NewLatencyActor mock_args :: bool LatencyActor, ()) = Ret (s2, lost2)
     \<and> lost1 = lost2"
proof -
  obtain s1 lost1 where a: "isLoss zero_rand 3 False 10 (NewLatencyActor mock_args :: bool LatencyActor, ()) = Ret (s1, lost1)"
    by (simp add: mock_simps)
  obtain s2 lost2 where b: "isLoss zero_rand 3 False 20 (NewLatencyActor mock_args :: bool LatencyActor, ()) = Ret (s2, lost2)"
    by (simp add: mock_simps)
  from latency_same_millisecond [OF a b refl] a b show ?thesis by blast
qed

text \<open>
  \<open>Close\<close> never divides by zero, and the average delay it prints is below the configured latency (0
  without one), as long as fewer than \<open>2\<^sup>3\<^sup>2\<close> datagrams came from either side.
\<close>

theorem latency_close_average:
  assumes "rand_ok R" and "run_events R es (new_run (NewLatencyActor arg) g) = Ret w"
    and "way True (lr_received w) < 2 ^ 32" and "way False (lr_received w) < 2 ^ 32"
  shows "\<exists>a b. Close_averages (lr_actor w) = Ret (a, b)
    \<and> uint a \<le> max 1 (sint (arInLatency arg)) - 1 \<and> uint b \<le> max 1 (sint (arOutLatency arg)) - 1"
proof -
  have inv: "run_counts arg w" "run_delays w"
    using run_events_counts [OF assms(2,1) conjI [OF new_run_ok(3,4)]] by simp_all
  have avg: "\<exists>a. Close_average (packets_of b (lr_actor w)) (lost_of b (lr_actor w)) (delay_of b (lr_actor w)) = Ret a
      \<and> uint a \<le> max 1 (sint (if b then arInLatency arg else arOutLatency arg)) - 1"
    if "way b (lr_received w) < 2 ^ 32" for b
    using inv that by (intro Close_average_bound) (auto simp: run_counts_def run_delays_def)
  from avg [of True] avg [of False] assms(3,4) show ?thesis
    by (auto simp: Close_averages_def direction_defs)
qed

theorem latency_close_average_witness:
  "\<exists>w a b. run_events zero_rand [Recv True [1] 5 5, Recv False [2] 6 6, Tick 9]
       (new_run (NewLatencyActor mock_args :: bool LatencyActor) ()) = Ret w
     \<and> Close_averages (lr_actor w) = Ret (a, b) \<and> uint a \<le> 19 \<and> uint b \<le> 0"
proof -
  obtain w where run: "run_events zero_rand [Recv True [1] 5 5, Recv False [2] 6 6, Tick 9]
       (new_run (NewLatencyActor mock_args :: bool LatencyActor) ()) = Ret w"
    and rec: "lr_received w = [(True, [1]), (False, [2])]"
    by (simp add: mock_simps tickLoop_def)
  from latency_close_average [OF zero_rand_ok run] run rec show ?thesis
    by (auto simp: way_def mock_args_def)
qed

end
