(* ===== verification/Tun_Codec.thy ===== *)
theory Tun_Codec
  imports Go_Binary "HOL-Library.Signed_Division"
begin

text \<open>
  The time stamp two tunnel ends put before a datagram, \<open>cmd/udp_tun/internal/handlers/codec.go\<close>, and
  the guarded division of \<open>pkg/xcommon/math.go\<close>. The clock is an argument (Unix milliseconds).
\<close>

section \<open>The time stamp\<close>

text \<open>\<open>header\<close> is one \<open>int64\<close>.\<close>

definition headerSizeof :: nat where "headerSizeof = 8"

definition tun_pack :: "i64 \<Rightarrow> bytes \<Rightarrow> go_error + bytes" where
  "tun_pack now msg = Inr (put_le 8 now @ msg)"

definition tun_unpack :: "i64 \<Rightarrow> bytes \<Rightarrow> (go_error + i64 \<times> bytes) go" where
  "tun_unpack now msg =
     (if length msg < headerSizeof then Ret (Inl (MsgNotEnough (length msg) headerSizeof))
      else go_bind (go_slice msg [] 0 (int headerSizeof)) (\<lambda>head.
        case binary_read headerSizeof get_le head of
          Inl err \<Rightarrow> Ret (Inl err)
        | Inr stamp \<Rightarrow>
            go_bind (go_slice_from msg (int headerSizeof)) (\<lambda>rest. Ret (Inr (now - stamp, rest)))))"

lemma tun_unpack_eq:
  "tun_unpack now msg =
     (if length msg < 8 then Ret (Inl (MsgNotEnough (length msg) 8))
      else Ret (Inr (now - get_le (take 8 msg), drop 8 msg)))"
proof (cases "length msg < 8")
  case False
  then have "go_slice msg [] 0 8 = Ret (take 8 msg)" by (simp add: go_slice_def)
  with False show ?thesis by (simp add: tun_unpack_def headerSizeof_def binary_read_def go_slice_from_def)
qed (simp add: tun_unpack_def headerSizeof_def)

section \<open>Division\<close>

text \<open>Go's signed division truncates towards zero and wraps.\<close>

definition SafeDivision :: "i64 \<Rightarrow> i64 \<Rightarrow> i64" where
  "SafeDivision a b = (if b = 0 then 0 else word_of_int (sint a sdiv sint b))"

lemma sint_word_of_int_i64:
  "- (2 ^ 63) \<le> k \<Longrightarrow> k < 2 ^ 63 \<Longrightarrow> sint (word_of_int k :: i64) = k"
proof -
  assume k: "- (2 ^ 63) \<le> k" "k < 2 ^ 63"
  have "sint (word_of_int k :: i64) = signed_take_bit 63 k" by (subst sint_sbintrunc') simp
  also have "\<dots> = k" using k by (intro signed_take_bit_int_eq_self) auto
  finally show ?thesis .
qed

lemma SafeDivision_nonneg:
  assumes "0 \<le> sint a" and "0 \<le> sint b"
  shows "sint (SafeDivision a b) = (if sint b = 0 then 0 else sint a div sint b)"
proof -
  have "sint b = 0 \<longleftrightarrow> b = 0" by (rule signed_eq_0_iff)
  moreover have "sint a sdiv sint b = sint a div sint b" if "b \<noteq> 0"
    using assms that by (auto simp: signed_divide_int_def sgn_if)
  moreover have "sint a div sint b \<le> sint a" "0 \<le> sint a div sint b" if "0 < sint b"
    using assms that by (auto simp: pos_imp_zdiv_nonneg_iff intro: order_trans [OF zdiv_mono2 [of _ 1]])
  moreover have "sint a < 2 ^ 63" using sint_lt [of a] by simp
  ultimately show ?thesis using assms
    by (auto simp: SafeDivision_def intro!: sint_word_of_int_i64)
qed

section \<open>Properties\<close>

text \<open>
  A datagram stamped by one end of the tunnel is unpacked by the other into the datagram and the time
  between the two clock readings; unpacking never panics, and a datagram too short for a stamp is an
  error that names both lengths.
\<close>

theorem tun_stamp_roundtrip:
  "(\<exists>m. tun_pack t1 msg = Inr m \<and> tun_unpack t2 m = Ret (Inr (t2 - t1, msg)))
   \<and> tun_unpack t2 any = Ret (if length any < 8 then Inl (MsgNotEnough (length any) 8)
        else Inr (t2 - get_le (take 8 any), drop 8 any))"
  by (simp add: tun_pack_def tun_unpack_eq le64.enc_length le64.dec_enc)

end
