(* ===== verification/Tun_Snmp.thy ===== *)
theory Tun_Snmp
  imports Tun_Codec
begin

text \<open>
  The traffic statistics of the tunnel, \<open>cmd/udp_tun/internal/handlers/snmp.go\<close>: one object for each
  pair of addresses, shared through a table, and a total they are added to when their connection
  closes. Objects live at addresses of a store because several connections can hold the same one.
  Every method runs under the object's mutex from its first to its last access, so it is one step.
\<close>

section \<open>State\<close>

record tunSnmpBase =
  recvClientBytes :: u64
  recvClientPackets :: u64
  recvProxyBytes :: u64
  recvProxyPackets :: u64
  proxyLatencys :: "i64 list"

definition newTunSnmpBase :: tunSnmpBase where
  "newTunSnmpBase = \<lparr>recvClientBytes = 0, recvClientPackets = 0, recvProxyBytes = 0,
     recvProxyPackets = 0, proxyLatencys = []\<rparr>"

record singleTunSnmp =
  ss_id :: string
  ss_base :: tunSnmpBase

definition new_single :: "string \<Rightarrow> singleTunSnmp" where
  "new_single i = \<lparr>ss_id = i, ss_base = newTunSnmpBase\<rparr>"

record tunSnmp =
  sn_total :: singleTunSnmp
  snmps :: "string \<rightharpoonup> nat"
  sn_store :: "nat \<Rightarrow> singleTunSnmp"
  sn_next :: nat

definition tunSnmp_init :: tunSnmp where
  "tunSnmp_init = \<lparr>sn_total = new_single ''total'', snmps = Map.empty,
     sn_store = (\<lambda>_. new_single ''''), sn_next = 0\<rparr>"

section \<open>Operations\<close>

definition getSingleTunSnmp :: "tunSnmp \<Rightarrow> string \<Rightarrow> nat \<times> tunSnmp" where
  "getSingleTunSnmp t i =
     (case snmps t i of
        Some a \<Rightarrow> (a, t)
      | None \<Rightarrow> (sn_next t, t\<lparr>sn_store := (sn_store t)(sn_next t := new_single i),
                              snmps := (snmps t)(i \<mapsto> sn_next t), sn_next := sn_next t + 1\<rparr>))"

definition snmp_clone :: "singleTunSnmp \<Rightarrow> tunSnmpBase" where
  "snmp_clone sts =
     \<lparr>recvClientBytes = recvClientBytes (ss_base sts), recvClientPackets = recvClientPackets (ss_base sts),
      recvProxyBytes = recvProxyBytes (ss_base sts), recvProxyPackets = recvProxyPackets (ss_base sts),
      proxyLatencys = [] @ proxyLatencys (ss_base sts)\<rparr>"

definition snmp_recvClient :: "nat \<Rightarrow> singleTunSnmp \<Rightarrow> singleTunSnmp" where
  "snmp_recvClient len sts = sts\<lparr>ss_base := (ss_base sts)
     \<lparr>recvClientBytes := recvClientBytes (ss_base sts) + of_nat len,
      recvClientPackets := recvClientPackets (ss_base sts) + 1\<rparr>\<rparr>"

definition snmp_recvProxy :: "nat \<Rightarrow> singleTunSnmp \<Rightarrow> singleTunSnmp" where
  "snmp_recvProxy len sts = sts\<lparr>ss_base := (ss_base sts)
     \<lparr>recvProxyBytes := recvProxyBytes (ss_base sts) + of_nat len,
      recvProxyPackets := recvProxyPackets (ss_base sts) + 1\<rparr>\<rparr>"


definition snmp_add :: "tunSnmpBase \<Rightarrow> singleTunSnmp \<Rightarrow> singleTunSnmp" where
  "snmp_add s sts = sts\<lparr>ss_base := (ss_base sts)
     \<lparr>recvClientBytes := recvClientBytes (ss_base sts) + recvClientBytes s,
      recvClientPackets := recvClientPackets (ss_base sts) + recvClientPackets s,
      recvProxyBytes := recvProxyBytes (ss_base sts) + recvProxyBytes s,
      recvProxyPackets := recvProxyPackets (ss_base sts) + recvProxyPackets s,
      proxyLatencys := proxyLatencys (ss_base sts) @ proxyLatencys s\<rparr>\<rparr>"

text \<open>\<open>sort.Sort(sts.base.proxyLatencys)\<close>, by the \<open>Less\<close> of \<open>latencySlice\<close>.\<close>

definition latency_sort :: "i64 list \<Rightarrow> i64 list" where
  "latency_sort data = sort_key sint data"

text \<open>The loop over the sorted delays: the four running sums.\<close>

fun delay_loop :: "nat \<Rightarrow> nat \<times> nat \<times> nat \<times> nat \<Rightarrow> i64 list \<Rightarrow> i64 \<times> i64 \<times> i64 \<times> i64 \<Rightarrow> i64 \<times> i64 \<times> i64 \<times> i64" where
  "delay_loop i counts [] sums = sums"
| "delay_loop i (c100, c99, c95, c90) (delay # ds) (d100, d99, d95, d90) =
     delay_loop (i + 1) (c100, c99, c95, c90) ds
       (if i < c100 then d100 + delay else d100, if i < c99 then d99 + delay else d99,
        if i < c95 then d95 + delay else d95, if i < c90 then d90 + delay else d90)"

text \<open>One printed row: the id, the four counters, and the four averages from 90% to 100%.\<close>

type_synonym snmp_row = "string \<times> (u64 \<times> u64 \<times> u64 \<times> u64) \<times> (i64 \<times> i64 \<times> i64 \<times> i64)"

definition snmp_values :: "singleTunSnmp \<Rightarrow> singleTunSnmp \<times> snmp_row" where
  "snmp_values sts =
     (let data = latency_sort (proxyLatencys (ss_base sts));
          count_100 = length data;
          count_99 = count_100 * 99 div 100;
          count_95 = count_100 * 95 div 100;
          count_90 = count_100 * 90 div 100
      in case delay_loop 0 (count_100, count_99, count_95, count_90) data (0, 0, 0, 0) of
           (delay_100, delay_99, delay_95, delay_90) \<Rightarrow>
             (sts\<lparr>ss_base := (ss_base sts)\<lparr>proxyLatencys := data\<rparr>\<rparr>,
              (ss_id sts,
               (recvClientBytes (ss_base sts), recvClientPackets (ss_base sts),
                recvProxyBytes (ss_base sts), recvProxyPackets (ss_base sts)),
               (SafeDivision delay_90 (of_nat count_90), SafeDivision delay_95 (of_nat count_95),
                SafeDivision delay_99 (of_nat count_99), SafeDivision delay_100 (of_nat count_100)))))"

text \<open>\<open>close\<close>: the object is added to the total, both rows are made, the entry goes.\<close>

definition snmp_close :: "tunSnmp \<Rightarrow> nat \<Rightarrow> tunSnmp \<times> snmp_row list" where
  "snmp_close t a =
     (let total = snmp_add (snmp_clone (sn_store t a)) (sn_total t) in
      case snmp_values (sn_store t a) of (sts, row) \<Rightarrow>
        case snmp_values total of (total', trow) \<Rightarrow>
          (t\<lparr>sn_total := total', sn_store := (sn_store t)(a := sts),
             snmps := (snmps t)(ss_id sts := None)\<rparr>, [row, trow]))"

definition snmp_update :: "(singleTunSnmp \<Rightarrow> singleTunSnmp) \<Rightarrow> nat \<Rightarrow> tunSnmp \<Rightarrow> tunSnmp" where
  "snmp_update f a t = t\<lparr>sn_store := (sn_store t)(a := f (sn_store t a))\<rparr>"

section \<open>The percentile averages\<close>

lemma delay_loop_sums:
  "delay_loop i (c100, c99, c95, c90) ds (d100, d99, d95, d90) =
     (d100 + sum_list (take (c100 - i) ds), d99 + sum_list (take (c99 - i) ds),
      d95 + sum_list (take (c95 - i) ds), d90 + sum_list (take (c90 - i) ds))"
proof (induction ds arbitrary: i d100 d99 d95 d90)
  case (Cons d ds)
  have step: "(if i < c then x + d else x) + sum_list (take (c - Suc i) ds) = x + sum_list (take (c - i) (d # ds))"
    for c and x :: i64 by (auto simp: take_Cons' Suc_diff_Suc)
  show ?case using Cons.IH by (simp add: step)
qed simp

definition average :: "nat \<Rightarrow> i64 list \<Rightarrow> i64" where
  "average n data = SafeDivision (sum_list (take n data)) (of_nat n)"

lemma snmp_values_eq:
  "snmp_values sts =
     (let data = latency_sort (proxyLatencys (ss_base sts)); n = length data in
        (sts\<lparr>ss_base := (ss_base sts)\<lparr>proxyLatencys := data\<rparr>\<rparr>,
         ss_id sts, (recvClientBytes (ss_base sts), recvClientPackets (ss_base sts),
           recvProxyBytes (ss_base sts), recvProxyPackets (ss_base sts)),
         average (n * 90 div 100) data, average (n * 95 div 100) data,
         average (n * 99 div 100) data, average n data))"
  by (simp add: snmp_values_def delay_loop_sums average_def Let_def)















section \<open>Closing\<close>

definition close_all :: "nat list \<Rightarrow> tunSnmp \<Rightarrow> tunSnmp" where
  "close_all hs t = fold (\<lambda>h t. fst (snmp_close t h)) hs t"

lemma snmp_close_eq:
  "snmp_close t a = (t', rows) \<Longrightarrow>
     ss_base (sn_total t') = (ss_base (snmp_add (ss_base (sn_store t a)) (sn_total t)))
        \<lparr>proxyLatencys := latency_sort (proxyLatencys (ss_base (sn_total t)) @ proxyLatencys (ss_base (sn_store t a)))\<rparr>
     \<and> (\<forall>b. b \<noteq> a \<longrightarrow> sn_store t' b = sn_store t b) \<and> (\<forall>b. ss_id (sn_store t' b) = ss_id (sn_store t b))
     \<and> snmps t' = (snmps t)(ss_id (sn_store t a) := None)"
  by (auto simp: snmp_close_def snmp_values_eq snmp_add_def snmp_clone_def Let_def)

definition base_sum :: "(tunSnmpBase \<Rightarrow> u64) \<Rightarrow> nat list \<Rightarrow> tunSnmp \<Rightarrow> u64" where
  "base_sum f hs t = sum_list (map (\<lambda>h. f (ss_base (sn_store t h))) hs)"

lemma close_all_total:
  "distinct hs \<Longrightarrow> t' = close_all hs t \<Longrightarrow>
     (\<forall>f \<in> {recvClientBytes, recvClientPackets, recvProxyBytes, recvProxyPackets}.
        f (ss_base (sn_total t')) = f (ss_base (sn_total t)) + base_sum f hs t)
     \<and> mset (proxyLatencys (ss_base (sn_total t'))) =
         mset (proxyLatencys (ss_base (sn_total t)) @ concat (map (\<lambda>h. proxyLatencys (ss_base (sn_store t h))) hs))
     \<and> (\<forall>h \<in> set hs. snmps t' (ss_id (sn_store t h)) = None)
     \<and> (\<forall>i. snmps t i = None \<longrightarrow> snmps t' i = None)"
proof (induction hs arbitrary: t)
  case Nil
  then show ?case by (simp add: close_all_def base_sum_def)
next
  case (Cons h hs)
  obtain t1 rows where c: "snmp_close t h = (t1, rows)" by fastforce
  note e = snmp_close_eq [OF c]
  have t': "t' = close_all hs t1" using Cons.prems(2) c by (simp add: close_all_def)
  have same: "sn_store t1 b = sn_store t b" if "b \<in> set hs" for b
    using that e Cons.prems(1) by auto
  have sums: "base_sum f hs t1 = base_sum f hs t" for f
    using same by (simp add: base_sum_def cong: map_cong)
  have lats: "map (\<lambda>h. proxyLatencys (ss_base (sn_store t1 h))) hs = map (\<lambda>h. proxyLatencys (ss_base (sn_store t h))) hs"
    using same by (simp cong: map_cong)
  have one: "base_sum f (h # hs) t = f (ss_base (sn_store t h)) + base_sum f hs t" for f
    by (simp add: base_sum_def)
  note ih = Cons.IH [OF _ t']
  from ih e Cons.prems(1) show ?case
    unfolding sums lats one by (auto simp: snmp_add_def latency_sort_def ac_simps)
qed

section \<open>Properties\<close>



text \<open>C26.
  The total conserves the traffic: closing any connections' objects, each once, in any order adds to the
  four counters of the total exactly theirs, in their width, and to its delays exactly their delays, and
  removes their entries from the table and brings in none.
\<close>

theorem snmp_total_conserves:
  assumes "distinct hs" and "t' = close_all hs t"
  shows "(\<forall>f \<in> {recvClientBytes, recvClientPackets, recvProxyBytes, recvProxyPackets}.
      f (ss_base (sn_total t')) = f (ss_base (sn_total t)) + sum_list (map (\<lambda>h. f (ss_base (sn_store t h))) hs))
    \<and> mset (proxyLatencys (ss_base (sn_total t'))) = mset (proxyLatencys (ss_base (sn_total t)))
        + mset (concat (map (\<lambda>h. proxyLatencys (ss_base (sn_store t h))) hs))
    \<and> (\<forall>h \<in> set hs. snmps t' (ss_id (sn_store t h)) = None)
    \<and> (\<forall>i. snmps t i = None \<longrightarrow> snmps t' i = None)"
  using close_all_total [OF assms] by (auto simp: base_sum_def)

theorem snmp_total_conserves_witness:
  "recvClientBytes (ss_base (sn_total (close_all [0] (snmp_update (snmp_recvClient 100) 0
     (snd (getSingleTunSnmp tunSnmp_init ''a'')))))) = 100"
  using snmp_total_conserves [of "[0]" _ "snmp_update (snmp_recvClient 100) 0 (snd (getSingleTunSnmp tunSnmp_init ''a''))", OF _ refl]
  by (simp add: snmp_update_def getSingleTunSnmp_def tunSnmp_init_def snmp_recvClient_def new_single_def newTunSnmpBase_def)

end
