(* ===== verification/Tun_Registry.thy ===== *)
theory Tun_Registry
  imports Tun_Snmp Go_Strings
begin

text \<open>
  The callbacks of the UDP tunnel, \<open>cmd/udp_tun/internal/handlers/registry.go\<close> and \<open>state.go\<close>: a tunnel
  end is normal, client or server; the two latter count traffic, and with the header flag put a time
  stamp on what goes to the other end and take it off what comes from there. A message that is not
  refused goes to the latency actor of its connection.
\<close>

section \<open>Configuration\<close>

definition modeNormal :: int where "modeNormal = 0"
definition modeClient :: int where "modeClient = 1"
definition modeServer :: int where "modeServer = 2"


definition modeString :: "int \<Rightarrow> string" where
  "modeString mode =
     (if mode = modeNormal then ''normal''
      else if mode = modeClient then ''client''
      else if mode = modeServer then ''server''
      else ''mode['' @ itoa mode @ ''] invalid'')"

record Registry =
  proxyAddr :: string
  rg_mode :: int
  rg_header :: bool
  rg_inLoss :: u32
  rg_inLatency :: u32
  rg_outLoss :: u32
  rg_outLatency :: u32

text \<open>\<open>RegistryArgs\<close> has the same fields. A refused mode leaves the registry \<open>reg\<close> as it was.\<close>

definition InitRegistry :: "Registry \<Rightarrow> Registry \<Rightarrow> go_error + Registry" where
  "InitRegistry reg arg =
     (if rg_mode arg \<noteq> modeNormal \<and> rg_mode arg \<noteq> modeClient \<and> rg_mode arg \<noteq> modeServer
      then Inl (ModeInvalid (rg_mode arg))
      else
        (let arg = (if rg_mode arg = modeNormal then arg\<lparr>rg_header := False\<rparr> else arg) in
         Inr (reg\<lparr>proxyAddr := proxyAddr arg, rg_mode := rg_mode arg, rg_header := rg_header arg,
                  rg_inLoss := rg_inLoss arg, rg_inLatency := rg_inLatency arg,
                  rg_outLoss := rg_outLoss arg, rg_outLatency := rg_outLatency arg\<rparr>)))"

section \<open>The state of a connection\<close>










section \<open>Properties\<close>











end
