(* ===== verification/Xmsg_Codec.thy ===== *)
theory Xmsg_Codec
  imports Go_Binary Stream_Read
begin

text \<open>
  The message framing of \<open>pkg/xmsg\<close>: a 16 byte little endian header (sequence number, command,
  flag, payload length) before the payload. \<open>PackMsg\<close> builds a message and \<open>ParseMsgWarp\<close> turns a
  handler of messages into a handler of a byte stream.
\<close>

section \<open>The header\<close>

record header =
  Seq :: i32
  Cmd :: i32
  Flag :: i32
  Len :: i32

definition put_header :: "header \<Rightarrow> bytes" where
  "put_header h = put_le 4 (Seq h) @ put_le 4 (Cmd h) @ put_le 4 (Flag h) @ put_le 4 (Len h)"

definition get_header :: "bytes \<Rightarrow> header" where
  "get_header bs =
     \<lparr>Seq = get_le (take 4 bs), Cmd = get_le (take 4 (drop 4 bs)),
      Flag = get_le (take 4 (drop 8 bs)), Len = get_le (take 4 (drop 12 bs))\<rparr>"

text \<open>\<open>HeaderSizeof = binary.Size(Header{})\<close>\<close>

definition HeaderSizeof :: nat where
  "HeaderSizeof = 16"

interpretation hdr: exact_codec put_header get_header HeaderSizeof
proof
  fix bs :: bytes
  assume len: "length bs = HeaderSizeof"
  then have "put_header (get_header bs) =
      take 4 bs @ take 4 (drop 4 bs) @ take 4 (drop 8 bs) @ take 4 (drop 12 bs)"
    by (simp add: put_header_def get_header_def HeaderSizeof_def put_get_le32)
  also have "\<dots> = take 16 bs"
    using take_add [of 4 12 bs] take_add [of 4 8 "drop 4 bs"] take_add [of 4 4 "drop 8 bs"]
    by simp
  finally show "put_header (get_header bs) = bs"
    using len by (simp add: HeaderSizeof_def)
qed (simp_all add: put_header_def get_header_def HeaderSizeof_def)

section \<open>Packing\<close>

record pack_msg_args =
  paSeq :: i32
  paCmd :: i32
  paFlag :: i32
  paPayload :: bytes

text \<open>\<open>int32(len(arg.Payload))\<close> wraps; writing a fixed size header to a buffer never fails.\<close>

definition pack_header :: "pack_msg_args \<Rightarrow> header" where
  "pack_header arg =
     \<lparr>Seq = paSeq arg, Cmd = paCmd arg, Flag = paFlag arg,
      Len = word_of_int (int (length (paPayload arg)))\<rparr>"

definition PackMsg :: "pack_msg_args \<Rightarrow> go_error + bytes" where
  "PackMsg arg = Inr (put_header (pack_header arg) @ paPayload arg)"

text \<open>The bytes of a message, for statements about streams of them.\<close>

definition packed :: "pack_msg_args \<Rightarrow> bytes" where
  "packed arg = (case PackMsg arg of Inl e \<Rightarrow> [] | Inr msg \<Rightarrow> msg)"

section \<open>Parsing\<close>

record msg_args =
  maHeader :: header
  maPayload :: bytes

text \<open>
  The function returned by \<open>ParseMsgWarp(fn)\<close>. \<open>fn\<close> gets the connection's state (\<open>arg.State\<close>), the
  header and the payload. Both slice expressions follow a length check, so the capacity of the
  cache does not matter for their upper bounds.
\<close>

type_synonym 'st msg_handler = "'st \<Rightarrow> msg_args \<Rightarrow> ('st \<times> go_error option) go"

definition ParseMsgWarp :: "'st msg_handler \<Rightarrow> 'st on_handler_once" where
  "ParseMsgWarp fn st msg =
     (if length msg < HeaderSizeof then Ret (st, 0, None)
      else go_bind (go_slice msg [] 0 (int HeaderSizeof)) (\<lambda>head.
        case binary_read HeaderSizeof get_header head of
          Inl err \<Rightarrow> Ret (st, 0, Some err)
        | Inr header \<Rightarrow>
            let total = int HeaderSizeof + sint (Len header) in
            if int (length msg) < total then Ret (st, 0, None)
            else go_bind (go_slice msg [] (int HeaderSizeof) total) (\<lambda>payload.
              go_bind (fn st \<lparr>maHeader = header, maPayload = payload\<rparr>) (\<lambda>(st', err).
                Ret (st', total, err)))))"

text \<open>The header a stream of at least \<open>HeaderSizeof\<close> bytes starts with.\<close>

definition head_of :: "bytes \<Rightarrow> header" where
  "head_of msg = get_header (take HeaderSizeof msg)"

lemma head_of_append: "HeaderSizeof \<le> length msg \<Longrightarrow> head_of (msg @ ext) = head_of msg"
  by (simp add: head_of_def)

lemma head_of_packed [simp]: "head_of (packed arg @ rest) = pack_header arg"
  using hdr.enc_length [of "pack_header arg"] hdr.dec_enc [of "pack_header arg"]
  by (simp add: head_of_def packed_def PackMsg_def)

lemma length_packed: "length (packed arg) = HeaderSizeof + length (paPayload arg)"
  by (simp add: packed_def PackMsg_def hdr.enc_length)

lemma ParseMsgWarp_short: "length msg < HeaderSizeof \<Longrightarrow> ParseMsgWarp fn st msg = Ret (st, 0, None)"
  by (simp add: ParseMsgWarp_def)

lemma ParseMsgWarp_head:
  "HeaderSizeof \<le> length msg \<Longrightarrow> ParseMsgWarp fn st msg =
     (let total = int HeaderSizeof + sint (Len (head_of msg)) in
      if int (length msg) < total then Ret (st, 0, None)
      else go_bind (go_slice msg [] (int HeaderSizeof) total) (\<lambda>payload.
        go_bind (fn st \<lparr>maHeader = head_of msg, maPayload = payload\<rparr>) (\<lambda>(st', err).
          Ret (st', total, err))))"
  by (simp add: ParseMsgWarp_def binary_read_def head_of_def Let_def)

lemma ParseMsgWarp_negative:
  "HeaderSizeof \<le> length msg \<Longrightarrow> sint (Len (head_of msg)) < 0 \<Longrightarrow> ParseMsgWarp fn st msg = Panic SliceBounds"
  by (simp add: ParseMsgWarp_head Let_def go_slice_reversed)

lemma ParseMsgWarp_complete:
  assumes "sint (Len (head_of msg)) = int n" and "HeaderSizeof + n \<le> length msg"
  shows "ParseMsgWarp fn st msg =
    go_bind (fn st \<lparr>maHeader = head_of msg, maPayload = take n (drop HeaderSizeof msg)\<rparr>)
      (\<lambda>(st', err). Ret (st', int (HeaderSizeof + n), err))"
  using assms go_slice_within [of HeaderSizeof "HeaderSizeof + n" msg "[]"]
  by (simp add: ParseMsgWarp_head Let_def)

lemma ParseMsgWarp_incomplete:
  "HeaderSizeof \<le> length msg \<Longrightarrow> int (length msg) < int HeaderSizeof + sint (Len (head_of msg)) \<Longrightarrow>
     ParseMsgWarp fn st msg = Ret (st, 0, None)"
  by (simp add: ParseMsgWarp_head Let_def)

text \<open>The four cases of a parse.\<close>

lemma parse_cases [case_names short negative incomplete complete]:
  obtains "length msg < HeaderSizeof"
  | "HeaderSizeof \<le> length msg" "sint (Len (head_of msg)) < 0"
  | "HeaderSizeof \<le> length msg" "int (length msg) < int HeaderSizeof + sint (Len (head_of msg))"
  | n where "HeaderSizeof + n \<le> length msg" "sint (Len (head_of msg)) = int n"
proof -
  consider "length msg < HeaderSizeof" | "HeaderSizeof \<le> length msg" "sint (Len (head_of msg)) < 0"
    | "HeaderSizeof \<le> length msg" "int (length msg) < int HeaderSizeof + sint (Len (head_of msg))"
    | "HeaderSizeof \<le> length msg" "0 \<le> sint (Len (head_of msg))"
      "int HeaderSizeof + sint (Len (head_of msg)) \<le> int (length msg)"
    by linarith
  then show ?thesis
    using that(4) [of "nat (sint (Len (head_of msg)))"] by cases (auto intro: that simp: nat_le_iff le_nat_iff)
qed

lemmas parse_simps = ParseMsgWarp_short ParseMsgWarp_negative ParseMsgWarp_incomplete ParseMsgWarp_complete

text \<open>Every parsing handler is a handler of a byte stream, whatever \<open>fn\<close> does.\<close>

interpretation parse: stream_handler "ParseMsgWarp fn" for fn :: "'st msg_handler"
proof
  show "0 \<le> n \<and> n \<le> int (length msg)" if "ParseMsgWarp fn st msg = Ret (st', n, None)" for st msg st' n
    using that by (cases msg rule: parse_cases) (auto simp: parse_simps go_bind_eq_Ret)
  show "st' = st" if "ParseMsgWarp fn st msg = Ret (st', 0, None)" for st msg st'
    using that by (cases msg rule: parse_cases) (auto simp: parse_simps go_bind_eq_Ret HeaderSizeof_def)
  show "ParseMsgWarp fn st [] = Ret (st, 0, None)" for st
    by (simp add: parse_simps HeaderSizeof_def)
  show "ParseMsgWarp fn st (msg @ ext) = ParseMsgWarp fn st msg"
    if "ParseMsgWarp fn st msg \<noteq> Ret (st, 0, None)" for st msg ext
    using that
    by (cases msg rule: parse_cases) (auto simp: parse_simps head_of_append ParseMsgWarp_complete)
qed

section \<open>Packing and parsing\<close>

text \<open>The payload lengths \<open>int32\<close> can hold.\<close>

definition fits :: "pack_msg_args \<Rightarrow> bool" where
  "fits arg \<longleftrightarrow> length (paPayload arg) < 2 ^ 31"

lemma sint_i32_of_int: "sint (word_of_int k :: i32) = (k + 2147483648) mod 4294967296 - 2147483648"
  by (simp add: int_word_sint)

lemma sint_pack_header_eq: "sint (Len (pack_header arg)) =
    (int (length (paPayload arg)) + 2147483648) mod 4294967296 - 2147483648"
  by (simp only: pack_header_def header.simps sint_i32_of_int)

lemma sint_pack_header: "fits arg \<Longrightarrow> sint (Len (pack_header arg)) = int (length (paPayload arg))"
  by (simp add: fits_def sint_pack_header_eq)

lemma drop_packed [simp]: "drop HeaderSizeof (packed arg @ rest) = paPayload arg @ rest"
  by (simp add: packed_def PackMsg_def hdr.enc_length)

text \<open>The argument \<open>fn\<close> sees for a packed message.\<close>

definition received :: "pack_msg_args \<Rightarrow> msg_args" where
  "received arg = \<lparr>maHeader = pack_header arg, maPayload = paPayload arg\<rparr>"

lemma parse_packed_eq:
  assumes "fits arg"
  shows "ParseMsgWarp fn st (packed arg @ rest) =
    go_bind (fn st (received arg)) (\<lambda>(st', err). Ret (st', int (length (packed arg)), err))"
  using assms by (subst ParseMsgWarp_complete [of _ "length (paPayload arg)"])
    (simp_all add: sint_pack_header length_packed received_def del: drop_append)

lemma parse_prefix_waits:
  assumes "fits arg" and "k < length (packed arg)"
  shows "ParseMsgWarp fn st (take k (packed arg)) = Ret (st, 0, None)"
proof (cases "k < HeaderSizeof")
  case True
  then show ?thesis by (intro ParseMsgWarp_short) simp
next
  case False
  with assms(2) have "head_of (take k (packed arg)) = pack_header arg"
    using head_of_packed [of arg "[]"] by (simp add: head_of_def min_absorb1)
  with False assms show ?thesis
    by (intro ParseMsgWarp_incomplete) (simp_all add: sint_pack_header length_packed)
qed

text \<open>
  What a connection's handler is to see of a stream of messages: it is called on each in order,
  up to the first error or panic; the bytes after the part whole message wait.
\<close>

fun deliver :: "(go_error \<Rightarrow> go_error option) \<Rightarrow> 'st msg_handler \<Rightarrow> 'st \<Rightarrow> pack_msg_args list \<Rightarrow>
    bytes \<Rightarrow> 'st stream_out" where
  "deliver logged fn st [] rest = Waiting st rest"
| "deliver logged fn st (arg # args) rest =
     (case fn st (received arg) of
        Panic p \<Rightarrow> Crashed p
      | Ret (st', Some err) \<Rightarrow> Failed st' (logged err)
      | Ret (st', None) \<Rightarrow> deliver logged fn st' args rest)"

lemma drain_deliver:
  assumes "list_all fits args" and "fits part" and "k < length (packed part)"
  shows "drain logged (ParseMsgWarp fn) st (concat (map packed args) @ take k (packed part))
    = deliver logged fn st args (take k (packed part))"
  using assms(1)
proof (induction args arbitrary: st)
  case Nil
  with assms show ?case by (simp add: parse.drain_wait parse_prefix_waits)
next
  case (Cons arg args)
  let ?rest = "concat (map packed args) @ take k (packed part)"
  have parse: "ParseMsgWarp fn st (packed arg @ ?rest) =
      go_bind (fn st (received arg)) (\<lambda>(st', err). Ret (st', int (length (packed arg)), err))"
    using Cons.prems by (intro parse_packed_eq) simp
  have "int (length (packed arg)) \<noteq> 0" by (simp add: length_packed HeaderSizeof_def)
  with Cons parse show ?case
    by (auto simp: drain.simps [of logged _ st] go_slice_from_def split: go.split option.split)
qed

text \<open>C2.
  Packing and parsing: a payload below 2 GiB is packed without an error, and the parser, on the packed
  message followed by anything, calls the handler once with the sequence number, command, flag, length and
  payload that were packed, and reports exactly the bytes of the message as used.
\<close>

theorem pack_parse_roundtrip:
  assumes "length (paPayload arg) < 2 ^ 31"
  shows "\<exists>msg. PackMsg arg = Inr msg \<and> length msg = HeaderSizeof + length (paPayload arg)
    \<and> ParseMsgWarp fn st (msg @ rest) =
        go_bind (fn st \<lparr>maHeader = \<lparr>Seq = paSeq arg, Cmd = paCmd arg, Flag = paFlag arg,
                         Len = word_of_int (int (length (paPayload arg)))\<rparr>,
                        maPayload = paPayload arg\<rparr>)
          (\<lambda>(st', err). Ret (st', int (length msg), err))"
  using assms parse_packed_eq [of arg fn st rest] length_packed [of arg]
  by (simp add: fits_def packed_def PackMsg_def received_def pack_header_def)

theorem pack_parse_roundtrip_witness:
  "\<exists>msg. PackMsg \<lparr>paSeq = 7, paCmd = -1, paFlag = 0, paPayload = [1, 2, 3]\<rparr> = Inr msg
    \<and> length msg = 19
    \<and> ParseMsgWarp (\<lambda>st a. Ret (st @ [maPayload a], None)) [] (msg @ [9]) = Ret ([[1, 2, 3]], 19, None)"
  using pack_parse_roundtrip [of "\<lparr>paSeq = 7, paCmd = -1, paFlag = 0, paPayload = [1, 2, 3]\<rparr>"
      "\<lambda>st a. Ret (st @ [maPayload a], None)" "[]" "[9]"]
  by (auto simp: HeaderSizeof_def)

text \<open>The TCP read loop over a stream of whole messages and a part of one.\<close>

lemma read_messages:
  assumes "list_all fits args" and "fits part" and "k < length (packed part)"
    and "concat (map snd chunks) = concat (map packed args) @ take k (packed part)"
  shows "erase_read (tcp_read_loop (ParseMsgWarp fn) (new_reader st pool)
      (map (\<lambda>(buf, data). ReadOk buf data) chunks)) = deliver Some fn st args (take k (packed part))"
  using assms parse.tcp_loop_stream [of fn "new_reader st pool" chunks]
    drain_deliver [of args part k Some fn st]
  by (simp add: parse.wait_empty)

text \<open>C1.
  Framing over TCP: however the network cuts a stream of whole messages followed by a part of one, the
  read loop hands the messages to the handler in order, each once, up to the first error or panic, and
  keeps the part in its cache.
\<close>

theorem stream_framing:
  assumes "list_all fits args" and "fits part" and "k < length (packed part)"
    and "concat (map snd chunks) = concat (map packed args) @ take k (packed part)"
  shows "erase_read (tcp_read_loop (ParseMsgWarp fn) (new_reader st pool)
      (map (\<lambda>(buf, data). ReadOk buf data) chunks)) = deliver Some fn st args (take k (packed part))"
  using assms by (rule read_messages)

theorem stream_framing_witness:
  "erase_read (tcp_read_loop (ParseMsgWarp (\<lambda>st a. Ret (st @ [maPayload a], None))) (new_reader [] [])
      (map (\<lambda>(buf, data). ReadOk buf data)
        [(pool_New, take 20 (packed \<lparr>paSeq = 0, paCmd = 1, paFlag = 0, paPayload = [5, 6, 7, 8, 9]\<rparr>)),
         (pool_New, drop 20 (packed \<lparr>paSeq = 0, paCmd = 1, paFlag = 0, paPayload = [5, 6, 7, 8, 9]\<rparr>))]))
    = Waiting [[5, 6, 7, 8, 9]] []"
  by (subst stream_framing [where args = "[\<lparr>paSeq = 0, paCmd = 1, paFlag = 0, paPayload = [5, 6, 7, 8, 9]\<rparr>]"
        and part = "\<lparr>paSeq = 0, paCmd = 1, paFlag = 0, paPayload = []\<rparr>" and k = 0])
    (simp_all add: fits_def length_packed HeaderSizeof_def received_def)

text \<open>C23.
  The result of a connection's read loop over the message parser depends on the bytes received only,
  not on how they were cut into reads nor on the buffers of the pool, malformed messages included.
\<close>

theorem chunking_irrelevant:
  assumes "concat (map snd chunks) = concat (map snd chunks')"
  shows "erase_read (tcp_read_loop (ParseMsgWarp fn) (new_reader st pool)
           (map (\<lambda>(buf, data). ReadOk buf data) chunks))
       = erase_read (tcp_read_loop (ParseMsgWarp fn) (new_reader st pool')
           (map (\<lambda>(buf, data). ReadOk buf data) chunks'))"
  using assms parse.tcp_loop_stream [of fn "new_reader st pool" chunks]
    parse.tcp_loop_stream [of fn "new_reader st pool'" chunks']
  by (simp add: parse.wait_empty)

theorem chunking_irrelevant_witness:
  "erase_read (tcp_read_loop (ParseMsgWarp (\<lambda>st a. Ret (st + 1, None))) (new_reader 0 [])
      (map (\<lambda>(buf, data). ReadOk buf data) [(pool_New, [1, 2]), (pool_New, [3])]))
   = erase_read (tcp_read_loop (ParseMsgWarp (\<lambda>st a. Ret (st + 1, None))) (new_reader (0 :: nat) [[7]])
      (map (\<lambda>(buf, data). ReadOk buf data) [(pool_New, [1, 2, 3])]))"
  by (rule chunking_irrelevant) simp

text \<open>C29.
  Robustness of the parser: with a handler that does not panic it panics exactly when a complete header
  announces a negative length, which a peer can send; on every other input it returns.
\<close>

theorem parse_panics_iff_negative_length:
  assumes "\<And>st arg. no_panic (fn st arg)"
  shows "no_panic (ParseMsgWarp fn st msg) \<longleftrightarrow>
    \<not> (HeaderSizeof \<le> length msg \<and> sint (Len (head_of msg)) < 0)"
proof (cases msg rule: parse_cases)
  case (complete n)
  obtain st' err where "fn st \<lparr>maHeader = head_of msg, maPayload = take n (drop HeaderSizeof msg)\<rparr> = Ret (st', err)"
    using assms [of st "\<lparr>maHeader = head_of msg, maPayload = take n (drop HeaderSizeof msg)\<rparr>"]
    by (cases "fn st \<lparr>maHeader = head_of msg, maPayload = take n (drop HeaderSizeof msg)\<rparr>") auto
  with complete show ?thesis by (simp add: ParseMsgWarp_complete)
qed (auto simp: parse_simps)

theorem parse_panics_iff_negative_length_witness:
  "\<not> no_panic (ParseMsgWarp (\<lambda>st a. Ret (st, None)) () (put_header \<lparr>Seq = 1, Cmd = 2, Flag = 0, Len = - 1\<rparr>))"
proof -
  have "HeaderSizeof \<le> length (put_header \<lparr>Seq = 1, Cmd = 2, Flag = 0, Len = - 1\<rparr>)
      \<and> sint (Len (head_of (put_header \<lparr>Seq = 1, Cmd = 2, Flag = 0, Len = - 1\<rparr>))) < 0"
    by (simp add: head_of_def hdr.enc_length hdr.dec_enc)
  then show ?thesis by (subst parse_panics_iff_negative_length) simp_all
qed

text \<open>
  A payload of 2 GiB or more (below 4 GiB) is packed without an error with a length that has wrapped to
  a negative number, and the receiver's parser panics on it.
\<close>

theorem oversized_payload_crashes_receiver:
  assumes "2 ^ 31 \<le> length (paPayload arg)" and "length (paPayload arg) < 2 ^ 32"
  shows "ParseMsgWarp fn st (packed arg) = Panic SliceBounds"
proof -
  define k where "k = int (length (paPayload arg))"
  have k: "2147483648 \<le> k" "k < 4294967296"
    using assms by (simp_all add: k_def)
  have "(k + 2147483648) mod 4294967296 = (k - 2147483648) mod 4294967296"
    using minus_mod_self2 [of "k + 2147483648" 4294967296] by simp
  also have "\<dots> = k - 2147483648"
    using k by (intro mod_pos_pos_trivial) simp_all
  finally have "sint (Len (pack_header arg)) < 0"
    using k by (simp add: sint_pack_header_eq flip: k_def)
  then show ?thesis
    using head_of_packed [of arg "[]"]
    by (intro ParseMsgWarp_negative) (simp_all add: length_packed)
qed

theorem oversized_payload_crashes_receiver_witness:
  "ParseMsgWarp (\<lambda>st a. Ret (st, None)) ()
     (packed \<lparr>paSeq = 0, paCmd = 0, paFlag = 0, paPayload = replicate (2 ^ 31) 0\<rparr>) = Panic SliceBounds"
  by (rule oversized_payload_crashes_receiver; unfold pack_msg_args.select_convs length_replicate)
    (rule order.refl, rule power_strict_increasing, simp_all)

end
