(* ===== verification/Xregistry.thy ===== *)
theory Xregistry
  imports Xmsg_Codec Tcp_Socket
begin

text \<open>
  The registry of \<open>pkg/xregistry\<close>: it maps commands to handlers, decodes a handler's request and encodes
  its answer, over the framing of \<open>pkg/xmsg\<close>. The connection below it (the interface \<open>xnet.Socket\<close>) is an
  argument: a socket state \<open>'s\<close> and its \<open>SendMsg\<close>, which gives an error or none and the state after it.
\<close>

section \<open>Marshal and Unmarshal\<close>

text \<open>
  How a Go type is laid out by \<open>encoding/binary\<close>. A type with no fixed size has no layout, and
  \<open>binary.Write\<close> and \<open>binary.Read\<close> return an error for it.
\<close>

record 'a layout =
  lay_put :: "'a \<Rightarrow> bytes"
  lay_get :: "bytes \<Rightarrow> 'a"
  lay_size :: nat

definition Marshal :: "'a layout option \<Rightarrow> 'a \<Rightarrow> go_error + bytes" where
  "Marshal lay x = (case lay of None \<Rightarrow> Inl BinaryInvalidType | Some l \<Rightarrow> Inr (lay_put l x))"

definition Unmarshal :: "'a layout option \<Rightarrow> bytes \<Rightarrow> go_error + 'a" where
  "Unmarshal lay msg =
     (case lay of None \<Rightarrow> Inl BinaryInvalidType | Some l \<Rightarrow> binary_read (lay_size l) (lay_get l) msg)"

section \<open>State\<close>

type_synonym 's sock_send = "'s \<Rightarrow> bytes \<Rightarrow> go_error option \<times> 's"

record 's State =
  Sock :: 's

text \<open>\<open>State.SendMsg\<close>: an error at any stage is logged and the message is dropped.\<close>

definition State_SendMsg :: "'s sock_send \<Rightarrow> 's State \<Rightarrow> i32 \<Rightarrow> 'a layout option \<Rightarrow> 'a \<Rightarrow> 's State" where
  "State_SendMsg send s cmd lay data =
     (case Marshal lay data of
        Inl err \<Rightarrow> s
      | Inr payload \<Rightarrow>
          (case PackMsg \<lparr>paSeq = 0, paCmd = cmd, paFlag = 0, paPayload = payload\<rparr> of
             Inl err \<Rightarrow> s
           | Inr msg \<Rightarrow> s\<lparr>Sock := snd (send (Sock s) msg)\<rparr>))"

definition reg_OnConnect :: "'s \<Rightarrow> 's State" where
  "reg_OnConnect sock = \<lparr>Sock = sock\<rparr>"

section \<open>Handlers\<close>

text \<open>A \<open>HandleFunc\<close> may be nil; the table maps a command to what was registered for it.\<close>

type_synonym 's HandleFunc = "'s State \<Rightarrow> bytes \<Rightarrow> ('s State \<times> go_error option) go"

type_synonym 's handlers = "i32 \<rightharpoonup> 's HandleFunc option"

definition Register :: "i32 \<Rightarrow> 's HandleFunc option \<Rightarrow> 's handlers \<Rightarrow> 's handlers go" where
  "Register cmd fn tab = (if tab cmd \<noteq> None then Panic (CmdRepeated cmd) else Ret (tab(cmd \<mapsto> fn)))"

text \<open>\<open>handlers[cmd]\<close> of a missing command is nil.\<close>

definition reg_OnMsg :: "'s handlers \<Rightarrow> 's State msg_handler" where
  "reg_OnMsg tab s arg =
     (case tab (Cmd (maHeader arg)) of
        Some (Some handler) \<Rightarrow> handler s (maPayload arg)
      | _ \<Rightarrow> Ret (s, Some (CannotFindHandler (Cmd (maHeader arg)))))"

definition HandleWarp :: "'a layout option \<Rightarrow> ('s State \<Rightarrow> 'a \<Rightarrow> ('s State \<times> go_error option) go) \<Rightarrow> 's HandleFunc" where
  "HandleWarp lay fn s msg =
     (case Unmarshal lay msg of Inl err \<Rightarrow> Ret (s, Some err) | Inr req \<Rightarrow> fn s req)"

section \<open>Echo\<close>

definition CMD_ECHO :: i32 where "CMD_ECHO = 1"

record EchoReq =
  req_Num :: i32

record EchoResp =
  resp_Num :: i32

definition echo_req_layout :: "EchoReq layout" where
  "echo_req_layout = \<lparr>lay_put = put_le 4 \<circ> req_Num, lay_get = (\<lambda>bs. \<lparr>req_Num = get_le bs\<rparr>), lay_size = 4\<rparr>"

definition echo_resp_layout :: "EchoResp layout" where
  "echo_resp_layout = \<lparr>lay_put = put_le 4 \<circ> resp_Num, lay_get = (\<lambda>bs. \<lparr>resp_Num = get_le bs\<rparr>), lay_size = 4\<rparr>"

interpretation echo_req: exact_codec "lay_put echo_req_layout" "lay_get echo_req_layout" "lay_size echo_req_layout"
  by unfold_locales (auto simp: echo_req_layout_def intro: put_get_le32)

interpretation echo_resp: exact_codec "lay_put echo_resp_layout" "lay_get echo_resp_layout" "lay_size echo_resp_layout"
  by unfold_locales (auto simp: echo_resp_layout_def intro: put_get_le32)

definition Echo :: "'s sock_send \<Rightarrow> 's State \<Rightarrow> EchoReq \<Rightarrow> ('s State \<times> go_error option) go" where
  "Echo send s req =
     Ret (State_SendMsg send s CMD_ECHO (Some echo_resp_layout) \<lparr>resp_Num = req_Num req\<rparr>, None)"

text \<open>The package's \<open>init\<close>.\<close>

definition echo_init :: "'s sock_send \<Rightarrow> 's handlers \<Rightarrow> 's handlers go" where
  "echo_init send = Register CMD_ECHO (Some (HandleWarp (Some echo_req_layout) (Echo send)))"

section \<open>Registration\<close>

fun register_all :: "(i32 \<times> 's HandleFunc option) list \<Rightarrow> 's handlers \<Rightarrow> 's handlers go" where
  "register_all [] tab = Ret tab"
| "register_all ((cmd, fn) # rs) tab = go_bind (Register cmd fn tab) (register_all rs)"

lemma register_all_eq:
  "distinct (map fst rs) \<Longrightarrow> set (map fst rs) \<inter> dom tab = {} \<Longrightarrow>
     register_all rs tab = Ret (tab ++ map_of rs)"
proof (induction rs arbitrary: tab)
  case (Cons r rs)
  obtain cmd fn where r: "r = (cmd, fn)" by (cases r)
  from Cons.prems r have new: "tab cmd = None" "cmd \<notin> fst ` set rs" by (auto simp: domIff)
  have "register_all rs (tab(cmd \<mapsto> fn)) = Ret (tab(cmd \<mapsto> fn) ++ map_of rs)"
    using Cons.prems r new(2) by (intro Cons.IH) (simp_all del: fun_upd_apply)
  moreover have "tab(cmd \<mapsto> fn) ++ map_of rs = tab ++ (map_of rs)(cmd \<mapsto> fn)"
  proof
    fix c
    have "map_of rs cmd = None" using new(2) by (simp add: map_of_eq_None_iff)
    then show "(tab(cmd \<mapsto> fn) ++ map_of rs) c = (tab ++ (map_of rs)(cmd \<mapsto> fn)) c"
      by (simp add: map_add_def split: option.split)
  qed
  ultimately show ?case by (simp add: r Register_def new(1) del: fun_upd_apply)
qed simp

lemma register_all_repeated:
  assumes "\<not> distinct (map fst rs) \<or> set (map fst rs) \<inter> dom tab \<noteq> {}"
  shows "\<exists>cmd \<in> set (map fst rs). register_all rs tab = Panic (CmdRepeated cmd)"
  using assms
proof (induction rs arbitrary: tab)
  case (Cons r rs)
  obtain cmd fn where r: "r = (cmd, fn)" by (cases r)
  show ?case
  proof (cases "tab cmd")
    case None
    with Cons.prems r have "\<not> distinct (map fst rs) \<or> set (map fst rs) \<inter> dom (tab(cmd \<mapsto> fn)) \<noteq> {}"
      by (auto simp: domIff)
    from Cons.IH [OF this] show ?thesis by (simp add: r Register_def None del: fun_upd_apply)
  qed (simp add: r Register_def)
qed simp

text \<open>
  Registering handlers: it succeeds exactly when no command is registered twice (a repetition panics,
  naming a registered command), and then a message is handled by the handler of its command; for any other command,
  or a nil handler, the connection's handler returns an error that names the command and changes nothing.
\<close>

theorem registry_dispatch:
  "case register_all rs Map.empty of
     Panic p \<Rightarrow> \<not> distinct (map fst rs) \<and> (\<exists>cmd \<in> set (map fst rs). p = CmdRepeated cmd)
   | Ret tab \<Rightarrow> distinct (map fst rs)
       \<and> reg_OnMsg tab s arg =
           (case map_of rs (Cmd (maHeader arg)) of
              Some (Some fn) \<Rightarrow> fn s (maPayload arg)
            | _ \<Rightarrow> Ret (s, Some (CannotFindHandler (Cmd (maHeader arg)))))"
proof (cases "distinct (map fst rs)")
  case True
  then show ?thesis using register_all_eq [of rs Map.empty]
    by (simp add: reg_OnMsg_def)
next
  case False
  with register_all_repeated [of rs Map.empty] show ?thesis by (auto simp del: set_map)
qed

section \<open>Requests\<close>


section \<open>The echo server\<close>

text \<open>The messages of the echo protocol: a request with its sequence number, and the answer.\<close>

definition echo_request :: "i32 \<times> i32 \<Rightarrow> pack_msg_args" where
  "echo_request q = \<lparr>paSeq = fst q, paCmd = CMD_ECHO, paFlag = 0, paPayload = put_le 4 (snd q)\<rparr>"

definition echo_answer :: "i32 \<times> i32 \<Rightarrow> pack_msg_args" where
  "echo_answer q = \<lparr>paSeq = 0, paCmd = CMD_ECHO, paFlag = 0, paPayload = put_le 4 (snd q)\<rparr>"

lemma echo_handles:
  assumes "echo_init send Map.empty = Ret tab"
  shows "reg_OnMsg tab s (received (echo_request q)) = Ret (s\<lparr>Sock := snd (send (Sock s) (packed (echo_answer q)))\<rparr>, None)"
proof -
  have tab: "tab CMD_ECHO = Some (Some (HandleWarp (Some echo_req_layout) (Echo send)))"
    using assms by (auto simp: echo_init_def Register_def)
  have req: "Unmarshal (Some echo_req_layout) (put_le 4 (snd q)) = Inr \<lparr>req_Num = snd q\<rparr>"
    using echo_req.read_enc_exact [of "\<lparr>req_Num = snd q\<rparr>"] by (simp add: Unmarshal_def echo_req_layout_def)
  show ?thesis
    by (simp add: reg_OnMsg_def received_def echo_request_def pack_header_def tab HandleWarp_def req Echo_def
        State_SendMsg_def Marshal_def echo_resp_layout_def echo_answer_def packed_def PackMsg_def)
qed

lemma deliver_echo:
  assumes "echo_init send Map.empty = Ret tab"
  shows "deliver logged (reg_OnMsg tab) s (map echo_request qs) rest =
    Waiting (s\<lparr>Sock := foldl (\<lambda>k q. snd (send k (packed (echo_answer q)))) (Sock s) qs\<rparr>) rest"
  by (induction qs arbitrary: s) (simp_all add: echo_handles [OF assms])

text \<open>A TCP socket with room queues the answers in order.\<close>

lemma tcp_sends_room:
  assumes "\<forall>k m. send k m \<in> set (tcp_SendMsg k m)" and "\<not> ts_closeCh k"
    and "length (ts_writeCh k) + length ms \<le> writeChanLimit"
  shows "ts_writeCh (foldl (\<lambda>k m. snd (send k m)) k ms) = ts_writeCh k @ ms"
  using assms(2,3)
proof (induction ms arbitrary: k)
  case (Cons m ms)
  obtain r k' where s: "send k m = (r, k')" by fastforce
  then have in_set: "(r, k') \<in> set (tcp_SendMsg k m)" using assms(1) by metis
  then have "r = None" using tcp_port.open_room [of k r k' m] Cons.prems by simp
  then have "ts_writeCh k' = ts_writeCh k @ [m]" "ts_closeCh k' = ts_closeCh k"
    using tcp_port.sent [of k' k m] in_set by auto
  with Cons s show ?case by simp
qed simp

text \<open>C3.
  The echo server from end to end: over a TCP socket that is open and has room for the answers, however the network cuts a
  stream of marshalled and packed echo requests, the read loop with the parser and the registry ends up waiting for more with an empty
  cache, and the socket's write channel has exactly the packed answers appended, one for each request, in
  the order of the requests and with their numbers.
\<close>

theorem echo_server_end_to_end:
  assumes "echo_init send Map.empty = Ret tab" and "\<forall>k m. send k m \<in> set (tcp_SendMsg k m)"
    and "\<not> ts_closeCh sock" and "length (ts_writeCh sock) + length qs \<le> writeChanLimit"
    and "concat (map snd chunks) = concat (map (packed \<circ> echo_request) qs)"
  shows "\<exists>sock'. erase_read (tcp_read_loop (ParseMsgWarp (reg_OnMsg tab)) (new_reader (reg_OnConnect sock) pool)
        (map (\<lambda>(buf, data). ReadOk buf data) chunks)) = Waiting \<lparr>Sock = sock'\<rparr> []
    \<and> ts_writeCh sock' = ts_writeCh sock @ map (packed \<circ> echo_answer) qs"
proof -
  let ?sock = "foldl (\<lambda>k q. snd (send k (packed (echo_answer q)))) sock qs"
  have fit: "list_all fits (map echo_request qs)" "fits (echo_request (0, 0))"
    by (simp_all add: list_all_iff fits_def echo_request_def)
  have "0 < length (packed (echo_request (0, 0)))" by (simp add: length_packed HeaderSizeof_def)
  from read_messages [OF fit this, of chunks "reg_OnMsg tab" "reg_OnConnect sock" pool] assms(5)
  have "erase_read (tcp_read_loop (ParseMsgWarp (reg_OnMsg tab)) (new_reader (reg_OnConnect sock) pool)
        (map (\<lambda>(buf, data). ReadOk buf data) chunks)) = Waiting \<lparr>Sock = ?sock\<rparr> []"
    by (simp add: deliver_echo [OF assms(1)] reg_OnConnect_def comp_def)
  moreover have "?sock = foldl (\<lambda>k m. snd (send k m)) sock (map (packed \<circ> echo_answer) qs)"
    by (induction qs arbitrary: sock) simp_all
  then have "ts_writeCh ?sock = ts_writeCh sock @ map (packed \<circ> echo_answer) qs"
    using tcp_sends_room [OF assms(2,3), of "map (packed \<circ> echo_answer) qs"] assms(4) by simp
  ultimately show ?thesis by blast
qed

definition first_send :: "tcp_socket sock_send" where
  "first_send k m = hd (tcp_SendMsg k m)"

theorem echo_server_end_to_end_witness:
  "\<exists>tab sock'. erase_read (tcp_read_loop (ParseMsgWarp (reg_OnMsg tab)) (new_reader (reg_OnConnect newTCPSocket) [])
        [ReadOk pool_New (take 17 (packed (echo_request (5, 1024)))),
         ReadOk pool_New (drop 17 (packed (echo_request (5, 1024))))]) = Waiting \<lparr>Sock = sock'\<rparr> []
    \<and> ts_writeCh sock' = [packed (echo_answer (5, 1024))]"
proof -
  have init: "\<exists>tab. echo_init first_send Map.empty = Ret tab" by (simp add: echo_init_def Register_def)
  have send: "\<forall>k m. first_send k m \<in> set (tcp_SendMsg k m)"
    using tcp_port.never_blocks by (simp add: first_send_def)
  from init obtain tab where "echo_init first_send Map.empty = Ret tab" by blast
  from echo_server_end_to_end [OF this send, of newTCPSocket "[(5, 1024)]"
      "[(pool_New, take 17 (packed (echo_request (5, 1024)))), (pool_New, drop 17 (packed (echo_request (5, 1024))))]" "[]"]
  show ?thesis by (auto simp: newTCPSocket_def writeChanLimit_def)
qed

end
