(* ===== verification/Kcp_Socket.thy ===== *)
theory Kcp_Socket
  imports Send_Port Kcp_Mux
begin

text \<open>
  The KCP socket of \<open>pkg/xnet/kcp_socket.go\<close>: its two goroutines, the write channel with the frames of the
  multiplexer, and the shut down, which any of \<open>Close\<close> and the read loop's end can begin. What the read
  loop does with the bytes it reads is in \<open>Stream_Read\<close>, the protocol between two ends in \<open>Kcp_Handshake\<close>; here
  the read loop is seen by what it does to the socket.
\<close>

section \<open>State\<close>

text \<open>
  \<open>readLoop\<close>: before \<open>onConnect\<close>, at the read, in the loop over the cached bytes, in \<open>sendInline\<close> with the states
  still to send and whether the loop then ends; then its deferred calls: \<open>wg.Done\<close>, \<open>onDisconnect\<close>, \<open>releaseFn\<close>
  (of a server: the wait of \<open>mux.close\<close>, \<open>closeForce\<close> and its wait), \<open>closeOnce\<close>, gone.
\<close>

datatype krd_pc =
    KRConnect
  | KRLoop
  | KRParse
  | KRSend "i32 list" bool
  | KRDone
  | KRDisconnect
  | KRRelease
  | KRMuxWait
  | KRForce
  | KRReleaseWait
  | KRCloseOnce
  | KRExit

text \<open>
  \<open>writeLoop\<close>: in the blocking \<open>select\<close> of \<open>waitMsg\<close>, in its loop with the bytes collected and whether the close
  channel woke it, in \<open>write\<close> with the bytes left, and in the deferred calls.
\<close>

datatype kwr_pc =
    KWWait
  | KWDrain bytes bool
  | KWWrite bytes bool
  | KWDone
  | KWConnClose
  | KWExit

text \<open>
  \<open>ks_isServer\<close>: the socket's \<open>releaseFn\<close> is a server's \<open>deleteSocket\<close>, not the client's empty function.
  The last five fields are history: what the connection took and a failed write lost, the frames
  that were accepted, how many those were when \<open>closeCh\<close> was closed, and the calls of \<open>onDisconnect\<close>.
\<close>

record kcp_socket =
  ks_isServer :: bool
  ks_rd :: krd_pc
  ks_wr :: kwr_pc
  ks_writeCh :: "bytes list"
  ks_mux :: kcp_mux
  ks_closeFlag :: bool
  ks_closeCh :: bool
  ks_wg :: int
  ks_connClosed :: bool
  ks_writeErr :: "go_error option"
  ks_panic :: "go_panic option"
  ks_wire :: bytes
  ks_lost :: bytes
  ks_accepted :: "bytes list"
  ks_closedAt :: nat
  ks_disconnects :: nat

definition newKCPSocket :: "bool \<Rightarrow> bool \<Rightarrow> kcp_socket" where
  "newKCPSocket isServer isInline =
     \<lparr>ks_isServer = isServer, ks_rd = KRConnect, ks_wr = KWWait, ks_writeCh = [],
      ks_mux = newKCPMux isInline isServer, ks_closeFlag = False, ks_closeCh = False, ks_wg = 2,
      ks_connClosed = False, ks_writeErr = None, ks_panic = None, ks_wire = [], ks_lost = [],
      ks_accepted = [], ks_closedAt = 0, ks_disconnects = 0\<rparr>"

section \<open>Operations\<close>

definition kcp_send :: "kcp_socket \<Rightarrow> bool \<Rightarrow> bytes \<Rightarrow> (go_error option \<times> kcp_socket) list" where
  "kcp_send s inline payload =
     (case mux_packMsg (ks_mux s) inline payload of
        Inl err \<Rightarrow> [(Some err, s)]
      | Inr msg \<Rightarrow>
          map (\<lambda>(r, ch). (r, s\<lparr>ks_writeCh := ch, ks_accepted := ks_accepted s @ (if r = None then [msg] else [])\<rparr>))
            (select_send writeChanLimit SockAlreadyClose MsgOverflow (ks_writeCh s) (ks_closeCh s) msg))"

definition kcp_SendMsg :: "kcp_socket \<Rightarrow> bytes \<Rightarrow> (go_error option \<times> kcp_socket) list" where
  "kcp_SendMsg s payload = kcp_send s False payload"

text \<open>The frame of a payload.\<close>

definition kcp_frame :: "kcp_socket \<Rightarrow> bool \<times> bytes \<Rightarrow> bytes" where
  "kcp_frame s p = (if \<not> mx_isInline (ks_mux s) then snd p else put_bool (fst p) @ snd p)"

lemma kcp_send_eq:
  "kcp_send s inline payload =
     map (\<lambda>(r, ch). (r, s\<lparr>ks_writeCh := ch,
           ks_accepted := ks_accepted s @ (if r = None then [kcp_frame s (inline, payload)] else [])\<rparr>))
       (select_send writeChanLimit SockAlreadyClose MsgOverflow (ks_writeCh s) (ks_closeCh s)
         (kcp_frame s (inline, payload)))"
proof -
  have "mux_packMsg (ks_mux s) inline payload = Inr (kcp_frame s (inline, payload))"
    by (simp add: mux_packMsg_def kcp_frame_def)
  then show ?thesis by (simp add: kcp_send_def)
qed

lemma kcp_send_None:
  "(None, t) \<in> set (kcp_send s inline payload) \<longleftrightarrow> length (ks_writeCh s) < writeChanLimit
     \<and> t = s\<lparr>ks_writeCh := ks_writeCh s @ [kcp_frame s (inline, payload)],
           ks_accepted := ks_accepted s @ [kcp_frame s (inline, payload)]\<rparr>"
  by (auto simp: kcp_send_eq in_select_send image_iff Bex_def)

lemma kcp_send_Some:
  "(Some e, t) \<in> set (kcp_send s inline payload) \<Longrightarrow> t = s \<and>
     (e = SockAlreadyClose \<and> ks_closeCh s \<or> e = MsgOverflow \<and> \<not> ks_closeCh s \<and> writeChanLimit \<le> length (ks_writeCh s))"
  by (cases s) (auto simp: kcp_send_eq in_select_send)

interpretation kcp_port: send_port ks_writeCh ks_closeCh writeChanLimit SockAlreadyClose MsgOverflow
    kcp_frame "\<lambda>s p. kcp_send s (fst p) (snd p)"
proof
  show "kcp_send s (fst p) (snd p) \<noteq> []" for s p by (simp add: kcp_send_eq)
qed (auto simp: kcp_send_None kcp_frame_def fun_eq_iff dest: kcp_send_Some)

text \<open>\<open>sendInline\<close>; a frame that is refused is logged and dropped.\<close>

definition kcp_sendInline :: "kcp_socket \<Rightarrow> i32 \<Rightarrow> kcp_socket list" where
  "kcp_sendInline s state = map snd (kcp_send s True (put_le kcpExchangeSizeof state))"

text \<open>\<open>mux.init\<close> and \<open>mux.close\<close> send at most one state.\<close>

fun kcp_sendInlines :: "kcp_socket \<Rightarrow> i32 list \<Rightarrow> kcp_socket list" where
  "kcp_sendInlines s [] = [s]"
| "kcp_sendInlines s (state # states) = concat (map (\<lambda>t. kcp_sendInlines t states) (kcp_sendInline s state))"

text \<open>\<open>closeOnce\<close>: the compare-and-swap of the close flag.\<close>

definition kcp_closeOnce :: "kcp_socket \<Rightarrow> kcp_socket" where
  "kcp_closeOnce s =
     (if ks_closeFlag s then s
      else if ks_closeCh s then s\<lparr>ks_closeFlag := True, ks_panic := Some CloseOfClosed\<rparr>
      else s\<lparr>ks_closeFlag := True, ks_closeCh := True, ks_closedAt := length (ks_accepted s)\<rparr>)"

text \<open>\<open>closeForce\<close> is \<open>closeOnce\<close> and the wait for both goroutines.\<close>

definition kcp_closeForce_returns :: "kcp_socket \<Rightarrow> bool" where
  "kcp_closeForce_returns s \<longleftrightarrow> ks_closeFlag s \<and> ks_wg s = 0"

definition kcp_wg_Done :: "kcp_socket \<Rightarrow> kcp_socket" where
  "kcp_wg_Done s = (if ks_wg s \<le> 0 then s\<lparr>ks_panic := Some NegativeWaitGroup\<rparr> else s\<lparr>ks_wg := ks_wg s - 1\<rparr>)"

text \<open>
  The read loop. A read that finds the close flag set is its end, whatever it returned; the loop over the cached
  bytes does not look at the flag. \<open>kr_inline\<close> is a frame of the built in protocol, \<open>kr_data\<close> any other message,
  \<open>kr_parsed\<close> the rest that is no message yet, \<open>kr_fail\<close> an error of the handler or of the frame.
\<close>

inductive kcp_read_step :: "kcp_socket \<Rightarrow> kcp_socket \<Rightarrow> bool" where
  kr_connect: "ks_rd s = KRConnect \<Longrightarrow> kcp_read_step s (s\<lparr>ks_rd := KRLoop\<rparr>)"
| kr_read: "ks_rd s = KRLoop \<Longrightarrow> \<not> ks_closeFlag s \<Longrightarrow> kcp_read_step s (s\<lparr>ks_rd := KRParse\<rparr>)"
| kr_end: "ks_rd s = KRLoop \<Longrightarrow> kcp_read_step s (s\<lparr>ks_rd := KRDone\<rparr>)"
| kr_data: "ks_rd s = KRParse \<Longrightarrow> kcp_read_step s s"
| kr_inline: "ks_rd s = KRParse \<Longrightarrow> inlineProtocol (ks_mux s) ke = (m, outs, c, err) \<Longrightarrow>
    kcp_read_step s (s\<lparr>ks_mux := m, ks_rd := KRSend outs (err \<noteq> None)\<rparr>)"
| kr_parsed: "ks_rd s = KRParse \<Longrightarrow> kcp_read_step s (s\<lparr>ks_rd := KRLoop\<rparr>)"
| kr_fail: "ks_rd s = KRParse \<Longrightarrow> kcp_read_step s (s\<lparr>ks_rd := KRDone\<rparr>)"
| kr_send: "ks_rd s = KRSend (state # outs) ends \<Longrightarrow> t \<in> set (kcp_sendInline s state) \<Longrightarrow>
    kcp_read_step s (t\<lparr>ks_rd := KRSend outs ends\<rparr>)"
| kr_sent: "ks_rd s = KRSend [] ends \<Longrightarrow> kcp_read_step s (s\<lparr>ks_rd := (if ends then KRDone else KRParse)\<rparr>)"
| kr_wg: "ks_rd s = KRDone \<Longrightarrow> kcp_read_step s (kcp_wg_Done (s\<lparr>ks_rd := KRDisconnect\<rparr>))"
| kr_disconnect: "ks_rd s = KRDisconnect \<Longrightarrow>
    kcp_read_step s (s\<lparr>ks_rd := KRRelease, ks_disconnects := ks_disconnects s + 1\<rparr>)"
| kr_release_client: "ks_rd s = KRRelease \<Longrightarrow> \<not> ks_isServer s \<Longrightarrow> kcp_read_step s (s\<lparr>ks_rd := KRCloseOnce\<rparr>)"
| kr_release_server: "ks_rd s = KRRelease \<Longrightarrow> ks_isServer s \<Longrightarrow> mux_close (ks_mux s) = (m, outs, w) \<Longrightarrow>
    t \<in> set (kcp_sendInlines (s\<lparr>ks_mux := m\<rparr>) outs) \<Longrightarrow>
    kcp_read_step s (t\<lparr>ks_rd := (if w then KRMuxWait else KRForce)\<rparr>)"
| kr_mux_waited: "ks_rd s = KRMuxWait \<Longrightarrow> m \<in> set (mux_close_wait (ks_mux s)) \<Longrightarrow>
    kcp_read_step s (s\<lparr>ks_mux := m, ks_rd := KRForce\<rparr>)"
| kr_force: "ks_rd s = KRForce \<Longrightarrow> kcp_read_step s (kcp_closeOnce (s\<lparr>ks_rd := KRReleaseWait\<rparr>))"
| kr_released: "ks_rd s = KRReleaseWait \<Longrightarrow> kcp_closeForce_returns s \<Longrightarrow> kcp_read_step s (s\<lparr>ks_rd := KRCloseOnce\<rparr>)"
| kr_close: "ks_rd s = KRCloseOnce \<Longrightarrow> kcp_read_step s (kcp_closeOnce (s\<lparr>ks_rd := KRExit\<rparr>))"

text \<open>The write loop; unlike the TCP socket's it also writes an empty message and goes on.\<close>

inductive kcp_write_step :: "kcp_socket \<Rightarrow> kcp_socket \<Rightarrow> bool" where
  kw_data: "ks_wr s = KWWait \<Longrightarrow> ks_writeCh s = d # q \<Longrightarrow>
    kcp_write_step s (s\<lparr>ks_wr := KWDrain d False, ks_writeCh := q\<rparr>)"
| kw_closed: "ks_wr s = KWWait \<Longrightarrow> ks_closeCh s \<Longrightarrow> kcp_write_step s (s\<lparr>ks_wr := KWDrain [] True\<rparr>)"
| kw_more: "ks_wr s = KWDrain msg ret \<Longrightarrow> ks_writeCh s = d # q \<Longrightarrow>
    kcp_write_step s (s\<lparr>ks_wr := KWDrain (msg @ d) ret, ks_writeCh := q\<rparr>)"
| kw_drained: "ks_wr s = KWDrain msg ret \<Longrightarrow> ks_writeCh s = [] \<Longrightarrow>
    kcp_write_step s (s\<lparr>ks_wr := KWWrite msg ret\<rparr>)"
| kw_write: "ks_wr s = KWWrite msg ret \<Longrightarrow> n \<le> length msg \<Longrightarrow>
    kcp_write_step s (s\<lparr>ks_wire := ks_wire s @ take n msg,
      ks_wr := (if length msg \<le> n then (if ret then KWDone else KWWait) else KWWrite (drop n msg) ret)\<rparr>)"
| kw_fail: "ks_wr s = KWWrite msg ret \<Longrightarrow> n \<le> length msg \<Longrightarrow>
    kcp_write_step s (s\<lparr>ks_wire := ks_wire s @ take n msg, ks_lost := drop n msg, ks_writeErr := Some err,
      ks_wr := KWDone\<rparr>)"
| kw_wg: "ks_wr s = KWDone \<Longrightarrow> kcp_write_step s (kcp_wg_Done (s\<lparr>ks_wr := KWConnClose\<rparr>))"
| kw_conn: "ks_wr s = KWConnClose \<Longrightarrow> kcp_write_step s (s\<lparr>ks_wr := KWExit, ks_connClosed := True\<rparr>)"

text \<open>
  \<open>write\<close> as a function of what the connection answers to each round: \<open>SetWriteDeadline\<close> or \<open>Write\<close> fails, or \<open>Write\<close> takes some
  bytes. It gives the bytes that went out and how it returned; with no more answers it has not returned yet. These are the
  steps \<open>kw_write\<close> and \<open>kw_fail\<close> of the write loop.
\<close>

datatype conn_write = DeadlineErr go_error | WriteErr nat go_error | Wrote nat

fun kcp_write :: "bytes \<Rightarrow> conn_write list \<Rightarrow> bytes \<times> go_error option option" where
  "kcp_write msg [] = ([], None)"
| "kcp_write msg (DeadlineErr err # rs) = ([], Some (Some err))"
| "kcp_write msg (WriteErr n err # rs) = (take n msg, Some (Some err))"
| "kcp_write msg (Wrote n # rs) =
     (if length msg \<le> n then (take n msg, Some None)
      else case kcp_write (drop n msg) rs of (out, r) \<Rightarrow> (take n msg @ out, r))"

fun write_fits :: "bytes \<Rightarrow> conn_write list \<Rightarrow> bool" where
  "write_fits msg [] = True"
| "write_fits msg (DeadlineErr err # rs) = True"
| "write_fits msg (WriteErr n err # rs) = (n \<le> length msg)"
| "write_fits msg (Wrote n # rs) = (n \<le> length msg \<and> write_fits (drop n msg) rs)"

lemma kcp_write_prefix: "kcp_write msg rs = (out, r) \<Longrightarrow> \<exists>left. msg = out @ left \<and> (r = Some None \<longrightarrow> left = [])"
proof (induction msg rs arbitrary: out rule: kcp_write.induct)
  case (4 msg n rs)
  show ?case
  proof (cases "length msg \<le> n")
    case False
    obtain out' where o: "kcp_write (drop n msg) rs = (out', r)" "out = take n msg @ out'"
      using 4(2) False by (auto split: prod.splits)
    with 4(1) [OF False o(1)] show ?thesis by (metis append_assoc append_take_drop_id)
  qed (use 4(2) in simp)
qed (auto intro: append_take_drop_id [symmetric])

lemma kcp_write_steps:
  "ks_wr s = KWWrite msg ret \<Longrightarrow> write_fits msg rs \<Longrightarrow> kcp_write msg rs = (out, Some r) \<Longrightarrow>
     steps kcp_write_step s
       (case r of
          None \<Rightarrow> s\<lparr>ks_wire := ks_wire s @ out, ks_wr := (if ret then KWDone else KWWait)\<rparr>
        | Some err \<Rightarrow> s\<lparr>ks_wire := ks_wire s @ out, ks_lost := drop (length out) msg, ks_writeErr := Some err, ks_wr := KWDone\<rparr>)"
proof (induction msg rs arbitrary: s out rule: kcp_write.induct)
  case (2 msg err rs)
  then show ?case using steps_one [where step = kcp_write_step, OF kw_fail [of s msg ret 0 err]] by auto
next
  case (3 msg n err rs)
  then show ?case using steps_one [where step = kcp_write_step, OF kw_fail [of s msg ret n err]] by (auto simp: min_absorb2)
next
  case (4 msg n rs)
  show ?case
  proof (cases "length msg \<le> n")
    case True
    with 4 show ?thesis using steps_one [where step = kcp_write_step, OF kw_write [of s msg ret n]] by simp
  next
    case False
    obtain out' where o: "kcp_write (drop n msg) rs = (out', Some r)" "out = take n msg @ out'"
      using 4(4) False by (auto split: prod.splits)
    let ?s = "s\<lparr>ks_wire := ks_wire s @ take n msg, ks_wr := KWWrite (drop n msg) ret\<rparr>"
    have step: "kcp_write_step s ?s" using kw_write [of s msg ret n] 4(2,3) False by simp
    have fits: "write_fits (drop n msg) rs" using 4(3) by simp
    have "ks_wr ?s = KWWrite (drop n msg) ret" by simp
    from steps_trans [where step = kcp_write_step, OF step 4(1) [OF False this fits o(1)]] o(2) False show ?thesis
      by (auto split: option.splits simp: min_absorb2 add.commute)
  qed
qed simp

text \<open>
  Everything: the goroutines, callers of \<open>SendMsg\<close>, and the parts of \<open>newKCPSocket\<close> and \<open>Close\<close>: \<open>mux.init\<close>,
  \<open>mux.close\<close> and \<open>closeForce\<close>. A second caller of \<open>mux.close\<close> waits for the first in the code, which its timer
  bounds; here it may also go on at once.
\<close>

inductive kcp_step :: "kcp_socket \<Rightarrow> kcp_socket \<Rightarrow> bool" where
  kstep_read: "kcp_read_step s t \<Longrightarrow> kcp_step s t"
| kstep_write: "kcp_write_step s t \<Longrightarrow> kcp_step s t"
| kstep_send: "(r, t) \<in> set (kcp_SendMsg s payload) \<Longrightarrow> kcp_step s t"
| kstep_init: "mux_init (ks_mux s) = (m, outs, w) \<Longrightarrow> t \<in> set (kcp_sendInlines (s\<lparr>ks_mux := m\<rparr>) outs) \<Longrightarrow> kcp_step s t"
| kstep_init_wait: "(m, err) \<in> set (mux_init_wait (ks_mux s)) \<Longrightarrow>
    kcp_step s (let s = s\<lparr>ks_mux := m\<rparr> in if err = None then s else kcp_closeOnce s)"
| kstep_mux_close: "mux_close (ks_mux s) = (m, outs, w) \<Longrightarrow> t \<in> set (kcp_sendInlines (s\<lparr>ks_mux := m\<rparr>) outs) \<Longrightarrow> kcp_step s t"
| kstep_close_wait: "m \<in> set (mux_close_wait (ks_mux s)) \<Longrightarrow> kcp_step s (s\<lparr>ks_mux := m\<rparr>)"
| kstep_close: "kcp_step s (kcp_closeOnce s)"

definition kcp_init :: "bool \<Rightarrow> bool \<Rightarrow> kcp_socket \<Rightarrow> bool" where
  "kcp_init isServer isInline s \<longleftrightarrow> s = newKCPSocket isServer isInline"

section \<open>Invariant\<close>

fun kw_pending :: "kwr_pc \<Rightarrow> bytes" where
  "kw_pending (KWDrain msg ret) = msg"
| "kw_pending (KWWrite msg ret) = msg"
| "kw_pending _ = []"

fun kw_woken :: "kwr_pc \<Rightarrow> bool" where
  "kw_woken (KWDrain msg ret) = ret"
| "kw_woken (KWWrite msg ret) = ret"
| "kw_woken _ = False"

fun kw_left :: "kwr_pc \<Rightarrow> bool" where
  "kw_left KWWait = False"
| "kw_left (KWDrain msg ret) = False"
| "kw_left (KWWrite msg ret) = False"
| "kw_left _ = True"

fun kr_active :: "krd_pc \<Rightarrow> bool" where
  "kr_active KRConnect = True"
| "kr_active KRLoop = True"
| "kr_active KRParse = True"
| "kr_active (KRSend outs ends) = True"
| "kr_active KRDone = True"
| "kr_active _ = False"

definition kcp_bytes_inv :: "kcp_socket \<Rightarrow> bool" where
  "kcp_bytes_inv s \<longleftrightarrow>
     ks_wire s @ ks_lost s @ kw_pending (ks_wr s) @ concat (ks_writeCh s) = concat (ks_accepted s)
     \<and> (ks_writeErr s = None \<longrightarrow> ks_lost s = [])
     \<and> (ks_writeErr s \<noteq> None \<longrightarrow> kw_left (ks_wr s))
     \<and> length (ks_writeCh s) \<le> writeChanLimit"

definition kcp_control_inv :: "kcp_socket \<Rightarrow> bool" where
  "kcp_control_inv s \<longleftrightarrow> ks_panic s = None \<and> ks_closeFlag s = ks_closeCh s
     \<and> ks_wg s = (if kr_active (ks_rd s) then 1 else 0)
         + (if ks_wr s = KWConnClose \<or> ks_wr s = KWExit then 0 else 1)
     \<and> (ks_connClosed s \<longleftrightarrow> ks_wr s = KWExit)
     \<and> (kw_woken (ks_wr s) \<longrightarrow> ks_closeCh s)
     \<and> (ks_rd s = KRReleaseWait \<or> ks_rd s = KRExit \<longrightarrow> ks_closeCh s)
     \<and> ks_disconnects s = (if kr_active (ks_rd s) \<or> ks_rd s = KRDisconnect then 0 else 1)"

text \<open>The bytes accepted before \<open>closeCh\<close> was closed.\<close>

definition kcp_due :: "kcp_socket \<Rightarrow> bytes" where
  "kcp_due s = concat (take (ks_closedAt s) (ks_accepted s))"

definition kcp_flush_inv :: "kcp_socket \<Rightarrow> bool" where
  "kcp_flush_inv s \<longleftrightarrow> ks_closedAt s \<le> length (ks_accepted s)
     \<and> (\<forall>msg. ks_wr s = KWWrite msg True \<longrightarrow> length (kcp_due s) \<le> length (ks_wire s) + length msg)
     \<and> (kw_left (ks_wr s) \<and> ks_writeErr s = None \<longrightarrow> ks_closeCh s \<and> length (kcp_due s) \<le> length (ks_wire s))"

definition kcp_inv :: "kcp_socket \<Rightarrow> bool" where
  "kcp_inv s \<longleftrightarrow> kcp_bytes_inv s \<and> kcp_control_inv s \<and> kcp_flush_inv s"

lemma kcp_frames [simp]:
  "kcp_due (s\<lparr>ks_rd := r\<rparr>) = kcp_due s" "kcp_due (s\<lparr>ks_wr := w\<rparr>) = kcp_due s" "kcp_due (s\<lparr>ks_mux := m\<rparr>) = kcp_due s"
  "kcp_due (s\<lparr>ks_writeCh := q\<rparr>) = kcp_due s" "kcp_due (s\<lparr>ks_wire := x\<rparr>) = kcp_due s" "kcp_due (s\<lparr>ks_lost := l\<rparr>) = kcp_due s"
  "kcp_due (s\<lparr>ks_writeErr := e\<rparr>) = kcp_due s" "kcp_due (s\<lparr>ks_wg := n\<rparr>) = kcp_due s" "kcp_due (s\<lparr>ks_panic := p\<rparr>) = kcp_due s"
  "kcp_due (s\<lparr>ks_connClosed := c\<rparr>) = kcp_due s" "kcp_due (s\<lparr>ks_disconnects := k\<rparr>) = kcp_due s"
  "kcp_due (s\<lparr>ks_closeFlag := c\<rparr>) = kcp_due s" "kcp_due (s\<lparr>ks_closeCh := c\<rparr>) = kcp_due s"
  by (simp_all add: kcp_due_def)

lemma kcp_mux_frame [simp]: "kcp_inv (s\<lparr>ks_mux := m\<rparr>) = kcp_inv s"
  by (simp add: kcp_inv_def kcp_bytes_inv_def kcp_control_inv_def kcp_flush_inv_def)

lemma concat_take_le: "length (concat (take n xs)) \<le> length (concat xs)"
  by (metis append_take_drop_id concat_append le_add1 length_append)

lemma kcp_closeOnce_inv: "kcp_inv s \<Longrightarrow> kcp_inv (kcp_closeOnce s)"
proof -
  assume inv: "kcp_inv s"
  show ?thesis
  proof (cases "ks_closeFlag s")
    case False
    with inv have f: "\<not> ks_closeCh s" "\<not> kw_woken (ks_wr s)" "kw_left (ks_wr s) \<longrightarrow> ks_writeErr s \<noteq> None"
      by (auto simp: kcp_inv_def kcp_control_inv_def kcp_flush_inv_def)
    with False inv show ?thesis
      by (auto simp: kcp_inv_def kcp_bytes_inv_def kcp_control_inv_def kcp_flush_inv_def kcp_closeOnce_def)
  qed (simp add: kcp_closeOnce_def inv)
qed

lemma kcp_send_inv:
  assumes "(r, t) \<in> set (kcp_send s inline payload)" and "kcp_inv s"
  shows "kcp_inv t"
proof (cases r)
  case None
  with assms(1) have room: "length (ks_writeCh s) < writeChanLimit"
    and t: "t = s\<lparr>ks_writeCh := ks_writeCh s @ [kcp_frame s (inline, payload)],
      ks_accepted := ks_accepted s @ [kcp_frame s (inline, payload)]\<rparr>" by (simp_all add: kcp_send_None)
  have due: "ks_closedAt s \<le> length (ks_accepted s) \<Longrightarrow> kcp_due t = kcp_due s" by (simp add: t kcp_due_def)
  have i: "kcp_bytes_inv s" "kcp_control_inv s" "kcp_flush_inv s" using assms(2) by (simp_all add: kcp_inv_def)
  have "kcp_bytes_inv t" using i(1) room by (simp add: kcp_bytes_inv_def t flip: append_assoc)
  moreover have "kcp_control_inv t" using i(2) by (simp add: kcp_control_inv_def t)
  moreover have "kcp_flush_inv t" using i(3) due by (simp add: kcp_flush_inv_def) (simp add: t)
  ultimately show ?thesis by (simp add: kcp_inv_def)
next
  case (Some e)
  with assms(1) have "t = s" using kcp_send_Some by auto
  with assms(2) show ?thesis by simp
qed

lemma kcp_sendInline_inv: "t \<in> set (kcp_sendInline s state) \<Longrightarrow> kcp_inv s \<Longrightarrow> kcp_inv t"
  by (auto simp: kcp_sendInline_def intro: kcp_send_inv)

lemma kcp_sendInlines_inv: "t \<in> set (kcp_sendInlines s outs) \<Longrightarrow> kcp_inv s \<Longrightarrow> kcp_inv t"
  by (induction s outs rule: kcp_sendInlines.induct) (auto intro: kcp_sendInline_inv)

text \<open>What a \<open>sendInline\<close> changes.\<close>

definition kcp_sent_from :: "kcp_socket \<Rightarrow> kcp_socket \<Rightarrow> bool" where
  "kcp_sent_from s t \<longleftrightarrow> ks_rd t = ks_rd s \<and> ks_wr t = ks_wr s \<and> ks_closeFlag t = ks_closeFlag s
     \<and> ks_closedAt t = ks_closedAt s \<and> ks_writeErr t = ks_writeErr s
     \<and> (\<exists>more. ks_accepted t = ks_accepted s @ more \<and> length (ks_writeCh t) = length (ks_writeCh s) + length more)"

lemma kcp_send_from: "(r, t) \<in> set (kcp_send s inline payload) \<Longrightarrow>
    kcp_sent_from s t \<and> length (ks_writeCh t) \<le> length (ks_writeCh s) + 1"
  by (cases r) (auto simp: kcp_send_None kcp_sent_from_def dest: kcp_send_Some)

lemma kcp_sendInline_from: "t \<in> set (kcp_sendInline s state) \<Longrightarrow>
    kcp_sent_from s t \<and> length (ks_writeCh t) \<le> length (ks_writeCh s) + 1"
  by (auto simp: kcp_sendInline_def dest: kcp_send_from)

lemma kcp_sent_from_trans: "kcp_sent_from s t \<Longrightarrow> kcp_sent_from t u \<Longrightarrow> kcp_sent_from s u"
  by (auto simp: kcp_sent_from_def)

lemma kcp_sendInlines_from: "t \<in> set (kcp_sendInlines s outs) \<Longrightarrow>
    kcp_sent_from s t \<and> length (ks_writeCh t) \<le> length (ks_writeCh s) + length outs"
proof (induction s outs rule: kcp_sendInlines.induct)
  case (1 s)
  then show ?case by (simp add: kcp_sent_from_def)
next
  case (2 s state states)
  then obtain u where u: "u \<in> set (kcp_sendInline s state)" "t \<in> set (kcp_sendInlines u states)" by auto
  with 2 kcp_sendInline_from [OF u(1)] kcp_sent_from_trans show ?case by fastforce
qed

lemma kcp_send_mux: "(r, t) \<in> set (kcp_send s inline payload) \<Longrightarrow> ks_mux t = ks_mux s"
  by (cases r) (auto simp: kcp_send_None dest: kcp_send_Some)

lemma kcp_sendInlines_mux: "t \<in> set (kcp_sendInlines s outs) \<Longrightarrow> ks_mux t = ks_mux s"
proof (induction s outs rule: kcp_sendInlines.induct)
  case (2 s state states)
  then obtain u where "u \<in> set (kcp_sendInline s state)" "ks_mux t = ks_mux u" by auto
  then show ?case using kcp_send_mux by (auto simp: kcp_sendInline_def)
qed simp

lemma mux_close_outs: "mux_close m = (m', outs, w) \<Longrightarrow> length outs \<le> 1"
  by (auto simp: mux_close_def Let_def split: if_splits)

lemma kcp_sendInline_not_Nil: "\<exists>t. t \<in> set (kcp_sendInline s state)"
  using kcp_port.never_blocks [of s "(True, put_le kcpExchangeSizeof state)"]
  by (cases "kcp_send s True (put_le kcpExchangeSizeof state)") (auto simp: kcp_sendInline_def)

lemma kcp_sendInlines_not_Nil: "\<exists>t. t \<in> set (kcp_sendInlines s outs)"
  by (induction s outs rule: kcp_sendInlines.induct) (auto, meson kcp_sendInline_not_Nil)

text \<open>A read loop that stays in one of its active places, or stays beyond them.\<close>

lemma kcp_rd_frame:
  "kcp_inv s \<Longrightarrow> kr_active (ks_rd s) \<Longrightarrow> kr_active r \<Longrightarrow> kcp_inv (s\<lparr>ks_rd := r\<rparr>)"
  "kcp_inv s \<Longrightarrow> \<not> kr_active (ks_rd s) \<Longrightarrow> ks_rd s \<noteq> KRDisconnect \<Longrightarrow> \<not> kr_active r \<Longrightarrow> r \<noteq> KRDisconnect \<Longrightarrow>
     r = KRReleaseWait \<or> r = KRExit \<longrightarrow> ks_closeCh s \<Longrightarrow> kcp_inv (s\<lparr>ks_rd := r\<rparr>)"
  by (auto simp: kcp_inv_def kcp_bytes_inv_def kcp_control_inv_def kcp_flush_inv_def)

lemma kcp_closeOnce_rd: "kcp_closeOnce (s\<lparr>ks_rd := r\<rparr>) = (kcp_closeOnce s)\<lparr>ks_rd := r\<rparr>"
  by (simp add: kcp_closeOnce_def)

lemma kcp_closeOnce_frame [simp]:
  "ks_rd (kcp_closeOnce s) = ks_rd s" "ks_wr (kcp_closeOnce s) = ks_wr s"
  "ks_writeCh (kcp_closeOnce s) = ks_writeCh s" "ks_accepted (kcp_closeOnce s) = ks_accepted s"
  "ks_writeErr (kcp_closeOnce s) = ks_writeErr s" "ks_closeFlag (kcp_closeOnce s)"
  by (simp_all add: kcp_closeOnce_def)

lemma kcp_inv_flag: "kcp_inv s \<Longrightarrow> ks_closeCh s = ks_closeFlag s"
  by (simp add: kcp_inv_def kcp_control_inv_def)

lemma kcp_closeOnce_rd_inv:
  assumes "kcp_inv s" and "\<not> kr_active (ks_rd s)" and "ks_rd s \<noteq> KRDisconnect" and "r = KRReleaseWait \<or> r = KRExit"
  shows "kcp_inv (kcp_closeOnce (s\<lparr>ks_rd := r\<rparr>))"
proof -
  have "kcp_inv (kcp_closeOnce s)" by (rule kcp_closeOnce_inv [OF assms(1)])
  with assms show ?thesis unfolding kcp_closeOnce_rd by (intro kcp_rd_frame(2)) (auto simp: kcp_inv_flag)
qed

lemma kcp_read_step_inv: "kcp_read_step s t \<Longrightarrow> kcp_inv s \<Longrightarrow> kcp_inv t"
proof (induction rule: kcp_read_step.induct)
  case (kr_send s state outs ends t)
  then have "kcp_inv t" "ks_rd t = ks_rd s"
    using kcp_sendInline_inv kcp_sendInline_from by (auto simp: kcp_sent_from_def)
  with kr_send show ?case by (intro kcp_rd_frame(1)) simp_all
next
  case (kr_release_server s m outs w t)
  then have "kcp_inv t" "ks_rd t = ks_rd s"
    using kcp_sendInlines_inv [of t "s\<lparr>ks_mux := m\<rparr>"] kcp_sendInlines_from [of t "s\<lparr>ks_mux := m\<rparr>"]
    by (auto simp: kcp_sent_from_def)
  with kr_release_server show ?case by (intro kcp_rd_frame(2)) auto
next
  case (kr_wg s)
  then show ?case
    by (auto simp: kcp_inv_def kcp_bytes_inv_def kcp_control_inv_def kcp_flush_inv_def kcp_wg_Done_def)
next
  case (kr_disconnect s)
  then show ?case
    by (auto simp: kcp_inv_def kcp_bytes_inv_def kcp_control_inv_def kcp_flush_inv_def)
next
  case (kr_inline s ke m outs c err)
  then have "kcp_inv (s\<lparr>ks_mux := m\<rparr>)" by simp
  with kr_inline have "kcp_inv ((s\<lparr>ks_mux := m\<rparr>)\<lparr>ks_rd := KRSend outs (err \<noteq> None)\<rparr>)"
    by (intro kcp_rd_frame(1)) simp_all
  then show ?case by simp
next
  case (kr_mux_waited s m)
  then have "kcp_inv (s\<lparr>ks_mux := m\<rparr>)" by simp
  with kr_mux_waited have "kcp_inv ((s\<lparr>ks_mux := m\<rparr>)\<lparr>ks_rd := KRForce\<rparr>)" by (intro kcp_rd_frame(2)) simp_all
  then show ?case by simp
qed (auto intro: kcp_rd_frame kcp_closeOnce_rd_inv)

lemma kcp_write_step_bytes: "kcp_write_step s t \<Longrightarrow> kcp_bytes_inv s \<Longrightarrow> kcp_bytes_inv t"
  by (induction rule: kcp_write_step.induct) (auto simp: kcp_bytes_inv_def kcp_wg_Done_def)

lemma kcp_write_step_control: "kcp_write_step s t \<Longrightarrow> kcp_control_inv s \<Longrightarrow> kcp_control_inv t"
  by (induction rule: kcp_write_step.induct) (auto simp: kcp_control_inv_def kcp_wg_Done_def)

lemma kcp_write_step_flush: "kcp_write_step s t \<Longrightarrow> kcp_inv s \<Longrightarrow> kcp_flush_inv t"
proof (induction rule: kcp_write_step.induct)
  case (kw_drained s msg ret)
  have "length (ks_wire s) + length (ks_lost s) + length msg = length (concat (ks_accepted s))"
    using kw_drained arg_cong [of _ _ length] by (auto simp: kcp_inv_def kcp_bytes_inv_def) (metis length_append add.assoc)
  moreover have "length (kcp_due s) \<le> length (concat (ks_accepted s))" by (simp only: kcp_due_def concat_take_le)
  moreover have "ks_lost s = []" using kw_drained by (auto simp: kcp_inv_def kcp_bytes_inv_def)
  ultimately show ?case using kw_drained.prems by (simp add: kcp_inv_def kcp_flush_inv_def)
next
  case (kw_write s msg ret n)
  then show ?case by (auto simp: kcp_inv_def kcp_flush_inv_def kcp_control_inv_def)
qed (auto simp: kcp_inv_def kcp_flush_inv_def kcp_wg_Done_def)

interpretation kcp_sys: inductive_invariant "kcp_init isServer isInline" kcp_step kcp_inv for isServer isInline
proof
  show "kcp_inv s" if "kcp_init isServer isInline s" for s
    using that by (simp add: kcp_init_def newKCPSocket_def kcp_inv_def kcp_bytes_inv_def kcp_control_inv_def
        kcp_flush_inv_def)
  show "kcp_inv t" if "kcp_inv s" "kcp_step s t" for s t
    using that(2,1)
  proof (induction rule: kcp_step.induct)
    case (kstep_write s t)
    then show ?case using kcp_write_step_bytes kcp_write_step_control kcp_write_step_flush by (auto simp: kcp_inv_def)
  next
    case (kstep_send r t s payload)
    then show ?case by (auto simp: kcp_SendMsg_def intro: kcp_send_inv)
  next
    case (kstep_init_wait m err s)
    have "kcp_inv (s\<lparr>ks_mux := m\<rparr>)" using kstep_init_wait.prems by simp
    from this kcp_closeOnce_inv [OF this] show ?case by (simp add: Let_def)
  qed (auto intro: kcp_read_step_inv kcp_sendInlines_inv kcp_closeOnce_inv)
qed

section \<open>The shut down ends\<close>

text \<open>
  The socket's own steps after the shut down has begun: nothing arrives any more, a read ends only because
  the connection was closed, and the connection takes the bytes of every write.
\<close>

inductive kcp_own_step :: "kcp_socket \<Rightarrow> kcp_socket \<Rightarrow> bool" where
  ko_read: "ks_rd s \<noteq> KRLoop \<Longrightarrow> ks_rd s \<noteq> KRParse \<Longrightarrow> kcp_read_step s t \<Longrightarrow> kcp_own_step s t"
| ko_parsed: "ks_rd s = KRParse \<Longrightarrow> kcp_own_step s (s\<lparr>ks_rd := KRLoop\<rparr>)"
| ko_end: "ks_rd s = KRLoop \<Longrightarrow> ks_connClosed s \<Longrightarrow> kcp_own_step s (s\<lparr>ks_rd := KRDone\<rparr>)"
| ko_write: "kcp_write_step s t \<Longrightarrow> ks_writeErr t = ks_writeErr s \<Longrightarrow>
    (\<And>msg ret. ks_wr s = KWWrite msg ret \<Longrightarrow> ks_wire t = ks_wire s @ msg) \<Longrightarrow> kcp_own_step s t"

text \<open>A frame put into the channel costs the writer at most six steps.\<close>

fun kr_rank :: "krd_pc \<Rightarrow> nat" where
  "kr_rank (KRSend outs ends) = 18 + 8 * length outs"
| "kr_rank KRConnect = 17"
| "kr_rank KRParse = 16"
| "kr_rank KRLoop = 15"
| "kr_rank KRDone = 14"
| "kr_rank KRDisconnect = 13"
| "kr_rank KRRelease = 12"
| "kr_rank KRMuxWait = 4"
| "kr_rank KRForce = 3"
| "kr_rank KRReleaseWait = 2"
| "kr_rank KRCloseOnce = 1"
| "kr_rank KRExit = 0"

fun kw_rank :: "kwr_pc \<Rightarrow> nat \<Rightarrow> nat" where
  "kw_rank KWWait q = 6 * q + 6"
| "kw_rank (KWDrain msg ret) q = 6 * q + (if ret then 5 else 8)"
| "kw_rank (KWWrite msg ret) q = (if ret then 4 else 6 * q + 7)"
| "kw_rank KWDone q = 3"
| "kw_rank KWConnClose q = 2"
| "kw_rank KWExit q = 0"

definition kcp_rank :: "kcp_socket \<Rightarrow> nat" where
  "kcp_rank s = kr_rank (ks_rd s) + kw_rank (ks_wr s) (length (ks_writeCh s))"

definition kcp_closing :: "kcp_socket \<Rightarrow> bool" where
  "kcp_closing s \<longleftrightarrow> kcp_inv s \<and> ks_closeFlag s"

text \<open>No write failed and the frames accepted when the shut down began were \<open>acc\<close>.\<close>

definition kcp_flushing :: "bytes list \<Rightarrow> kcp_socket \<Rightarrow> bool" where
  "kcp_flushing acc s \<longleftrightarrow> ks_writeErr s = None \<and> ks_closeFlag s \<and> ks_closedAt s = length acc
     \<and> (\<exists>more. ks_accepted s = acc @ more)"

lemma kcp_closeOnce_again: "ks_closeFlag s \<Longrightarrow> kcp_closeOnce s = s"
  by (simp add: kcp_closeOnce_def)

lemma kcp_sent_from_flushing: "kcp_sent_from s t \<Longrightarrow> kcp_flushing acc s \<Longrightarrow> kcp_flushing acc t"
  by (auto simp: kcp_sent_from_def kcp_flushing_def)

lemma kcp_flushing_frame [simp]:
  "kcp_flushing acc (s\<lparr>ks_rd := r\<rparr>) = kcp_flushing acc s" "kcp_flushing acc (s\<lparr>ks_mux := m\<rparr>) = kcp_flushing acc s"
  "kcp_flushing acc (s\<lparr>ks_disconnects := n\<rparr>) = kcp_flushing acc s"
  by (simp_all add: kcp_flushing_def)

lemma kcp_wg_Done_frame [simp]:
  "ks_rd (kcp_wg_Done s) = ks_rd s" "ks_wr (kcp_wg_Done s) = ks_wr s"
  "ks_writeCh (kcp_wg_Done s) = ks_writeCh s" "ks_accepted (kcp_wg_Done s) = ks_accepted s"
  "ks_writeErr (kcp_wg_Done s) = ks_writeErr s" "ks_closeFlag (kcp_wg_Done s) = ks_closeFlag s"
  by (simp_all add: kcp_wg_Done_def)

lemma kcp_own_step_sys: "kcp_own_step s t \<Longrightarrow> kcp_step s t"
  by (auto elim!: kcp_own_step.cases intro: kstep_read kstep_write kr_end kr_parsed)

lemma kcp_own_step_flushing: "kcp_own_step s t \<Longrightarrow> kcp_flushing acc s \<Longrightarrow> kcp_flushing acc t"
proof (induction rule: kcp_own_step.induct)
  case (ko_read s t)
  from ko_read(3,1,2,4) show ?case
  proof (cases rule: kcp_read_step.cases)
    case (kr_send state outs ends t')
    with ko_read(4) show ?thesis by (auto dest!: kcp_sendInline_from intro: kcp_sent_from_flushing)
  next
    case (kr_release_server m outs w t')
    with ko_read(4) show ?thesis by (auto dest!: kcp_sendInlines_from intro!: kcp_sent_from_flushing [of "s\<lparr>ks_mux := m\<rparr>" t'])
  qed (auto simp: kcp_wg_Done_def kcp_closeOnce_def kcp_flushing_def)
next
  case (ko_write s t)
  from ko_write(1,2,4) show ?case by (cases rule: kcp_write_step.cases) (auto simp: kcp_flushing_def kcp_wg_Done_def)
qed simp_all

lemma kcp_own_step_closing: "kcp_own_step s t \<Longrightarrow> kcp_closing s \<Longrightarrow> kcp_closing t"
proof -
  assume s: "kcp_own_step s t" "kcp_closing s"
  then have "kcp_inv t" using kcp_sys.inv_step kcp_own_step_sys by (auto simp: kcp_closing_def)
  moreover from s have "ks_closeFlag t"
  proof (induction rule: kcp_own_step.induct)
    case (ko_read s t)
    from ko_read(3,1,2,4) show ?case
      by (cases rule: kcp_read_step.cases)
        (auto simp: kcp_closing_def kcp_sent_from_def dest!: kcp_sendInline_from kcp_sendInlines_from)
  next
    case (ko_write s t)
    from ko_write(1,4) show ?case by (cases rule: kcp_write_step.cases) (auto simp: kcp_closing_def)
  qed (simp_all add: kcp_closing_def)
  ultimately show ?thesis by (simp add: kcp_closing_def)
qed

lemma kw_rank_sent: "q' \<le> q + k \<Longrightarrow> kw_rank w q' \<le> kw_rank w q + 6 * k"
  by (cases w) simp_all

lemma kcp_sent_rank:
  assumes "kcp_sent_from s t" "length (ks_writeCh t) \<le> length (ks_writeCh s) + k" "kr_rank r + 6 * k < kr_rank (ks_rd s)"
  shows "kcp_rank (t\<lparr>ks_rd := r\<rparr>) < kcp_rank s"
  using assms kw_rank_sent [OF assms(2), of "ks_wr s"] by (simp add: kcp_rank_def kcp_sent_from_def)

lemma kcp_own_step_rank: "kcp_own_step s t \<Longrightarrow> kcp_closing s \<Longrightarrow> kcp_rank t < kcp_rank s"
proof (induction rule: kcp_own_step.induct)
  case (ko_read s t)
  from ko_read(3,1,2) show ?case
  proof (cases rule: kcp_read_step.cases)
    case (kr_send state outs ends t')
    from kcp_sendInline_from [OF kr_send(3)] kr_send(1,2) show ?thesis by (auto intro: kcp_sent_rank [where k = 1])
  next
    case (kr_release_server m outs w t')
    have "length outs \<le> 1" by (rule mux_close_outs [OF kr_release_server(4)])
    with kcp_sendInlines_from [OF kr_release_server(5)] kr_release_server(1,2)
    show ?thesis
      by (auto intro!: kcp_sent_rank [where k = 1] simp: kcp_sent_from_def)
  qed (auto simp: kcp_rank_def)
next
  case (ko_write s t)
  from ko_write(1,2,3,4) show ?case
    by (cases rule: kcp_write_step.cases)
      (auto simp: kcp_rank_def kcp_closing_def kcp_inv_def kcp_bytes_inv_def)
qed (simp_all add: kcp_rank_def)

lemma kcp_own_write_enabled:
  assumes closing: "kcp_closing s" and more: "ks_wr s \<noteq> KWExit"
  shows "\<exists>t. kcp_own_step s t"
proof -
  have move: "\<exists>t. kcp_own_step s t" if "kcp_write_step s t" "ks_writeErr t = ks_writeErr s"
    "\<And>msg ret. ks_wr s = KWWrite msg ret \<Longrightarrow> ks_wire t = ks_wire s @ msg" for t
    using that ko_write by metis
  show ?thesis
  proof (cases "ks_wr s")
    case KWWait
    moreover have "ks_closeCh s" using closing by (auto simp: kcp_closing_def kcp_inv_def kcp_control_inv_def)
    ultimately show ?thesis by (intro move [OF kw_closed]) simp_all
  next
    case (KWDrain msg ret)
    then show ?thesis
      using move [OF kw_drained [of s msg ret]] move [OF kw_more [of s msg ret]] by (cases "ks_writeCh s") auto
  next
    case (KWWrite msg ret)
    then show ?thesis by (auto intro: move [OF kw_write [where n = "length msg"]])
  next
    case KWDone
    then show ?thesis by (intro move [OF kw_wg]) simp_all
  next
    case KWConnClose
    then show ?thesis by (intro move [OF kw_conn]) simp_all
  qed (use more in simp)
qed

lemma kcp_own_read_enabled:
  assumes closing: "kcp_closing s" and wr: "ks_wr s = KWExit" and more: "ks_rd s \<noteq> KRExit"
  shows "\<exists>t. kcp_own_step s t"
proof (cases "ks_rd s")
  case KRConnect
  then show ?thesis using ko_read [OF _ _ kr_connect [of s]] by auto
next
  case KRLoop
  moreover have "ks_connClosed s" using closing wr by (simp add: kcp_closing_def kcp_inv_def kcp_control_inv_def)
  ultimately show ?thesis using ko_end [of s] by auto
next
  case KRParse
  then show ?thesis using ko_parsed [of s] by auto
next
  case (KRSend outs ends)
  then show ?thesis
    using ko_read [OF _ _ kr_sent [of s ends]] ko_read [OF _ _ kr_send [of s]] kcp_sendInline_not_Nil [of s]
    by (cases outs) (auto, blast)
next
  case KRDone
  then show ?thesis using ko_read [OF _ _ kr_wg [of s]] by auto
next
  case KRDisconnect
  then show ?thesis using ko_read [OF _ _ kr_disconnect [of s]] by auto
next
  case KRRelease
  obtain m outs w where m: "mux_close (ks_mux s) = (m, outs, w)" by (cases "mux_close (ks_mux s)")
  obtain t where "t \<in> set (kcp_sendInlines (s\<lparr>ks_mux := m\<rparr>) outs)" using kcp_sendInlines_not_Nil by blast
  with KRRelease m have "ks_isServer s \<Longrightarrow> \<exists>t. kcp_read_step s t" by (blast intro: kr_release_server)
  with KRRelease show ?thesis
    using ko_read [OF _ _ kr_release_client [of s]] ko_read [of s] by (cases "ks_isServer s") auto
next
  case KRMuxWait
  then show ?thesis using ko_read [OF _ _ kr_mux_waited [of s "ks_mux s"]] by (auto simp: mux_close_wait_def)
next
  case KRForce
  then show ?thesis using ko_read [OF _ _ kr_force [of s]] by auto
next
  case KRReleaseWait
  then have "kcp_closeForce_returns s"
    using closing wr by (simp add: kcp_closing_def kcp_inv_def kcp_control_inv_def kcp_closeForce_returns_def)
  with KRReleaseWait show ?thesis using ko_read [OF _ _ kr_released [of s]] by auto
next
  case KRCloseOnce
  then show ?thesis using ko_read [OF _ _ kr_close [of s]] by auto
qed (use more in simp)

lemma kcp_rank_0: "kcp_rank s = 0 \<longleftrightarrow> ks_rd s = KRExit \<and> ks_wr s = KWExit"
  by (cases "ks_rd s"; cases "ks_wr s") (simp_all add: kcp_rank_def)

interpretation kcp_down: progress_measure kcp_closing kcp_own_step kcp_closing kcp_own_step kcp_rank
proof
  show "\<exists>t. kcp_own_step s t" if "kcp_closing s" "0 < kcp_rank s" for s
    using that kcp_own_write_enabled kcp_own_read_enabled kcp_rank_0 by (metis less_irrefl)
qed (auto intro: kcp_own_step_closing kcp_own_step_rank)

lemma kcp_own_steps_flushing: "steps kcp_own_step s t \<Longrightarrow> kcp_flushing acc s \<Longrightarrow> kcp_flushing acc t"
  by (induction rule: steps.induct) (auto intro: kcp_own_step_flushing)

lemma kcp_flushing_start:
  "\<not> ks_closeFlag s \<Longrightarrow> kcp_inv s \<Longrightarrow> ks_writeErr s = None \<Longrightarrow> kcp_flushing (ks_accepted s) (kcp_closeOnce s)"
  using kcp_inv_flag [of s] by (simp add: kcp_flushing_def kcp_closeOnce_def)

lemma kcp_due_prefix: "\<exists>rest. concat (ks_accepted s) = kcp_due s @ rest"
  unfolding kcp_due_def by (metis append_take_drop_id concat_append)

text \<open>Once the writer has left without an error, the wire starts with what was due.\<close>

lemma kcp_flushed:
  assumes "kcp_inv s" and "kw_left (ks_wr s)" and "ks_writeErr s = None"
  shows "\<exists>rest. ks_wire s = kcp_due s @ rest"
proof -
  have bytes: "ks_wire s @ kw_pending (ks_wr s) @ concat (ks_writeCh s) = concat (ks_accepted s)"
    using assms by (auto simp: kcp_inv_def kcp_bytes_inv_def)
  moreover have "length (kcp_due s) \<le> length (ks_wire s)" using assms by (simp add: kcp_inv_def kcp_flush_inv_def)
  moreover obtain rest where "concat (ks_accepted s) = kcp_due s @ rest" using kcp_due_prefix by blast
  ultimately have "take (length (kcp_due s)) (ks_wire s) = kcp_due s"
    by (metis append_eq_append_conv_if append_eq_conv_conj take_all_iff)
  then show ?thesis by (metis append_take_drop_id)
qed

section \<open>A run\<close>

text \<open>A running socket that accepted one message.\<close>

definition kcp_one :: "bytes \<Rightarrow> kcp_socket" where
  "kcp_one m = (newKCPSocket True False)\<lparr>ks_rd := KRLoop, ks_writeCh := [m], ks_accepted := [m]\<rparr>"

lemma kcp_one_simps [simp]:
  "ks_accepted (kcp_one m) = [m]" "ks_writeErr (kcp_one m) = None" "\<not> ks_closeFlag (kcp_one m)"
  "ks_writeCh (kcp_one m) = [m]" "ks_wr (kcp_one m) = KWWait" "ks_wire (kcp_one m) = []" "ks_lost (kcp_one m) = []"
  by (simp_all add: kcp_one_def newKCPSocket_def)

lemma kcp_reach_one: "reachable (kcp_init True False) kcp_step (kcp_one m)"
proof -
  let ?s0 = "newKCPSocket True False"
  have "reachable (kcp_init True False) kcp_step ?s0" by (rule reach_init) (simp add: kcp_init_def)
  moreover have "kcp_step ?s0 (?s0\<lparr>ks_rd := KRLoop\<rparr>)"
    by (rule kstep_read, rule kr_connect) (simp add: newKCPSocket_def)
  ultimately have "reachable (kcp_init True False) kcp_step (?s0\<lparr>ks_rd := KRLoop\<rparr>)" by (rule reach_step)
  moreover have "kcp_step (?s0\<lparr>ks_rd := KRLoop\<rparr>) (kcp_one m)"
    by (rule kstep_send [where r = None and payload = m])
      (simp add: kcp_SendMsg_def kcp_send_None kcp_frame_def kcp_one_def newKCPSocket_def newKCPMux_def writeChanLimit_def)
  ultimately show ?thesis by (rule reach_step)
qed

section \<open>Properties\<close>

text \<open>
  At any time the bytes the KCP connection has taken, those a failed write lost, those the writer holds and
  those in the channel are together the frames \<open>SendMsg\<close> and \<open>sendInline\<close> accepted, in the order they were
  accepted; the channel holds at most 200 of them, and a \<open>closeForce\<close> that returns without a write error has
  put every frame accepted before the close on the wire.
\<close>

theorem kcp_bytes_in_order:
  assumes "reachable (kcp_init isServer isInline) kcp_step s"
  shows "ks_wire s @ ks_lost s @ kw_pending (ks_wr s) @ concat (ks_writeCh s) = concat (ks_accepted s)
    \<and> length (ks_writeCh s) \<le> 200 \<and> (ks_writeErr s = None \<longrightarrow> ks_lost s = [])
    \<and> (kcp_closeForce_returns s \<and> ks_writeErr s = None \<longrightarrow> (\<exists>rest. ks_wire s = kcp_due s @ rest))"
proof (intro conjI impI)
  have inv: "kcp_inv s" by (rule kcp_sys.inv_reachable [OF assms])
  then show bytes: "ks_wire s @ ks_lost s @ kw_pending (ks_wr s) @ concat (ks_writeCh s) = concat (ks_accepted s)"
    and "length (ks_writeCh s) \<le> 200" by (simp_all add: kcp_inv_def kcp_bytes_inv_def writeChanLimit_def)
  show "ks_lost s = []" if "ks_writeErr s = None" using that inv by (simp add: kcp_inv_def kcp_bytes_inv_def)
  show "\<exists>rest. ks_wire s = kcp_due s @ rest" if r: "kcp_closeForce_returns s \<and> ks_writeErr s = None"
  proof -
    have "kw_left (ks_wr s)"
      using inv r by (cases "ks_wr s")
        (auto simp: kcp_inv_def kcp_control_inv_def kcp_closeForce_returns_def split: if_splits)
    with inv r show ?thesis by (simp add: kcp_flushed)
  qed
qed

theorem kcp_bytes_in_order_witness:
  "\<exists>s :: kcp_socket. ks_accepted s = [[1, 2]] \<and> ks_wire s @ ks_lost s @ kw_pending (ks_wr s) @ concat (ks_writeCh s) = [1, 2]"
proof (intro exI)
  show "ks_accepted (kcp_one [1, 2]) = [[1, 2]] \<and> ks_wire (kcp_one [1, 2]) @ ks_lost (kcp_one [1, 2]) @
      kw_pending (ks_wr (kcp_one [1, 2])) @ concat (ks_writeCh (kcp_one [1, 2])) = [1, 2]"
    using kcp_bytes_in_order [OF kcp_reach_one [of "[1, 2]"]] by simp
qed

text \<open>C8.
  \<open>closeForce\<close> ends and flushes: from any reachable state whose close flag is not yet set and in which no write
  failed, after setting it every run of the two goroutines without further traffic or errors is finite and ends in a state in
  which \<open>closeForce\<close> returns, both goroutines have ended, the connection is closed, \<open>onDisconnect\<close> has run once
  and the wire starts with every frame accepted before; for a server's socket too, whose read loop waits for the same wait
  group in its release function.
\<close>

theorem kcp_close_flushes:
  assumes "reachable (kcp_init isServer isInline) kcp_step s" and "\<not> ks_closeFlag s" and "ks_writeErr s = None"
  shows "runs_end kcp_own_step (\<lambda>t. kcp_closeForce_returns t \<and> ks_rd t = KRExit
    \<and> ks_wr t = KWExit \<and> ks_connClosed t \<and> ks_disconnects t = 1 \<and> ks_panic t = None
    \<and> (\<exists>rest. ks_wire t = concat (ks_accepted s) @ rest)) (kcp_closeOnce s)"
proof (rule kcp_down.every_run_ends)
  have inv: "kcp_inv s" by (rule kcp_sys.inv_reachable [OF assms(1)])
  then show "kcp_closing (kcp_closeOnce s)" by (simp add: kcp_closing_def kcp_closeOnce_inv)
  fix t assume t: "steps kcp_own_step (kcp_closeOnce s) t" "kcp_closing t" "kcp_rank t = 0"
  have flushed: "kcp_flushing (ks_accepted s) t"
    by (rule kcp_own_steps_flushing [OF t(1) kcp_flushing_start [OF assms(2) inv assms(3)]])
  have left: "ks_rd t = KRExit" "ks_wr t = KWExit" using t(3) by (simp_all add: kcp_rank_0)
  with t(2) have "kcp_closeForce_returns t \<and> ks_connClosed t \<and> ks_disconnects t = 1 \<and> ks_panic t = None"
    by (simp add: kcp_closing_def kcp_inv_def kcp_control_inv_def kcp_closeForce_returns_def)
  moreover have "kcp_due t = concat (ks_accepted s)" using flushed by (auto simp: kcp_flushing_def kcp_due_def)
  moreover have "\<exists>rest. ks_wire t = kcp_due t @ rest"
    using left t(2) flushed by (intro kcp_flushed) (simp_all add: kcp_closing_def kcp_flushing_def)
  ultimately show "kcp_closeForce_returns t \<and> ks_rd t = KRExit \<and> ks_wr t = KWExit \<and> ks_connClosed t
      \<and> ks_disconnects t = 1 \<and> ks_panic t = None \<and> (\<exists>rest. ks_wire t = concat (ks_accepted s) @ rest)"
    using left by simp
qed

theorem kcp_close_flushes_witness:
  "\<exists>t. steps kcp_own_step (kcp_closeOnce (kcp_one [4, 5])) t \<and> kcp_closeForce_returns t \<and> (\<exists>rest. ks_wire t = [4, 5] @ rest)"
  using runs_end_reaches [OF kcp_close_flushes [OF kcp_reach_one [of "[4, 5]"]]] by auto

end
