(* ===== verification/Kcp_Server.thy ===== *)
theory Kcp_Server
  imports Kcp_Socket
begin

text \<open>
  The KCP server of \<open>pkg/xnet/kcp_server.go\<close>: the accept goroutine, which also waits for the handshake of every
  new socket, the table of sockets under a mutex, and \<open>Close\<close>, which keeps the mutex until it returns. The sockets are
  those of \<open>Kcp_Socket\<close>, at addresses of a store; a socket's \<open>releaseFn\<close> is the server's \<open>deleteSocket\<close>.
\<close>

section \<open>State\<close>

text \<open>
  \<open>accept\<close>: in \<open>AcceptKCP\<close>, at the test of the close channel, and with a connection in \<open>newKCPSocket\<close>: before it,
  at \<open>mux.init\<close>, in its wait, in the \<open>closeForce\<close> of a failed one; at \<open>addSocket\<close>; gone.
\<close>

datatype kac_pc = KaAccept | KaCheck bool | KaNew | KaMux nat | KaInit nat | KaJoin nat | KaAdd nat | KaExit

text \<open>\<open>Close\<close>: with the sockets still to close, at the listener, in the wait for \<open>accept\<close>, returned.\<close>

datatype kmn_pc =
    KmServing
  | KmCloseSock "nat list"
  | KmMuxWait "nat list"
  | KmForce "nat list"
  | KmJoin "nat list"
  | KmListener
  | KmWait
  | KmClosed

record kcp_server =
  kv_isInline :: bool
  kv_main :: kmn_pc
  kv_acc :: kac_pc
  kv_sockets :: "nat set"
  kv_store :: "nat \<Rightarrow> kcp_socket"
  kv_next :: nat
  kv_closeCh :: bool
  kv_listening :: bool
  kv_wg :: int
  kv_panic :: "go_panic option"

definition NewKCPServer :: "bool \<Rightarrow> kcp_server" where
  "NewKCPServer isInline =
     \<lparr>kv_isInline = isInline, kv_main = KmServing, kv_acc = KaAccept, kv_sockets = {},
      kv_store = (\<lambda>_. newKCPSocket True isInline), kv_next = 0, kv_closeCh = False, kv_listening = True,
      kv_wg = 1, kv_panic = None\<rparr>"

section \<open>Operations\<close>

text \<open>\<open>defer svr.mu.Unlock()\<close>: \<open>Close\<close> has the mutex from its first line to its return.\<close>

definition kmu_held :: "kmn_pc \<Rightarrow> bool" where
  "kmu_held pc \<longleftrightarrow> pc \<noteq> KmServing \<and> pc \<noteq> KmClosed"

definition kv_put :: "nat \<Rightarrow> kcp_socket \<Rightarrow> kcp_server \<Rightarrow> kcp_server" where
  "kv_put a x s = s\<lparr>kv_store := (kv_store s)(a := x)\<rparr>"

definition kcp_addSocket :: "nat \<Rightarrow> kcp_server \<Rightarrow> kcp_server" where
  "kcp_addSocket a s = s\<lparr>kv_sockets := insert a (kv_sockets s)\<rparr>"

definition kcp_deleteSocket :: "nat \<Rightarrow> kcp_server \<Rightarrow> kcp_server" where
  "kcp_deleteSocket a s = s\<lparr>kv_sockets := kv_sockets s - {a}\<rparr>"

definition kv_wg_Done :: "kcp_server \<Rightarrow> kcp_server" where
  "kv_wg_Done s = (if kv_wg s \<le> 0 then s\<lparr>kv_panic := Some NegativeWaitGroup\<rparr> else s\<lparr>kv_wg := kv_wg s - 1\<rparr>)"

inductive kv_accept_step :: "kcp_server \<Rightarrow> kcp_server \<Rightarrow> bool" where
  ka_conn: "kv_acc s = KaAccept \<Longrightarrow> kv_listening s \<Longrightarrow> kv_accept_step s (s\<lparr>kv_acc := KaCheck True\<rparr>)"
| ka_err: "kv_acc s = KaAccept \<Longrightarrow> kv_accept_step s (s\<lparr>kv_acc := KaCheck False\<rparr>)"
| ka_closed: "kv_acc s = KaCheck c \<Longrightarrow> kv_closeCh s \<Longrightarrow> kv_accept_step s (kv_wg_Done (s\<lparr>kv_acc := KaExit\<rparr>))"
| ka_go_on: "kv_acc s = KaCheck c \<Longrightarrow> \<not> kv_closeCh s \<Longrightarrow>
    kv_accept_step s (s\<lparr>kv_acc := (if c then KaNew else KaAccept)\<rparr>)"
| ka_new: "kv_acc s = KaNew \<Longrightarrow>
    kv_accept_step s (s\<lparr>kv_store := (kv_store s)(kv_next s := newKCPSocket True (kv_isInline s)),
      kv_next := kv_next s + 1, kv_acc := KaMux (kv_next s)\<rparr>)"
| ka_mux: "kv_acc s = KaMux a \<Longrightarrow> mux_init (ks_mux (kv_store s a)) = (m, outs, w) \<Longrightarrow>
    x \<in> set (kcp_sendInlines ((kv_store s a)\<lparr>ks_mux := m\<rparr>) outs) \<Longrightarrow>
    kv_accept_step s ((kv_put a x s)\<lparr>kv_acc := (if w then KaInit a else KaAdd a)\<rparr>)"
| ka_init: "kv_acc s = KaInit a \<Longrightarrow> (m, None) \<in> set (mux_init_wait (ks_mux (kv_store s a))) \<Longrightarrow>
    kv_accept_step s ((kv_put a ((kv_store s a)\<lparr>ks_mux := m\<rparr>) s)\<lparr>kv_acc := KaAdd a\<rparr>)"
| ka_init_err: "kv_acc s = KaInit a \<Longrightarrow> (m, Some e) \<in> set (mux_init_wait (ks_mux (kv_store s a))) \<Longrightarrow>
    kv_accept_step s ((kv_put a (kcp_closeOnce ((kv_store s a)\<lparr>ks_mux := m\<rparr>)) s)\<lparr>kv_acc := KaJoin a\<rparr>)"
| ka_failed: "kv_acc s = KaJoin a \<Longrightarrow> kcp_closeForce_returns (kv_store s a) \<Longrightarrow>
    kv_accept_step s (s\<lparr>kv_acc := KaAccept\<rparr>)"
| ka_add: "kv_acc s = KaAdd a \<Longrightarrow> \<not> kmu_held (kv_main s) \<Longrightarrow>
    kv_accept_step s ((kcp_addSocket a s)\<lparr>kv_acc := KaAccept\<rparr>)"

text \<open>\<open>Close\<close>; the table is ranged over in any order, and \<open>xs.Close\<close> is \<open>mux.close\<close>, its wait and \<open>closeForce\<close>.\<close>

inductive kv_main_step :: "kcp_server \<Rightarrow> kcp_server \<Rightarrow> bool" where
  km_lock: "kv_main s = KmServing \<or> kv_main s = KmClosed \<Longrightarrow> distinct xs \<Longrightarrow> set xs = kv_sockets s \<Longrightarrow>
    kv_main_step s (s\<lparr>kv_main := KmCloseSock xs\<rparr>)"
| km_mux: "kv_main s = KmCloseSock (a # xs) \<Longrightarrow> mux_close (ks_mux (kv_store s a)) = (m, outs, w) \<Longrightarrow>
    x \<in> set (kcp_sendInlines ((kv_store s a)\<lparr>ks_mux := m\<rparr>) outs) \<Longrightarrow>
    kv_main_step s ((kv_put a x s)\<lparr>kv_main := (if w then KmMuxWait (a # xs) else KmForce (a # xs))\<rparr>)"
| km_waited: "kv_main s = KmMuxWait (a # xs) \<Longrightarrow> m \<in> set (mux_close_wait (ks_mux (kv_store s a))) \<Longrightarrow>
    kv_main_step s ((kv_put a ((kv_store s a)\<lparr>ks_mux := m\<rparr>) s)\<lparr>kv_main := KmForce (a # xs)\<rparr>)"
| km_force: "kv_main s = KmForce (a # xs) \<Longrightarrow>
    kv_main_step s ((kv_put a (kcp_closeOnce (kv_store s a)) s)\<lparr>kv_main := KmJoin (a # xs)\<rparr>)"
| km_join: "kv_main s = KmJoin (a # xs) \<Longrightarrow> kcp_closeForce_returns (kv_store s a) \<Longrightarrow>
    kv_main_step s (s\<lparr>kv_main := KmCloseSock xs\<rparr>)"
| km_closeCh: "kv_main s = KmCloseSock [] \<Longrightarrow>
    kv_main_step s (if kv_closeCh s then s\<lparr>kv_panic := Some CloseOfClosed\<rparr>
                    else s\<lparr>kv_closeCh := True, kv_main := KmListener\<rparr>)"
| km_listener: "kv_main s = KmListener \<Longrightarrow> kv_main_step s (s\<lparr>kv_listening := False, kv_main := KmWait\<rparr>)"
| km_wait: "kv_main s = KmWait \<Longrightarrow> kv_wg s = 0 \<Longrightarrow> kv_main_step s (s\<lparr>kv_main := KmClosed\<rparr>)"

text \<open>
  A socket's goroutines and whoever else uses it; the end of \<open>deleteSocket\<close> needs the mutex.
\<close>

inductive kv_socket_step :: "kcp_server \<Rightarrow> kcp_server \<Rightarrow> bool" where
  kvs_step: "a < kv_next s \<Longrightarrow> kcp_step (kv_store s a) x \<Longrightarrow>
    ks_rd (kv_store s a) \<noteq> KRReleaseWait \<or> ks_rd x = KRReleaseWait \<Longrightarrow> kv_socket_step s (kv_put a x s)"
| kvs_delete: "a < kv_next s \<Longrightarrow> kcp_read_step (kv_store s a) x \<Longrightarrow> ks_rd (kv_store s a) = KRReleaseWait \<Longrightarrow>
    \<not> kmu_held (kv_main s) \<Longrightarrow> kv_socket_step s (kv_put a x (kcp_deleteSocket a s))"

inductive kv_step :: "kcp_server \<Rightarrow> kcp_server \<Rightarrow> bool" where
  kv_accept: "kv_panic s = None \<Longrightarrow> kv_accept_step s t \<Longrightarrow> kv_step s t"
| kv_close: "kv_panic s = None \<Longrightarrow> kv_main_step s t \<Longrightarrow> kv_step s t"
| kv_socket: "kv_panic s = None \<Longrightarrow> kv_socket_step s t \<Longrightarrow> kv_step s t"

definition kv_init :: "kcp_server \<Rightarrow> bool" where
  "kv_init s \<longleftrightarrow> (\<exists>isInline. s = NewKCPServer isInline)"

section \<open>Invariant\<close>

text \<open>The socket the accept goroutine holds, and the sockets \<open>Close\<close> still has to close.\<close>

fun ka_owner :: "kac_pc \<Rightarrow> nat option" where
  "ka_owner (KaMux a) = Some a"
| "ka_owner (KaInit a) = Some a"
| "ka_owner (KaJoin a) = Some a"
| "ka_owner (KaAdd a) = Some a"
| "ka_owner _ = None"

fun km_list :: "kmn_pc \<Rightarrow> nat list" where
  "km_list (KmCloseSock xs) = xs"
| "km_list (KmMuxWait xs) = xs"
| "km_list (KmForce xs) = xs"
| "km_list (KmJoin xs) = xs"
| "km_list _ = []"

definition kv_table_inv :: "kcp_server \<Rightarrow> bool" where
  "kv_table_inv s \<longleftrightarrow> kv_sockets s \<subseteq> {..<kv_next s}
     \<and> (\<forall>a. ka_owner (kv_acc s) = Some a \<longrightarrow> a < kv_next s \<and> a \<notin> kv_sockets s)
     \<and> (\<forall>a. kv_acc s = KaJoin a \<longrightarrow> ks_closeFlag (kv_store s a))
     \<and> (\<forall>a < kv_next s. a \<in> kv_sockets s \<or> ka_owner (kv_acc s) = Some a \<or> ks_closeFlag (kv_store s a))"

definition kv_life_inv :: "kcp_server \<Rightarrow> bool" where
  "kv_life_inv s \<longleftrightarrow> kv_wg s = (if kv_acc s = KaExit then 0 else 1)
     \<and> (kv_acc s = KaExit \<longrightarrow> kv_closeCh s)
     \<and> (kv_main s = KmListener \<or> kv_main s = KmWait \<longrightarrow> kv_closeCh s)
     \<and> (kv_main s = KmServing \<longrightarrow> \<not> kv_closeCh s)
     \<and> (\<forall>a \<in> set (km_list (kv_main s)). a < kv_next s)"

definition kv_sockets_inv :: "kcp_server \<Rightarrow> bool" where
  "kv_sockets_inv s \<longleftrightarrow> (\<forall>a. kcp_inv (kv_store s a))"

definition kv_inv :: "kcp_server \<Rightarrow> bool" where
  "kv_inv s \<longleftrightarrow> kv_table_inv s \<and> kv_life_inv s \<and> kv_sockets_inv s"

lemmas kv_inv_defs = kv_inv_def kv_table_inv_def kv_life_inv_def kv_sockets_inv_def

lemma kv_put_fields [simp]:
  "kv_main (kv_put a x s) = kv_main s" "kv_acc (kv_put a x s) = kv_acc s" "kv_sockets (kv_put a x s) = kv_sockets s"
  "kv_next (kv_put a x s) = kv_next s" "kv_closeCh (kv_put a x s) = kv_closeCh s"
  "kv_listening (kv_put a x s) = kv_listening s" "kv_wg (kv_put a x s) = kv_wg s"
  "kv_panic (kv_put a x s) = kv_panic s" "kv_store (kv_put a x s) = (kv_store s)(a := x)"
  by (simp_all add: kv_put_def)

lemma kv_put_put: "kv_put a y (kv_put a x s) = kv_put a y s"
  by (simp add: kv_put_def)

lemma kv_put_same: "kv_put a (kv_store s a) s = s"
  by (simp add: kv_put_def)

lemma kv_put_main: "kv_put a x (s\<lparr>kv_main := pc\<rparr>) = (kv_put a x s)\<lparr>kv_main := pc\<rparr>"
  by (simp add: kv_put_def)

text \<open>What a socket never undoes.\<close>

definition kcp_evolves :: "kcp_socket \<Rightarrow> kcp_socket \<Rightarrow> bool" where
  "kcp_evolves x y \<longleftrightarrow> (kcp_inv x \<longrightarrow> kcp_inv y) \<and> (ks_closeFlag x \<longrightarrow> ks_closeFlag y)"

lemma kcp_evolves_refl [simp]: "kcp_evolves x x"
  by (simp add: kcp_evolves_def)

lemma kcp_evolves_mux [simp]: "kcp_evolves x (x\<lparr>ks_mux := m\<rparr>)"
  by (simp add: kcp_evolves_def)

lemma kcp_evolves_close [simp]: "kcp_evolves x (kcp_closeOnce x)"
  by (simp add: kcp_evolves_def kcp_closeOnce_inv)

lemma kcp_evolves_trans: "kcp_evolves x y \<Longrightarrow> kcp_evolves y z \<Longrightarrow> kcp_evolves x z"
  by (simp add: kcp_evolves_def)

lemma kcp_evolves_sends: "y \<in> set (kcp_sendInlines x outs) \<Longrightarrow> kcp_evolves x y"
  using kcp_sendInlines_inv kcp_sendInlines_from by (auto simp: kcp_evolves_def kcp_sent_from_def)

lemma kcp_evolves_mux_sends: "y \<in> set (kcp_sendInlines (x\<lparr>ks_mux := m\<rparr>) outs) \<Longrightarrow> kcp_evolves x y"
  by (rule kcp_evolves_trans [OF kcp_evolves_mux kcp_evolves_sends])

lemma kcp_read_step_flag: "kcp_read_step x y \<Longrightarrow> ks_closeFlag x \<Longrightarrow> ks_closeFlag y"
  by (induction rule: kcp_read_step.induct)
    (auto simp: kcp_sent_from_def dest!: kcp_sendInline_from kcp_sendInlines_from)

lemma kcp_step_flag: "kcp_step x y \<Longrightarrow> ks_closeFlag x \<Longrightarrow> ks_closeFlag y"
proof (induction rule: kcp_step.induct)
  case (kstep_write s t)
  then show ?case by (auto elim: kcp_write_step.cases)
next
  case (kstep_send r t s payload)
  then show ?case using kcp_send_from [of r t s False payload] by (simp add: kcp_SendMsg_def kcp_sent_from_def)
qed (auto simp: Let_def kcp_sent_from_def dest: kcp_read_step_flag dest!: kcp_sendInlines_from)

lemma kcp_evolves_step: "kcp_step x y \<Longrightarrow> kcp_evolves x y"
  using kcp_sys.inv_step kcp_step_flag by (simp add: kcp_evolves_def)

lemma kv_put_inv:
  assumes "kv_inv s" and "kcp_evolves (kv_store s a) x"
  shows "kv_inv (kv_put a x s)"
proof -
  have keep: "ks_closeFlag (kv_store s b) \<Longrightarrow> ks_closeFlag (((kv_store s)(a := x)) b)"
    "kcp_inv (kv_store s b) \<Longrightarrow> kcp_inv (((kv_store s)(a := x)) b)" for b
    using assms(2) by (auto simp: kcp_evolves_def)
  have "kv_table_inv (kv_put a x s)" using assms(1) keep(1)
    by (simp add: kv_inv_def kv_table_inv_def del: fun_upd_apply) blast
  moreover have "kv_life_inv (kv_put a x s)" using assms(1) by (simp add: kv_inv_def kv_life_inv_def)
  moreover have "kv_sockets_inv (kv_put a x s)" using assms(1) keep(2)
    by (simp add: kv_inv_def kv_sockets_inv_def del: fun_upd_apply)
  ultimately show ?thesis by (simp add: kv_inv_def)
qed

lemma newKCPSocket_inv: "kcp_inv (newKCPSocket isServer isInline)"
  by (rule kcp_sys.inv_init) (simp add: kcp_init_def)

text \<open>The accept goroutine may move between places that hold the same socket, and \<open>Close\<close> along its list.\<close>

lemma kv_acc_frame:
  "kv_inv s \<Longrightarrow> ka_owner (kv_acc s) = Some a \<Longrightarrow> pc = KaInit a \<or> pc = KaAdd a \<or> pc = KaJoin a \<and> ks_closeFlag (kv_store s a) \<Longrightarrow>
     kv_inv (s\<lparr>kv_acc := pc\<rparr>)"
  by (cases "kv_acc s") (auto simp: kv_inv_defs)

lemma kv_main_frame:
  "kv_inv s \<Longrightarrow> set (km_list pc) \<subseteq> set (km_list (kv_main s)) \<Longrightarrow> kmu_held pc \<Longrightarrow> pc \<noteq> KmListener \<Longrightarrow> pc \<noteq> KmWait \<Longrightarrow>
     kv_inv (s\<lparr>kv_main := pc\<rparr>)"
  by (auto simp: kv_inv_defs kmu_held_def)

lemma kv_accept_step_inv: "kv_accept_step s t \<Longrightarrow> kv_inv s \<Longrightarrow> kv_inv t"
proof (induction rule: kv_accept_step.induct)
  case (ka_closed s c)
  then show ?case by (auto simp: kv_inv_defs kv_wg_Done_def)
next
  case (ka_new s)
  with newKCPSocket_inv show ?case by (auto simp: kv_inv_defs less_Suc_eq)
next
  case (ka_mux s a m outs w x)
  from kv_put_inv [OF ka_mux.prems kcp_evolves_mux_sends [OF ka_mux.hyps(3)]] ka_mux.hyps(1)
  show ?case by (intro kv_acc_frame [of _ a]) simp_all
next
  case (ka_init s a m)
  from kv_put_inv [OF ka_init.prems kcp_evolves_mux] ka_init.hyps(1)
  show ?case by (intro kv_acc_frame [of _ a]) simp_all
next
  case (ka_init_err s a m e)
  from kv_put_inv [OF ka_init_err.prems kcp_evolves_trans [OF kcp_evolves_mux kcp_evolves_close]] ka_init_err.hyps(1)
  show ?case by (intro kv_acc_frame [of _ a]) simp_all
next
  case (ka_add s a)
  then show ?case by (auto simp: kv_inv_defs kcp_addSocket_def)
qed (auto simp: kv_inv_defs)

lemma kv_main_step_inv: "kv_main_step s t \<Longrightarrow> kv_inv s \<Longrightarrow> kv_inv t"
proof (induction rule: kv_main_step.induct)
  case (km_mux s a xs m outs w x)
  from kv_put_inv [OF km_mux.prems kcp_evolves_mux_sends [OF km_mux.hyps(3)]] km_mux.hyps(1)
  show ?case by (intro kv_main_frame) (simp_all add: kmu_held_def)
next
  case (km_waited s a xs m)
  from kv_put_inv [OF km_waited.prems kcp_evolves_mux] km_waited.hyps(1)
  show ?case by (intro kv_main_frame) (simp_all add: kmu_held_def)
next
  case (km_force s a xs)
  from kv_put_inv [OF km_force.prems kcp_evolves_close] km_force.hyps(1)
  show ?case by (intro kv_main_frame) (simp_all add: kmu_held_def)
qed (auto simp: kv_inv_defs split: if_splits)

lemma kv_socket_step_inv: "kv_socket_step s t \<Longrightarrow> kv_inv s \<Longrightarrow> kv_inv t"
proof (induction rule: kv_socket_step.induct)
  case (kvs_step a s x)
  then show ?case by (intro kv_put_inv kcp_evolves_step)
next
  case (kvs_delete a s x)
  have "ks_closeFlag (kv_store s a)"
    using kvs_delete.prems kvs_delete.hyps(3) kcp_inv_flag [of "kv_store s a"]
    by (simp add: kv_inv_defs kcp_inv_def kcp_control_inv_def)
  then have "kv_inv (kcp_deleteSocket a s)" using kvs_delete.prems by (auto simp: kv_inv_defs kcp_deleteSocket_def)
  moreover have "kcp_evolves (kv_store (kcp_deleteSocket a s) a) x"
    using kcp_evolves_step [OF kstep_read [OF kvs_delete.hyps(2)]] by (simp add: kcp_deleteSocket_def)
  ultimately show ?case by (rule kv_put_inv)
qed

interpretation kv_sys: inductive_invariant kv_init kv_step kv_inv
proof
  show "kv_inv s" if "kv_init s" for s
    using that newKCPSocket_inv by (auto simp: kv_init_def NewKCPServer_def kv_inv_defs)
  show "kv_inv t" if "kv_inv s" "kv_step s t" for s t
    using that(2,1) by (induction rule: kv_step.induct)
      (auto intro: kv_accept_step_inv kv_main_step_inv kv_socket_step_inv)
qed

section \<open>A socket that is closed comes to its end\<close>

text \<open>The socket's own steps until its wait group is empty.\<close>

inductive kcp_join_step :: "kcp_socket \<Rightarrow> kcp_socket \<Rightarrow> bool" where
  kjoin: "ks_wg s \<noteq> 0 \<Longrightarrow> kcp_own_step s t \<Longrightarrow> kcp_join_step s t"

definition kcp_join_rank :: "kcp_socket \<Rightarrow> nat" where
  "kcp_join_rank s = (if ks_wg s = 0 then 0 else kcp_rank s)"

lemma kcp_join_enabled:
  assumes "kcp_closing s" and "0 < kcp_join_rank s"
  shows "\<exists>t. kcp_join_step s t"
proof -
  from assms(2) have wg: "ks_wg s \<noteq> 0" "0 < kcp_rank s" by (simp_all add: kcp_join_rank_def split: if_splits)
  with kcp_down.prog_enabled [OF assms(1)] show ?thesis by (blast intro: kjoin)
qed

interpretation kcp_joining: progress_measure kcp_closing kcp_join_step kcp_closing kcp_join_step kcp_join_rank
proof
  show "kcp_join_rank t < kcp_join_rank s" if "kcp_closing s" "kcp_join_step s t" for s t
    using that kcp_own_step_rank by (fastforce elim: kcp_join_step.cases simp: kcp_join_rank_def)
qed (auto intro: kcp_join_enabled elim: kcp_join_step.cases dest: kcp_own_step_closing)

lemma kcp_joins: "kcp_closing s \<Longrightarrow> \<exists>t. steps kcp_join_step s t \<and> kcp_closeForce_returns t"
proof -
  assume "kcp_closing s"
  then obtain t where t: "steps kcp_join_step s t" "kcp_join_rank t = 0" "kcp_closing t"
    using kcp_joining.reaches_goal by blast
  have "ks_wg t = 0" using t(2,3)
    by (auto simp: kcp_join_rank_def kcp_rank_0 kcp_closing_def kcp_inv_def kcp_control_inv_def split: if_splits)
  with t show ?thesis by (auto simp: kcp_closeForce_returns_def kcp_closing_def)
qed

text \<open>With the wait group not empty no step is the end of the release function.\<close>

lemma kcp_own_step_release:
  assumes "kcp_own_step x y" and "ks_wg x \<noteq> 0" and "ks_rd x = KRReleaseWait"
  shows "ks_rd y = KRReleaseWait"
  using assms
proof (induction rule: kcp_own_step.induct)
  case (ko_read s t)
  from ko_read(3,1,2,4,5) show ?case by (cases rule: kcp_read_step.cases) (auto simp: kcp_closeForce_returns_def)
next
  case (ko_write s t)
  from ko_write(1,5) show ?case by (cases rule: kcp_write_step.cases) auto
qed simp_all

section \<open>Close comes to its end, when nobody is connecting\<close>

inductive kv_own_step :: "kcp_server \<Rightarrow> kcp_server \<Rightarrow> bool" where
  kvo_accept: "kv_panic s = None \<Longrightarrow> kv_accept_step s t \<Longrightarrow> kv_acc s \<noteq> KaAccept \<or> \<not> kv_listening s \<Longrightarrow> kv_own_step s t"
| kvo_main: "kv_panic s = None \<Longrightarrow> kv_main_step s t \<Longrightarrow> kmu_held (kv_main s) \<Longrightarrow> kv_own_step s t"
| kvo_socket: "kv_panic s = None \<Longrightarrow> a < kv_next s \<Longrightarrow> kcp_join_step (kv_store s a) x \<Longrightarrow> kv_own_step s (kv_put a x s)"

lemma kv_own_step_sys: "kv_own_step s t \<Longrightarrow> kv_step s t"
proof (induction rule: kv_own_step.induct)
  case (kvo_socket s a x)
  then have j: "ks_wg (kv_store s a) \<noteq> 0" "kcp_own_step (kv_store s a) x" by (auto elim: kcp_join_step.cases)
  with kvo_socket show ?case using kcp_own_step_release
    by (intro kv_socket kvs_step kcp_own_step_sys) auto
qed (auto intro: kv_step.intros)

lemma kv_own_steps_inv: "steps kv_own_step s t \<Longrightarrow> kv_inv s \<Longrightarrow> kv_inv t"
  by (induction rule: steps.induct) (auto intro: kv_sys.inv_step kv_own_step_sys)

lemma kv_socket_steps:
  "steps kcp_join_step x y \<Longrightarrow> kv_panic s = None \<Longrightarrow> a < kv_next s \<Longrightarrow>
     steps kv_own_step (kv_put a x s) (kv_put a y s)"
proof (induction rule: steps.induct)
  case (steps_trans x y z)
  have "kv_own_step (kv_put a x s) (kv_put a y (kv_put a x s))"
    by (rule kvo_socket) (use steps_trans in simp_all)
  with steps_trans show ?case by (simp add: kv_put_put steps.steps_trans)
qed (rule steps_refl)

text \<open>One socket: \<open>mux.close\<close>, the end of its wait, \<open>closeForce\<close>, the two loops, and on to the next.\<close>

lemma kv_close_one:
  assumes "kv_main s = KmCloseSock (a # xs)" and "kv_inv s" and "kv_panic s = None"
  shows "\<exists>y. steps kv_own_step s ((kv_put a y s)\<lparr>kv_main := KmCloseSock xs\<rparr>) \<and> kcp_closeForce_returns y"
proof -
  have a: "a < kv_next s" "kcp_inv (kv_store s a)" using assms(1,2) by (simp_all add: kv_inv_defs)
  obtain m outs w where m: "mux_close (ks_mux (kv_store s a)) = (m, outs, w)" by (cases "mux_close (ks_mux (kv_store s a))")
  obtain x where x: "x \<in> set (kcp_sendInlines ((kv_store s a)\<lparr>ks_mux := m\<rparr>) outs)"
    using kcp_sendInlines_not_Nil by blast
  have inv_x: "kcp_inv x" using kcp_evolves_mux_sends [OF x] a(2) by (simp add: kcp_evolves_def)
  let ?sx = "kv_put a x s"
  let ?s1 = "?sx\<lparr>kv_main := KmForce (a # xs)\<rparr>"
  let ?c = "kcp_closeOnce x"
  let ?s2 = "(kv_put a ?c s)\<lparr>kv_main := KmJoin (a # xs)\<rparr>"
  have held: "kmu_held (KmCloseSock xs)" "kmu_held (KmForce xs)" "kmu_held (KmMuxWait xs)" "kmu_held (KmJoin xs)" for xs
    by (simp_all add: kmu_held_def)
  have one: "kv_own_step s (?sx\<lparr>kv_main := (if w then KmMuxWait (a # xs) else KmForce (a # xs))\<rparr>)"
    using assms m x held by (intro kvo_main km_mux) simp_all
  have r1: "steps kv_own_step s ?s1"
  proof (cases w)
    case True
    let ?w = "?sx\<lparr>kv_main := KmMuxWait (a # xs)\<rparr>"
    have "kv_own_step ?w ((kv_put a ((kv_store ?w a)\<lparr>ks_mux := ks_mux x\<rparr>) ?w)\<lparr>kv_main := KmForce (a # xs)\<rparr>)"
      using assms(3) held by (intro kvo_main km_waited) (simp_all add: mux_close_wait_def)
    then have "kv_own_step ?w ?s1" by (simp add: kv_put_def)
    with one True show ?thesis by (auto intro: steps_trans steps_one)
  next
    case False
    with one show ?thesis by (auto intro: steps_one)
  qed
  have "kv_own_step ?s1 ((kv_put a (kcp_closeOnce (kv_store ?s1 a)) ?s1)\<lparr>kv_main := KmJoin (a # xs)\<rparr>)"
    using assms(3) held by (intro kvo_main km_force) simp_all
  then have r2: "kv_own_step ?s1 ?s2" by (simp add: kv_put_def)
  have "kcp_closing ?c" using inv_x by (simp add: kcp_closing_def kcp_closeOnce_inv)
  then obtain y where y: "steps kcp_join_step ?c y" "kcp_closeForce_returns y" using kcp_joins by blast
  have "steps kv_own_step (kv_put a ?c ?s2) (kv_put a y ?s2)"
    by (rule kv_socket_steps [OF y(1)]) (simp_all add: assms(3) a(1))
  then have r3: "steps kv_own_step ?s2 ((kv_put a y s)\<lparr>kv_main := KmJoin (a # xs)\<rparr>)"
    by (simp only: kv_put_main kv_put_put)
  have "kv_own_step ((kv_put a y s)\<lparr>kv_main := KmJoin (a # xs)\<rparr>)
      (((kv_put a y s)\<lparr>kv_main := KmJoin (a # xs)\<rparr>)\<lparr>kv_main := KmCloseSock xs\<rparr>)"
    using assms(3) held y(2) by (intro kvo_main km_join [where a = a]) simp_all
  then have r4: "kv_own_step ((kv_put a y s)\<lparr>kv_main := KmJoin (a # xs)\<rparr>) ((kv_put a y s)\<lparr>kv_main := KmCloseSock xs\<rparr>)"
    by simp
  have "steps kv_own_step s ((kv_put a y s)\<lparr>kv_main := KmCloseSock xs\<rparr>)"
    by (rule steps_append [OF r1], rule steps_trans [where step = kv_own_step, OF r2], rule steps_append [OF r3],
        rule steps_one [where step = kv_own_step, OF r4])
  with y(2) show ?thesis by blast
qed

lemma kv_close_list:
  "kv_main s = KmCloseSock xs \<Longrightarrow> kv_inv s \<Longrightarrow> kv_panic s = None \<Longrightarrow>
     \<exists>t. steps kv_own_step s t \<and> kv_main t = KmCloseSock [] \<and> kv_panic t = None
       \<and> kv_acc t = kv_acc s \<and> kv_closeCh t = kv_closeCh s \<and> (\<forall>a \<in> set xs. kcp_closeForce_returns (kv_store t a))
       \<and> (\<forall>a. kcp_closeForce_returns (kv_store s a) \<longrightarrow> kcp_closeForce_returns (kv_store t a))"
proof (induction xs arbitrary: s)
  case Nil
  then show ?case by (intro exI [of _ s]) (simp add: steps_refl)
next
  case (Cons a xs)
  from kv_close_one [OF Cons.prems] obtain y where
    run: "steps kv_own_step s ((kv_put a y s)\<lparr>kv_main := KmCloseSock xs\<rparr>)" and y: "kcp_closeForce_returns y" by blast
  let ?s3 = "(kv_put a y s)\<lparr>kv_main := KmCloseSock xs\<rparr>"
  have "kv_inv ?s3" by (rule kv_own_steps_inv [OF run Cons.prems(2)])
  from Cons.IH [OF _ this] Cons.prems(3) obtain t where t: "steps kv_own_step ?s3 t" "kv_main t = KmCloseSock []"
    "kv_panic t = None" "kv_acc t = kv_acc s" "kv_closeCh t = kv_closeCh s"
    "\<forall>b \<in> set xs. kcp_closeForce_returns (kv_store t b)"
    "\<forall>b. kcp_closeForce_returns (((kv_store s)(a := y)) b) \<longrightarrow> kcp_closeForce_returns (kv_store t b)"
    by (auto simp del: fun_upd_apply)
  have "kcp_closeForce_returns (kv_store t a)" using t(7) y by simp
  moreover have "kcp_closeForce_returns (kv_store s b) \<longrightarrow> kcp_closeForce_returns (kv_store t b)" for b
    using t(7) y by (cases "b = a") auto
  moreover note steps_append [OF run t(1)]
  ultimately show ?case using t(2-6) by (intro exI [of _ t]) simp
qed

section \<open>Close and a connection that is on its way\<close>

text \<open>\<open>Close\<close> holds the mutex and the accept goroutine stands at \<open>addSocket\<close>.\<close>

definition kv_stuck :: "kcp_server \<Rightarrow> nat \<Rightarrow> bool" where
  "kv_stuck s a \<longleftrightarrow> kmu_held (kv_main s) \<and> kv_acc s = KaAdd a \<and> kv_wg s = 1"

lemma kv_stuck_step: "kv_step s t \<Longrightarrow> kv_stuck s a \<Longrightarrow> kv_stuck t a"
proof (induction rule: kv_step.induct)
  case (kv_accept s t)
  then show ?case by (auto elim!: kv_accept_step.cases simp: kv_stuck_def)
next
  case (kv_close s t)
  then show ?case by (auto elim!: kv_main_step.cases simp: kv_stuck_def) (auto simp: kmu_held_def)
next
  case (kv_socket s t)
  then show ?case by (auto elim!: kv_socket_step.cases simp: kv_stuck_def kcp_deleteSocket_def)
qed

lemma kv_stuck_steps: "steps kv_step s t \<Longrightarrow> kv_stuck s a \<Longrightarrow> kv_stuck t a"
  by (induction rule: steps.induct) (auto intro: kv_stuck_step)

text \<open>A server that accepts one connection, up to \<open>addSocket\<close>, and \<open>Close\<close> that takes the mutex then.\<close>

definition kv_one :: kcp_server where
  "kv_one = (NewKCPServer False)\<lparr>kv_next := 1, kv_acc := KaAdd 0,
     kv_store := (kv_store (NewKCPServer False))(0 := (newKCPSocket True False)\<lparr>ks_mux := (newKCPMux False True)\<lparr>mx_initFlag := kcpMuxInit\<rparr>\<rparr>)\<rparr>"

lemma kv_reach_new: "reachable kv_init kv_step (NewKCPServer isInline)"
  by (rule reach_init) (auto simp: kv_init_def)

lemma kv_reach_one: "reachable kv_init kv_step kv_one"
proof -
  let ?n = "NewKCPServer False"
  let ?m = "(newKCPMux False True)\<lparr>mx_initFlag := kcpMuxInit\<rparr>"
  let ?s1 = "?n\<lparr>kv_acc := KaCheck True\<rparr>" and ?s2 = "?n\<lparr>kv_acc := KaNew\<rparr>"
  let ?s3 = "?n\<lparr>kv_store := (kv_store ?n)(0 := newKCPSocket True False), kv_next := 1, kv_acc := KaMux 0\<rparr>"
  let ?s4 = "(kv_put 0 ((kv_store ?s3 0)\<lparr>ks_mux := ?m\<rparr>) ?s3)\<lparr>kv_acc := (if False then KaInit 0 else KaAdd 0)\<rparr>"
  note new = NewKCPServer_def
  have s1: "kv_step ?n ?s1" by (intro kv_accept ka_conn) (simp_all add: new)
  have s2: "kv_step ?s1 ?s2" using kv_accept [OF _ ka_go_on [of ?s1 True]] by (simp add: new)
  have s3: "kv_step ?s2 ?s3" using kv_accept [OF _ ka_new [of ?s2]] by (simp add: new)
  have s4: "kv_step ?s3 ?s4"
    by (intro kv_accept ka_mux [of _ 0 ?m "[]"])
      (simp_all add: new newKCPSocket_def mux_init_def newKCPMux_def Let_def)
  have "?s4 = kv_one" by (simp add: kv_one_def kv_put_def new newKCPSocket_def)
  moreover have "steps kv_step ?n ?s4"
    by (rule steps_trans [where step = kv_step, OF s1], rule steps_trans [where step = kv_step, OF s2],
        rule steps_trans [where step = kv_step, OF s3], rule steps_one [where step = kv_step, OF s4])
  ultimately show ?thesis using reachable_steps kv_reach_new by metis
qed

definition kv_two :: kcp_server where
  "kv_two = kv_one\<lparr>kv_main := KmCloseSock []\<rparr>"

lemma kv_reach_two: "reachable kv_init kv_step kv_two"
proof -
  have "kv_step kv_one kv_two" unfolding kv_two_def
    by (intro kv_close km_lock) (simp_all add: kv_one_def NewKCPServer_def)
  with kv_reach_one show ?thesis by (rule reach_step)
qed

section \<open>Properties\<close>

text \<open>C9.
  \<open>KCPServer.Close\<close> can hang for ever: it keeps the mutex while it waits for the accept goroutine, so once it has
  the mutex and the accept goroutine stands at \<open>addSocket\<close> with a new connection, neither moves again, whatever
  else happens: \<open>Close\<close> has not returned in any later state, and the new socket is never in the table.
\<close>

theorem kcp_server_close_deadlock:
  assumes "reachable kv_init kv_step s" and "kmu_held (kv_main s)" and "kv_acc s = KaAdd a" and "steps kv_step s t"
  shows "kmu_held (kv_main t) \<and> kv_main t \<noteq> KmClosed \<and> kv_acc t = KaAdd a \<and> a \<notin> kv_sockets t"
proof -
  have "kv_wg s = 1" using kv_sys.inv_reachable [OF assms(1)] assms(3) by (simp add: kv_inv_defs)
  with assms have "kv_stuck t a" by (intro kv_stuck_steps [OF assms(4)]) (simp add: kv_stuck_def)
  moreover have "kv_inv t" by (rule kv_sys.inv_reachable [OF reachable_steps [OF assms(4,1)]])
  ultimately show ?thesis by (auto simp: kv_stuck_def kmu_held_def kv_inv_defs)
qed

theorem kcp_server_close_deadlock_witness:
  "reachable kv_init kv_step kv_two \<and> kmu_held (kv_main kv_two) \<and> kv_acc kv_two = KaAdd 0 \<and> 0 \<notin> kv_sockets kv_two"
  using kcp_server_close_deadlock [OF kv_reach_two _ _ steps_refl, of 0] kv_reach_two
  by (simp add: kv_two_def kv_one_def kmu_held_def)

text \<open>
  When no connection is on its way, \<open>KCPServer.Close\<close> completes: from a state in which the server serves and the
  accept goroutine is in \<open>AcceptKCP\<close>, the server's own goroutines lead from \<open>Close\<close>'s lock to its return, with the
  accept goroutine gone and both loops of every socket of the table ended.
\<close>

theorem kcp_server_close_completes:
  assumes "reachable kv_init kv_step s" and "kv_main s = KmServing" and "kv_acc s = KaAccept" and "kv_panic s = None"
  shows "\<exists>s0 t. kv_main_step s s0 \<and> kmu_held (kv_main s0) \<and> steps kv_own_step s0 t \<and> kv_main t = KmClosed
    \<and> kv_acc t = KaExit \<and> (\<forall>a \<in> kv_sockets s. kcp_closeForce_returns (kv_store t a))"
proof -
  have inv: "kv_inv s" by (rule kv_sys.inv_reachable [OF assms(1)])
  have lt: "kv_sockets s \<subseteq> {..<kv_next s}" using inv by (simp add: kv_inv_defs)
  then obtain xs where xs: "set xs = kv_sockets s" "distinct xs"
    using finite_distinct_list [OF finite_subset [OF lt]] by auto
  let ?s0 = "s\<lparr>kv_main := KmCloseSock xs\<rparr>"
  have lock: "kv_main_step s ?s0" using assms(2) xs by (intro km_lock) simp_all
  have inv0: "kv_inv ?s0" by (rule kv_main_step_inv [OF lock inv])
  from kv_close_list [OF _ inv0, of xs] assms(3,4) obtain u where u: "steps kv_own_step ?s0 u"
    "kv_main u = KmCloseSock []" "kv_panic u = None" "kv_acc u = KaAccept" "kv_closeCh u = kv_closeCh s"
    "\<forall>a \<in> set xs. kcp_closeForce_returns (kv_store u a)" by auto
  have wg: "\<not> kv_closeCh s" "kv_wg u = 1" using inv assms(2) u(4) kv_own_steps_inv [OF u(1) inv0] by (auto simp: kv_inv_defs)
  let ?u1 = "u\<lparr>kv_closeCh := True, kv_main := KmListener\<rparr>"
  let ?u2 = "?u1\<lparr>kv_listening := False, kv_main := KmWait\<rparr>"
  let ?u3 = "?u2\<lparr>kv_acc := KaCheck False\<rparr>"
  let ?u4 = "?u2\<lparr>kv_acc := KaExit, kv_wg := 0\<rparr>"
  let ?t = "?u4\<lparr>kv_main := KmClosed\<rparr>"
  have "kv_own_step u ?u1" using kvo_main [OF _ km_closeCh [of u]] u wg by (simp add: kmu_held_def)
  moreover have "kv_own_step ?u1 ?u2" using u by (intro kvo_main km_listener) (simp_all add: kmu_held_def)
  moreover have "kv_own_step ?u2 ?u3" using u by (intro kvo_accept ka_err) simp_all
  moreover have "kv_own_step ?u3 ?u4" using kvo_accept [OF _ ka_closed [of ?u3 False]] u wg by (simp add: kv_wg_Done_def)
  moreover have "kv_own_step ?u4 ?t" using u by (intro kvo_main km_wait) (simp_all add: kmu_held_def)
  ultimately have "steps kv_own_step u ?t" by (blast intro: steps.intros)
  with u(1) have "steps kv_own_step ?s0 ?t" by (rule steps_append)
  moreover have "\<forall>a \<in> kv_sockets s. kcp_closeForce_returns (kv_store ?t a)" using u(6) xs(1) by simp
  ultimately show ?thesis using lock by (intro exI [of _ ?s0] exI [of _ ?t]) (simp add: kmu_held_def)
qed

theorem kcp_server_close_completes_witness:
  "\<exists>s0 t. kv_main_step (NewKCPServer True) s0 \<and> steps kv_own_step s0 t \<and> kv_main t = KmClosed"
  using kcp_server_close_completes [OF kv_reach_new [of True]] by (auto simp: NewKCPServer_def)

text \<open>
  The KCP server loses no socket: every socket it ever made is in the table, or in the hands of the accept goroutine
  on its way there, or its shut down has begun; the table holds only sockets the server made, and the accept
  goroutine has left the wait group exactly when it is gone.
\<close>

theorem kcp_server_table:
  assumes "reachable kv_init kv_step s"
  shows "kv_sockets s \<subseteq> {..<kv_next s}
    \<and> (\<forall>a. a < kv_next s \<and> a \<notin> kv_sockets s \<longrightarrow> ka_owner (kv_acc s) = Some a \<or> ks_closeFlag (kv_store s a))
    \<and> kv_wg s = (if kv_acc s = KaExit then 0 else 1)
    \<and> (\<forall>a. ks_panic (kv_store s a) = None \<and> ks_disconnects (kv_store s a) \<le> 1)"
  using kv_sys.inv_reachable [OF assms] by (auto simp: kv_inv_defs kcp_inv_def kcp_control_inv_def)

theorem kcp_server_table_witness: "kv_sockets kv_two \<subseteq> {..<1}"
  using kcp_server_table [OF kv_reach_two] by (simp add: kv_two_def kv_one_def)

end
