(* ===== verification/Websocket.thy ===== *)
theory Websocket
  imports Udp_Socket
begin

text \<open>
  The websocket of \<open>pkg/xnet/websocket.go\<close>, for the client and the server side. Its write side is the UDP socket's:
  one message at a time, and after the close signal whatever is queued; so it is related to the model of \<open>Udp_Socket\<close>
  by a simulation and inherits what that theory shows. What differs is added here: the callbacks, the
  close frame, and a nil message, which the write loop takes for the end.
\<close>

section \<open>State\<close>

datatype ws_frame = WsBinary bytes | WsCloseFrame

text \<open>\<open>readLoop\<close>: the callbacks run before \<open>wg.Done\<close>, \<open>forceClose\<close> after it.\<close>

datatype wrd_pc = WRConnect | WRLoop | WRDisconnect | WRDone | WRForceClose | WRExit

datatype wwr_pc =
    WWSelect bool
  | WWSend bytes bool
  | WWDone
  | WWCloseMsg
  | WWConnClose
  | WWExit

text \<open>
  A message is \<open>None\<close> when it is a nil slice. \<open>ws_frames\<close> is what was written to the connection; \<open>ws_lost\<close>,
  \<open>ws_accepted\<close> and \<open>ws_closedAt\<close> are history, as in \<open>Udp_Socket\<close>.
\<close>

record websocket =
  ws_rd :: wrd_pc
  ws_wr :: wwr_pc
  ws_writeCh :: "bytes option list"
  ws_closeOnce :: bool
  ws_closeCh :: bool
  ws_wg :: int
  ws_connClosed :: bool
  ws_writeErr :: "go_error option"
  ws_panic :: "go_panic option"
  ws_connects :: nat
  ws_disconnects :: nat
  ws_frames :: "ws_frame list"
  ws_lost :: "bytes list"
  ws_accepted :: "bytes option list"
  ws_closedAt :: nat

definition NewWebsocket :: websocket where
  "NewWebsocket =
     \<lparr>ws_rd = WRConnect, ws_wr = WWSelect False, ws_writeCh = [], ws_closeOnce = False, ws_closeCh = False,
      ws_wg = 2, ws_connClosed = False, ws_writeErr = None, ws_panic = None, ws_connects = 0,
      ws_disconnects = 0, ws_frames = [], ws_lost = [], ws_accepted = [], ws_closedAt = 0\<rparr>"

section \<open>Operations\<close>

definition ws_SendMsg :: "websocket \<Rightarrow> bytes option \<Rightarrow> (go_error option \<times> websocket) list" where
  "ws_SendMsg s m =
     map (\<lambda>(r, ch). (r, s\<lparr>ws_writeCh := ch, ws_accepted := ws_accepted s @ (if r = None then [m] else [])\<rparr>))
       (select_send writeChanLimit SockAlreadyClose MsgOverflow (ws_writeCh s) (ws_closeCh s) m)"

definition ws_forceClose :: "websocket \<Rightarrow> websocket" where
  "ws_forceClose s =
     (if ws_closeOnce s then s
      else if ws_closeCh s then s\<lparr>ws_closeOnce := True, ws_panic := Some CloseOfClosed\<rparr>
      else s\<lparr>ws_closeOnce := True, ws_closeCh := True, ws_closedAt := length (ws_accepted s)\<rparr>)"

text \<open>\<open>WaitUntilClose\<close> waits for both goroutines, \<open>Close\<close> after \<open>forceClose\<close>.\<close>

definition ws_WaitUntilClose_returns :: "websocket \<Rightarrow> bool" where
  "ws_WaitUntilClose_returns s \<longleftrightarrow> ws_wg s = 0"

definition ws_Close_returns :: "websocket \<Rightarrow> bool" where
  "ws_Close_returns s \<longleftrightarrow> ws_closeOnce s \<and> ws_WaitUntilClose_returns s"

definition ws_wg_Done :: "websocket \<Rightarrow> websocket" where
  "ws_wg_Done s = (if ws_wg s \<le> 0 then s\<lparr>ws_panic := Some NegativeWaitGroup\<rparr> else s\<lparr>ws_wg := ws_wg s - 1\<rparr>)"

text \<open>\<open>wrd_end\<close> is a failing deadline or read, the peer's close, or an error of the handler.\<close>

inductive ws_read_step :: "websocket \<Rightarrow> websocket \<Rightarrow> bool" where
  wrd_connect: "ws_rd s = WRConnect \<Longrightarrow> ws_read_step s (s\<lparr>ws_rd := WRLoop, ws_connects := ws_connects s + 1\<rparr>)"
| wrd_message: "ws_rd s = WRLoop \<Longrightarrow> ws_read_step s s"
| wrd_end: "ws_rd s = WRLoop \<Longrightarrow> ws_read_step s (s\<lparr>ws_rd := WRDisconnect\<rparr>)"
| wrd_disconnect: "ws_rd s = WRDisconnect \<Longrightarrow>
    ws_read_step s (s\<lparr>ws_rd := WRDone, ws_disconnects := ws_disconnects s + 1\<rparr>)"
| wrd_wg: "ws_rd s = WRDone \<Longrightarrow> ws_read_step s (ws_wg_Done (s\<lparr>ws_rd := WRForceClose\<rparr>))"
| wrd_close: "ws_rd s = WRForceClose \<Longrightarrow> ws_read_step s (ws_forceClose (s\<lparr>ws_rd := WRExit\<rparr>))"

inductive ws_write_step :: "websocket \<Rightarrow> websocket \<Rightarrow> bool" where
  wwr_take: "ws_wr s = WWSelect close \<Longrightarrow> ws_writeCh s = Some m # q \<Longrightarrow>
    ws_write_step s (s\<lparr>ws_wr := WWSend m close, ws_writeCh := q\<rparr>)"
| wwr_nil: "ws_wr s = WWSelect close \<Longrightarrow> ws_writeCh s = None # q \<Longrightarrow>
    ws_write_step s (s\<lparr>ws_wr := WWDone, ws_writeCh := q\<rparr>)"
| wwr_closed: "ws_wr s = WWSelect False \<Longrightarrow> ws_closeCh s \<Longrightarrow> ws_write_step s (s\<lparr>ws_wr := WWSelect True\<rparr>)"
| wwr_empty: "ws_wr s = WWSelect True \<Longrightarrow> ws_writeCh s = [] \<Longrightarrow> ws_write_step s (s\<lparr>ws_wr := WWDone\<rparr>)"
| wwr_send: "ws_wr s = WWSend m close \<Longrightarrow>
    ws_write_step s (s\<lparr>ws_wr := WWSelect close, ws_frames := ws_frames s @ [WsBinary m]\<rparr>)"
| wwr_fail: "ws_wr s = WWSend m close \<Longrightarrow>
    ws_write_step s (s\<lparr>ws_wr := WWDone, ws_writeErr := Some err, ws_lost := [m]\<rparr>)"
| wwr_wg: "ws_wr s = WWDone \<Longrightarrow> ws_write_step s (ws_wg_Done (s\<lparr>ws_wr := WWCloseMsg\<rparr>))"
| wwr_close_frame: "ws_wr s = WWCloseMsg \<Longrightarrow>
    ws_write_step s (s\<lparr>ws_wr := WWConnClose, ws_frames := ws_frames s @ [WsCloseFrame]\<rparr>)"
| wwr_close_fail: "ws_wr s = WWCloseMsg \<Longrightarrow> ws_write_step s (s\<lparr>ws_wr := WWConnClose\<rparr>)"
| wwr_conn: "ws_wr s = WWConnClose \<Longrightarrow> ws_write_step s (s\<lparr>ws_wr := WWExit, ws_connClosed := True\<rparr>)"

inductive ws_step :: "websocket \<Rightarrow> websocket \<Rightarrow> bool" where
  wstep_read: "ws_read_step s t \<Longrightarrow> ws_step s t"
| wstep_write: "ws_write_step s t \<Longrightarrow> ws_step s t"
| wstep_send: "(r, t) \<in> set (ws_SendMsg s m) \<Longrightarrow> ws_step s t"
| wstep_close: "ws_step s (ws_forceClose s)"

definition ws_init :: "websocket \<Rightarrow> bool" where
  "ws_init s \<longleftrightarrow> s = NewWebsocket"

interpretation ws_port: send_port ws_writeCh ws_closeCh writeChanLimit SockAlreadyClose MsgOverflow
    "\<lambda>s m. m" ws_SendMsg
  by unfold_locales (auto simp: ws_SendMsg_def in_select_send, force simp: in_select_send)

lemma ws_SendMsg_cases:
  "(r, t) \<in> set (ws_SendMsg s m) \<Longrightarrow>
     t = s \<or> length (ws_writeCh s) < writeChanLimit
       \<and> t = s\<lparr>ws_writeCh := ws_writeCh s @ [m], ws_accepted := ws_accepted s @ [m]\<rparr>"
  by (cases s) (auto simp: ws_SendMsg_def in_select_send)

section \<open>The simulation\<close>

definition ws_dg :: "bytes \<Rightarrow> udpDatagram" where
  "ws_dg m = \<lparr>ug_msg = m, ug_addr = ''''\<rparr>"

fun abs_rd :: "wrd_pc \<Rightarrow> urd_pc" where
  "abs_rd WRDone = URDone"
| "abs_rd WRForceClose = URForceClose"
| "abs_rd WRExit = URExit"
| "abs_rd _ = URLoop"

fun abs_wr :: "wwr_pc \<Rightarrow> uwr_pc" where
  "abs_wr (WWSelect close) = UWSelect close"
| "abs_wr (WWSend m close) = UWSend (ws_dg m) close"
| "abs_wr WWDone = UWDone"
| "abs_wr WWCloseMsg = UWConnClose"
| "abs_wr WWConnClose = UWConnClose"
| "abs_wr WWExit = UWExit"

fun binary_of :: "ws_frame list \<Rightarrow> bytes list" where
  "binary_of [] = []"
| "binary_of (WsBinary m # fs) = m # binary_of fs"
| "binary_of (WsCloseFrame # fs) = binary_of fs"

lemma binary_of_append [simp]: "binary_of (fs @ gs) = binary_of fs @ binary_of gs"
  by (induction fs rule: binary_of.induct) simp_all

definition ws_abs :: "websocket \<Rightarrow> udp_socket" where
  "ws_abs s =
     \<lparr>us_isServer = False, us_rd = abs_rd (ws_rd s), us_wr = abs_wr (ws_wr s),
      us_writeCh = map (ws_dg \<circ> the) (ws_writeCh s), us_closeOnce = ws_closeOnce s, us_closeCh = ws_closeCh s,
      us_wg = ws_wg s, us_connClosed = ws_connClosed s, us_writeErr = ws_writeErr s, us_panic = ws_panic s,
      us_sent = map (\<lambda>m. (m, None)) (binary_of (ws_frames s)), us_lost = map ws_dg (ws_lost s),
      us_accepted = map (ws_dg \<circ> the) (ws_accepted s), us_closedAt = ws_closedAt s\<rparr>"

text \<open>
  The queue is a suffix of what was accepted, the write channel is the smaller one of the two, and the
  frames end with at most one close frame.
\<close>

definition ws_side :: "websocket \<Rightarrow> bool" where
  "ws_side s \<longleftrightarrow> set (ws_writeCh s) \<subseteq> set (ws_accepted s) \<and> length (ws_writeCh s) \<le> writeChanLimit
     \<and> (ws_frames s = map WsBinary (binary_of (ws_frames s))
        \<or> ws_frames s = map WsBinary (binary_of (ws_frames s)) @ [WsCloseFrame]
          \<and> (ws_wr s = WWConnClose \<or> ws_wr s = WWExit))
     \<and> ws_connects s = (if ws_rd s = WRConnect then 0 else 1)
     \<and> ws_disconnects s = (case ws_rd s of WRConnect \<Rightarrow> 0 | WRLoop \<Rightarrow> 0 | WRDisconnect \<Rightarrow> 0 | _ \<Rightarrow> 1)"

lemma ws_abs_fields [simp]:
  "us_rd (ws_abs s) = abs_rd (ws_rd s)" "us_wr (ws_abs s) = abs_wr (ws_wr s)"
  "us_writeCh (ws_abs s) = map (ws_dg \<circ> the) (ws_writeCh s)" "us_closeOnce (ws_abs s) = ws_closeOnce s"
  "us_closeCh (ws_abs s) = ws_closeCh s" "us_wg (ws_abs s) = ws_wg s" "us_connClosed (ws_abs s) = ws_connClosed s"
  "us_writeErr (ws_abs s) = ws_writeErr s" "us_panic (ws_abs s) = ws_panic s"
  "us_sent (ws_abs s) = map (\<lambda>m. (m, None)) (binary_of (ws_frames s))"
  "us_lost (ws_abs s) = map ws_dg (ws_lost s)" "us_accepted (ws_abs s) = map (ws_dg \<circ> the) (ws_accepted s)"
  "us_closedAt (ws_abs s) = ws_closedAt s" "us_isServer (ws_abs s) = False"
  by (simp_all add: ws_abs_def)

lemma udp_out_abs [simp]: "udp_out (ws_abs s) (ws_dg m) = (m, None)"
  by (simp add: udp_out_def ws_dg_def)

lemma ws_abs_update:
  "ws_abs (s\<lparr>ws_rd := r\<rparr>) = (ws_abs s)\<lparr>us_rd := abs_rd r\<rparr>"
  "ws_abs (s\<lparr>ws_wr := w\<rparr>) = (ws_abs s)\<lparr>us_wr := abs_wr w\<rparr>"
  "ws_abs (s\<lparr>ws_connects := n\<rparr>) = ws_abs s" "ws_abs (s\<lparr>ws_disconnects := n\<rparr>) = ws_abs s"
  "ws_abs (s\<lparr>ws_writeCh := q\<rparr>) = (ws_abs s)\<lparr>us_writeCh := map (ws_dg \<circ> the) q\<rparr>"
  "ws_abs (s\<lparr>ws_accepted := a\<rparr>) = (ws_abs s)\<lparr>us_accepted := map (ws_dg \<circ> the) a\<rparr>"
  "ws_abs (s\<lparr>ws_frames := fs\<rparr>) = (ws_abs s)\<lparr>us_sent := map (\<lambda>m. (m, None)) (binary_of fs)\<rparr>"
  "ws_abs (s\<lparr>ws_lost := l\<rparr>) = (ws_abs s)\<lparr>us_lost := map ws_dg l\<rparr>"
  "ws_abs (s\<lparr>ws_writeErr := e\<rparr>) = (ws_abs s)\<lparr>us_writeErr := e\<rparr>"
  "ws_abs (s\<lparr>ws_connClosed := c\<rparr>) = (ws_abs s)\<lparr>us_connClosed := c\<rparr>"
  "ws_abs (ws_wg_Done s) = udp_wg_Done (ws_abs s)"
  "ws_abs (ws_forceClose s) = udp_forceClose (ws_abs s)"
  by (simp_all add: ws_abs_def ws_wg_Done_def udp_wg_Done_def ws_forceClose_def udp_forceClose_def)

lemma ws_abs_same [simp]:
  "abs_rd (ws_rd s) = r \<Longrightarrow> (ws_abs s)\<lparr>us_rd := r\<rparr> = ws_abs s"
  "abs_wr (ws_wr s) = w \<Longrightarrow> (ws_abs s)\<lparr>us_wr := w\<rparr> = ws_abs s"
  by (auto simp: ws_abs_def)

lemma ws_read_step_abs: "ws_read_step s t \<Longrightarrow> ws_abs t = ws_abs s \<or> udp_read_step (ws_abs s) (ws_abs t)"
proof (induction rule: ws_read_step.induct)
  case (wrd_disconnect s)
  then show ?case using urd_err [of "ws_abs s"] by (simp add: ws_abs_update)
next
  case (wrd_wg s)
  then show ?case using urd_wg [of "ws_abs s"] by (simp add: ws_abs_update)
next
  case (wrd_close s)
  then show ?case using urd_close [of "ws_abs s"] by (simp add: ws_abs_update)
qed (simp_all add: ws_abs_update)

text \<open>Every write step with no nil message at hand is one of the UDP socket, or none.\<close>

lemma ws_write_step_abs:
  "ws_write_step s t \<Longrightarrow> None \<notin> set (ws_writeCh s) \<Longrightarrow> ws_abs t = ws_abs s \<or> udp_write_step (ws_abs s) (ws_abs t)"
proof (induction rule: ws_write_step.induct)
  case (wwr_take s close m q)
  then show ?case using uwr_take [of "ws_abs s" close "ws_dg m" "map (ws_dg \<circ> the) q"] by (simp add: ws_abs_update)
next
  case (wwr_closed s)
  then show ?case using uwr_closed [of "ws_abs s"] by (simp add: ws_abs_update)
next
  case (wwr_empty s)
  then show ?case using uwr_empty [of "ws_abs s"] by (simp add: ws_abs_update)
next
  case (wwr_send s m close)
  then show ?case using uwr_send [of "ws_abs s" "ws_dg m" close] by (simp add: ws_abs_update)
next
  case (wwr_fail s m close err)
  then show ?case using uwr_fail [of "ws_abs s" "ws_dg m" close err] by (simp add: ws_abs_update)
next
  case (wwr_wg s)
  then show ?case using uwr_wg [of "ws_abs s"] by (simp add: ws_abs_update)
next
  case (wwr_close_frame s)
  then show ?case by (simp add: ws_abs_def)
next
  case (wwr_conn s)
  then show ?case using uwr_conn [of "ws_abs s"] by (simp add: ws_abs_update)
qed (simp_all add: ws_abs_update)

lemma ws_send_abs:
  assumes "(r, t) \<in> set (ws_SendMsg s m)" and "length (ws_writeCh s) \<le> writeChanLimit"
  shows "ws_abs t = ws_abs s \<or> (\<exists>r d. (r, ws_abs t) \<in> set (udp_sendMsg (ws_abs s) d))"
  using ws_SendMsg_cases [OF assms(1)]
proof (elim disjE conjE)
  assume t: "t = s\<lparr>ws_writeCh := ws_writeCh s @ [m], ws_accepted := ws_accepted s @ [m]\<rparr>"
  have "length (us_writeCh (ws_abs s)) < udpWriteLimit" using assms(2) by (simp add: udpWriteLimit_def writeChanLimit_def)
  then have "(None, ws_abs t) \<in> set (udp_sendMsg (ws_abs s) (ws_dg (the m)))"
    by (simp add: udp_sendMsg_def select_send_def t ws_abs_update)
  then show ?thesis by blast
qed simp

lemma ws_side_step: "ws_step s t \<Longrightarrow> ws_side s \<Longrightarrow> ws_side t"
proof (induction rule: ws_step.induct)
  case (wstep_read s t)
  then show ?case
    by (induction rule: ws_read_step.induct) (auto simp: ws_side_def ws_wg_Done_def ws_forceClose_def)
next
  case (wstep_write s t)
  then show ?case
    by (induction rule: ws_write_step.induct) (auto simp: ws_side_def ws_wg_Done_def)
next
  case (wstep_send r t s m)
  then show ?case using ws_SendMsg_cases [OF wstep_send.hyps] by (auto simp: ws_side_def)
next
  case (wstep_close s)
  then show ?case by (auto simp: ws_side_def ws_forceClose_def)
qed

definition ws_inv :: "websocket \<Rightarrow> bool" where
  "ws_inv s \<longleftrightarrow> ws_side s \<and> (None \<notin> set (ws_accepted s) \<longrightarrow> udp_inv (ws_abs s))"

lemma ws_accepted_mono: "ws_step s t \<Longrightarrow> set (ws_accepted s) \<subseteq> set (ws_accepted t)"
proof (induction rule: ws_step.induct)
  case (wstep_read s t)
  then show ?case by (induction rule: ws_read_step.induct) (auto simp: ws_wg_Done_def ws_forceClose_def)
next
  case (wstep_write s t)
  then show ?case by (induction rule: ws_write_step.induct) (auto simp: ws_wg_Done_def)
next
  case (wstep_send r t s m)
  then show ?case using ws_SendMsg_cases [OF wstep_send.hyps] by auto
qed (auto simp: ws_forceClose_def)

text \<open>The simulation: with no nil message a step of the websocket is a step of the UDP socket or none.\<close>

lemma ws_step_abs:
  assumes "ws_step s t" and "ws_side s" and "None \<notin> set (ws_accepted s)"
  shows "ws_abs t = ws_abs s \<or> udp_step (ws_abs s) (ws_abs t)"
  using assms
proof (induction rule: ws_step.induct)
  case (wstep_read s t)
  then show ?case using ws_read_step_abs by (blast intro: udp_step.intros)
next
  case (wstep_write s t)
  then have "None \<notin> set (ws_writeCh s)" by (auto simp: ws_side_def)
  with wstep_write show ?case using ws_write_step_abs by (blast intro: udp_step.intros)
next
  case (wstep_send r t s m)
  then have "length (ws_writeCh s) \<le> writeChanLimit" by (simp add: ws_side_def)
  with wstep_send show ?case using ws_send_abs by (blast intro: udp_step.intros)
next
  case (wstep_close s)
  then show ?case by (simp add: ws_abs_update udp_step.ustep_close)
qed

interpretation ws_sys: inductive_invariant ws_init ws_step ws_inv
proof
  show "ws_inv s" if "ws_init s" for s
  proof -
    have "ws_abs NewWebsocket = NewUDPSocket False"
      by (simp add: ws_abs_def NewWebsocket_def NewUDPSocket_def)
    then have "udp_inv (ws_abs NewWebsocket)"
      using udp_sys.inv_init [of False "NewUDPSocket False"] by (simp add: udp_init_def)
    with that show ?thesis by (simp add: ws_init_def ws_inv_def ws_side_def NewWebsocket_def)
  qed
  show "ws_inv t" if "ws_inv s" "ws_step s t" for s t
  proof -
    have side: "ws_side s" "ws_side t" using that ws_side_step by (auto simp: ws_inv_def)
    have "udp_inv (ws_abs t)" if nn: "None \<notin> set (ws_accepted t)"
    proof -
      have "None \<notin> set (ws_accepted s)" using nn ws_accepted_mono [OF \<open>ws_step s t\<close>] by blast
      with \<open>ws_inv s\<close> ws_step_abs [OF \<open>ws_step s t\<close> side(1)] show ?thesis
        by (auto simp: ws_inv_def intro: udp_sys.inv_step)
    qed
    with side(2) show ?thesis by (simp add: ws_inv_def)
  qed
qed

section \<open>The shut down ends\<close>

text \<open>The socket's own steps after a close, with no failing write.\<close>

inductive ws_own_step :: "websocket \<Rightarrow> websocket \<Rightarrow> bool" where
  wown_end: "ws_rd s = WRLoop \<Longrightarrow> ws_connClosed s \<Longrightarrow> ws_own_step s (s\<lparr>ws_rd := WRDisconnect\<rparr>)"
| wown_read: "ws_read_step s t \<Longrightarrow> ws_rd s \<noteq> WRLoop \<Longrightarrow> ws_own_step s t"
| wown_write: "ws_write_step s t \<Longrightarrow> ws_writeErr t = ws_writeErr s \<Longrightarrow>
    ws_wr s = WWCloseMsg \<longrightarrow> ws_frames t \<noteq> ws_frames s \<Longrightarrow> ws_own_step s t"

fun wrd_rank :: "wrd_pc \<Rightarrow> nat" where
  "wrd_rank WRConnect = 5"
| "wrd_rank WRLoop = 4"
| "wrd_rank WRDisconnect = 3"
| "wrd_rank WRDone = 2"
| "wrd_rank WRForceClose = 1"
| "wrd_rank WRExit = 0"

fun wwr_rank :: "wwr_pc \<Rightarrow> nat \<Rightarrow> nat" where
  "wwr_rank (WWSelect close) q = 2 * q + (if close then 4 else 5)"
| "wwr_rank (WWSend m close) q = 2 * q + (if close then 5 else 6)"
| "wwr_rank WWDone q = 3"
| "wwr_rank WWCloseMsg q = 2"
| "wwr_rank WWConnClose q = 1"
| "wwr_rank WWExit q = 0"

definition ws_rank :: "websocket \<Rightarrow> nat" where
  "ws_rank s = wrd_rank (ws_rd s) + wwr_rank (ws_wr s) (length (ws_writeCh s))"

definition ws_fate :: "websocket \<Rightarrow> bytes option list \<times> nat \<times> bool" where
  "ws_fate s = (ws_accepted s, ws_closedAt s, ws_closeOnce s)"

text \<open>Before the close frame is written there is none; after it, it is the last one.\<close>

definition ws_framed :: "websocket \<Rightarrow> bool" where
  "ws_framed s \<longleftrightarrow> (ws_frames s = map WsBinary (binary_of (ws_frames s)) @ [WsCloseFrame]
     \<longleftrightarrow> ws_wr s = WWConnClose \<or> ws_wr s = WWExit)"

definition ws_closing :: "bytes option list \<Rightarrow> websocket \<Rightarrow> bool" where
  "ws_closing acc s \<longleftrightarrow> ws_inv s \<and> ws_framed s \<and> None \<notin> set acc \<and> ws_writeErr s = None
     \<and> ws_fate s = (acc, length acc, True)"

lemma ws_own_step_sys: "ws_own_step s t \<Longrightarrow> ws_step s t"
  by (erule ws_own_step.cases) (auto intro: ws_step.intros ws_read_step.intros)

lemma ws_read_step_fate:
  "ws_read_step s t \<Longrightarrow> ws_closeOnce s \<Longrightarrow>
     ws_fate t = ws_fate s \<and> ws_writeErr t = ws_writeErr s \<and> ws_frames t = ws_frames s \<and> ws_wr t = ws_wr s"
  by (induction rule: ws_read_step.induct) (simp_all add: ws_fate_def ws_forceClose_def ws_wg_Done_def)

lemma ws_write_step_fate: "ws_write_step s t \<Longrightarrow> ws_fate t = ws_fate s"
  by (induction rule: ws_write_step.induct) (simp_all add: ws_fate_def ws_wg_Done_def)

lemma no_close_frame [simp]: "map WsBinary ms \<noteq> fs @ [WsCloseFrame]"
proof
  assume "map WsBinary ms = fs @ [WsCloseFrame]"
  then have "WsCloseFrame \<in> WsBinary ` set ms" by (metis in_set_conv_decomp set_map)
  then show False by auto
qed

lemma ws_write_step_framed:
  "ws_write_step s t \<Longrightarrow> ws_side s \<Longrightarrow> ws_framed s \<Longrightarrow> ws_wr s = WWCloseMsg \<longrightarrow> ws_frames t \<noteq> ws_frames s \<Longrightarrow> ws_framed t"
  by (induction rule: ws_write_step.induct) (auto simp: ws_framed_def ws_side_def ws_wg_Done_def)

lemma ws_own_step_closing:
  assumes "ws_closing acc s" and "ws_own_step s t"
  shows "ws_closing acc t"
proof -
  have c: "ws_inv s" "ws_side s" "ws_framed s" "ws_closeOnce s" "ws_writeErr s = None"
    using assms(1) by (simp_all add: ws_closing_def ws_inv_def ws_fate_def)
  have "ws_inv t" by (rule ws_sys.inv_step [OF c(1) ws_own_step_sys [OF assms(2)]])
  moreover have "ws_framed t \<and> ws_writeErr t = None \<and> ws_fate t = ws_fate s"
    using assms(2) c
  proof (induction rule: ws_own_step.induct)
    case (wown_end s)
    then show ?case by (simp add: ws_framed_def ws_fate_def)
  next
    case (wown_read s t)
    then show ?case using ws_read_step_fate [OF wown_read.hyps(1)] by (simp add: ws_framed_def)
  next
    case (wown_write s t)
    then show ?case using ws_write_step_fate ws_write_step_framed by auto
  qed
  ultimately show ?thesis using assms(1) by (simp add: ws_closing_def)
qed

lemma ws_own_step_rank: "ws_own_step s t \<Longrightarrow> ws_rank t < ws_rank s"
proof (induction rule: ws_own_step.induct)
  case (wown_read s t)
  then show ?case
    by (cases rule: ws_read_step.cases) (auto simp: ws_rank_def ws_wg_Done_def ws_forceClose_def)
next
  case (wown_write s t)
  then show ?case by (cases rule: ws_write_step.cases) (auto simp: ws_rank_def ws_wg_Done_def)
qed (simp add: ws_rank_def)

lemma ws_own_step_available:
  assumes open': "ws_closeCh s" and exit: "ws_wr s = WWExit \<longrightarrow> ws_connClosed s" and pos: "0 < ws_rank s"
  shows "\<exists>t. ws_own_step s t"
proof -
  have own: "ws_write_step s t \<Longrightarrow> ws_writeErr t = ws_writeErr s \<Longrightarrow>
      ws_wr s = WWCloseMsg \<longrightarrow> ws_frames t \<noteq> ws_frames s \<Longrightarrow> ?thesis" for t
    by (rule exI [of _ t], rule wown_write) simp_all
  have read: "ws_read_step s t \<Longrightarrow> ws_rd s \<noteq> WRLoop \<Longrightarrow> ?thesis" for t
    by (rule exI [of _ t], rule wown_read)
  show ?thesis
  proof (cases "ws_wr s")
    case (WWSelect close)
    show ?thesis
    proof (cases "ws_writeCh s")
      case Nil
      with WWSelect open' show ?thesis
        by (cases close) (simp_all add: own [OF wwr_empty] own [OF wwr_closed])
    next
      case (Cons m q)
      with WWSelect show ?thesis by (cases m) (simp_all add: own [OF wwr_take] own [OF wwr_nil])
    qed
  next
    case (WWSend m close)
    then show ?thesis by (simp add: own [OF wwr_send])
  next
    case WWDone
    then show ?thesis by (simp add: own [OF wwr_wg] ws_wg_Done_def)
  next
    case WWCloseMsg
    then show ?thesis by (simp add: own [OF wwr_close_frame])
  next
    case WWConnClose
    then show ?thesis by (simp add: own [OF wwr_conn])
  next
    case WWExit
    with exit have conn: "ws_connClosed s" by simp
    show ?thesis
    proof (cases "ws_rd s")
      case WRLoop
      then show ?thesis using conn by (blast intro: wown_end)
    qed (use WWExit pos in \<open>auto simp: ws_rank_def intro: read wrd_connect wrd_disconnect wrd_wg wrd_close\<close>)
  qed
qed

lemma ws_own_step_enabled: "ws_closing acc s \<Longrightarrow> 0 < ws_rank s \<Longrightarrow> \<exists>t. ws_own_step s t"
  by (rule ws_own_step_available)
    (auto simp: ws_closing_def ws_inv_def ws_fate_def udp_inv_def udp_control_inv_def)

interpretation ws_shutdown: progress_measure "ws_closing acc" ws_own_step "ws_closing acc" ws_own_step ws_rank for acc
  by unfold_locales (auto intro: ws_own_step_closing ws_own_step_enabled ws_own_step_rank)

section \<open>Properties\<close>

text \<open>
  The websocket sends what it accepted: while no nil message is accepted, the messages on the wire, then the
  one a failed write lost, the one the writer holds and the queued ones are the accepted messages in order;
  at most one close frame is written and nothing after it; nothing panics, and the callbacks run at most once.
\<close>

theorem ws_messages_in_order:
  assumes "reachable ws_init ws_step s" and "None \<notin> set (ws_accepted s)"
  shows "map Some (binary_of (ws_frames s) @ ws_lost s @ (case ws_wr s of WWSend m close \<Rightarrow> [m] | _ \<Rightarrow> []))
      @ ws_writeCh s = ws_accepted s
    \<and> (ws_frames s = map WsBinary (binary_of (ws_frames s)) \<or> ws_frames s = map WsBinary (binary_of (ws_frames s)) @ [WsCloseFrame])
    \<and> ws_panic s = None \<and> ws_connects s \<le> 1 \<and> ws_disconnects s \<le> ws_connects s"
proof -
  have inv: "ws_side s" "udp_inv (ws_abs s)" using ws_sys.inv_reachable [OF assms(1)] assms(2) by (simp_all add: ws_inv_def)
  let ?held = "case ws_wr s of WWSend m close \<Rightarrow> [m] | _ \<Rightarrow> []"
  have held: "uwr_pending (abs_wr (ws_wr s)) = map ws_dg ?held" by (cases "ws_wr s") simp_all
  have some: "map (Some \<circ> the) ms = ms" if "None \<notin> set ms" for ms :: "bytes option list"
    using that by (induction ms) auto
  have nn: "None \<notin> set (ws_writeCh s)" using inv(1) assms(2) by (auto simp: ws_side_def)
  have "map (\<lambda>m. (m, None)) (binary_of (ws_frames s)) @ map (\<lambda>m. (m, None)) (ws_lost s @ ?held @ map the (ws_writeCh s))
      = map (\<lambda>m. (m, None :: string option)) (map the (ws_accepted s))"
    using inv(2) by (simp add: udp_inv_def udp_data_inv_def held comp_def)
  from arg_cong [OF this, of "map (Some \<circ> fst)"]
  have "map Some (binary_of (ws_frames s) @ ws_lost s @ ?held) @ map (Some \<circ> the) (ws_writeCh s) = map (Some \<circ> the) (ws_accepted s)"
    by (simp add: comp_def)
  with some [OF nn] some [OF assms(2)] inv show ?thesis
    by (auto simp: ws_side_def udp_inv_def udp_control_inv_def split: wrd_pc.splits)
qed

text \<open>C7.
  \<open>Close\<close> flushes: from any reachable state that is not yet closed, with no nil message accepted and no failed write, every run of the two
  goroutines in which no further write fails is finite and ends in a state in which \<open>Close\<close> returns, and on the wire are exactly the accepted messages
  followed by the close frame; the connection is closed and \<open>onDisconnect\<close> has run once.
\<close>

theorem ws_close_flushes:
  assumes "reachable ws_init ws_step s" and "None \<notin> set (ws_accepted s)" and "ws_writeErr s = None"
    and "\<not> ws_closeOnce s"
  shows "runs_end ws_own_step (\<lambda>t. ws_Close_returns t \<and> ws_connClosed t \<and> ws_disconnects t = 1
    \<and> ws_frames t = map (WsBinary \<circ> the) (ws_accepted s) @ [WsCloseFrame]) (ws_forceClose s)"
proof (rule ws_shutdown.every_run_ends)
  let ?s = "ws_forceClose s"
  have inv: "ws_inv s" by (rule ws_sys.inv_reachable [OF assms(1)])
  then have u: "ws_side s" "udp_inv (ws_abs s)" using assms(2) by (simp_all add: ws_inv_def)
  have open': "\<not> ws_closeCh s" using u(2) assms(4) by (simp add: udp_inv_def udp_control_inv_def)
  have early: "\<not> uwr_left (abs_wr (ws_wr s))"
    using u(2) assms(3) open' by (auto simp: udp_inv_def udp_flush_inv_def)
  then have "ws_wr s \<noteq> WWConnClose \<and> ws_wr s \<noteq> WWExit" by auto
  with u(1) have "ws_framed s" by (metis no_close_frame ws_framed_def ws_side_def)
  moreover have "ws_inv ?s" by (rule ws_sys.inv_step [OF inv wstep_close])
  ultimately show "ws_closing (ws_accepted s) ?s"
    using assms(2,3,4) open' by (simp add: ws_closing_def ws_framed_def ws_fate_def ws_forceClose_def)
  fix t assume t: "ws_rank t = 0" and c: "ws_closing (ws_accepted s) t"
  have pcs: "ws_rd t = WRExit" "ws_wr t = WWExit" "ws_rank t = 0" using t
    by (cases "ws_rd t"; cases "ws_wr t"; simp add: ws_rank_def split: if_splits)+
  have acc: "ws_accepted t = ws_accepted s" "ws_closedAt t = length (ws_accepted s)" "ws_closeOnce t" "ws_writeErr t = None"
    and i: "ws_side t" "udp_data_inv (ws_abs t)" "udp_control_inv (ws_abs t)" "udp_flush_inv (ws_abs t)"
    using c assms(2) by (auto simp: ws_closing_def ws_fate_def ws_inv_def udp_inv_def)
  have data: "map (\<lambda>m. (m, None)) (binary_of (ws_frames t)) @ map (\<lambda>m. (m, None :: string option)) (map the (ws_writeCh t))
      = map (\<lambda>m. (m, None)) (map the (ws_accepted s))"
    using i(2) acc pcs by (auto simp: udp_data_inv_def comp_def)
  have "length (binary_of (ws_frames t)) + length (ws_writeCh t) = length (ws_accepted s)"
    using arg_cong [OF data, of length] by simp
  moreover have "length (ws_accepted s) \<le> length (binary_of (ws_frames t))"
    using i(4) acc pcs by (simp add: udp_flush_inv_def)
  ultimately have "ws_writeCh t = []" by (simp flip: length_0_conv)
  with arg_cong [OF data, of "map fst"] have bin: "binary_of (ws_frames t) = map the (ws_accepted s)"
    by (simp add: comp_def)
  have "ws_frames t = map WsBinary (binary_of (ws_frames t)) @ [WsCloseFrame]"
    using c pcs by (simp add: ws_closing_def ws_framed_def)
  with bin have "ws_frames t = map (WsBinary \<circ> the) (ws_accepted s) @ [WsCloseFrame]" by simp
  moreover have "ws_Close_returns t" "ws_connClosed t" "ws_disconnects t = 1"
    using i(1,3) acc pcs by (simp_all add: ws_Close_returns_def ws_WaitUntilClose_returns_def udp_control_inv_def ws_side_def)
  ultimately show "ws_Close_returns t \<and> ws_connClosed t \<and> ws_disconnects t = 1
      \<and> ws_frames t = map (WsBinary \<circ> the) (ws_accepted s) @ [WsCloseFrame]" by simp
qed

text \<open>
  A nil message ends the connection without a close: whatever is queued behind it is never
  written, although \<open>SendMsg\<close> returned no error for it, the close channel is open and nobody asked for the end.
\<close>

theorem ws_nil_message_ends:
  "\<exists>s t. ws_SendMsg NewWebsocket None = [(None, s)] \<and> ws_SendMsg s (Some m) = [(None, t)]
     \<and> (\<exists>u. steps ws_write_step t u \<and> ws_connClosed u \<and> \<not> ws_closeCh u \<and> ws_frames u = [WsCloseFrame]
          \<and> ws_writeCh u = [Some m] \<and> (\<forall>v. \<not> ws_write_step u v))"
proof -
  let ?s = "NewWebsocket\<lparr>ws_writeCh := [None], ws_accepted := [None]\<rparr>"
  let ?t = "NewWebsocket\<lparr>ws_writeCh := [None, Some m], ws_accepted := [None, Some m]\<rparr>"
  let ?t1 = "?t\<lparr>ws_wr := WWDone, ws_writeCh := [Some m]\<rparr>"
  let ?t2 = "?t1\<lparr>ws_wr := WWCloseMsg, ws_wg := 1\<rparr>"
  let ?t3 = "?t2\<lparr>ws_wr := WWConnClose, ws_frames := [WsCloseFrame]\<rparr>"
  let ?u = "?t3\<lparr>ws_wr := WWExit, ws_connClosed := True\<rparr>"
  have send: "ws_SendMsg NewWebsocket None = [(None, ?s)]" "ws_SendMsg ?s (Some m) = [(None, ?t)]"
    by (simp_all add: ws_SendMsg_def select_send_def NewWebsocket_def writeChanLimit_def)
  have "ws_write_step ?t ?t1" using wwr_nil [of ?t False "[Some m]"] by (simp add: NewWebsocket_def)
  moreover have "ws_write_step ?t1 ?t2" using wwr_wg [of ?t1] by (simp add: NewWebsocket_def ws_wg_Done_def)
  moreover have "ws_write_step ?t2 ?t3" using wwr_close_frame [of ?t2] by (simp add: NewWebsocket_def)
  moreover have "ws_write_step ?t3 ?u" using wwr_conn [of ?t3] by (simp add: NewWebsocket_def)
  ultimately have "steps ws_write_step ?t ?u" by (blast intro: steps.intros)
  moreover have "\<not> ws_write_step ?u v" for v by (auto elim: ws_write_step.cases)
  ultimately have "steps ws_write_step ?t ?u \<and> ws_connClosed ?u \<and> \<not> ws_closeCh ?u \<and> ws_frames ?u = [WsCloseFrame]
      \<and> ws_writeCh ?u = [Some m] \<and> (\<forall>v. \<not> ws_write_step ?u v)" by (simp add: NewWebsocket_def)
  with send show ?thesis by blast
qed

section \<open>Witnesses\<close>

definition ws_sent1 :: websocket where
  "ws_sent1 = NewWebsocket\<lparr>ws_writeCh := [Some [7]], ws_accepted := [Some [7]]\<rparr>"

lemma ws_sent1_reachable: "reachable ws_init ws_step ws_sent1"
proof -
  have "reachable ws_init ws_step NewWebsocket" by (rule reach_init) (simp add: ws_init_def)
  moreover have "(None, ws_sent1) \<in> set (ws_SendMsg NewWebsocket (Some [7]))"
    by (simp add: ws_SendMsg_def select_send_def ws_sent1_def NewWebsocket_def writeChanLimit_def)
  then have "ws_step NewWebsocket ws_sent1" by (rule wstep_send)
  ultimately show ?thesis by (rule reach_step)
qed

theorem ws_messages_in_order_witness: "ws_panic ws_sent1 = None \<and> ws_writeCh ws_sent1 = ws_accepted ws_sent1"
  using ws_messages_in_order [OF ws_sent1_reachable] by (simp add: ws_sent1_def NewWebsocket_def)

theorem ws_close_flushes_witness:
  "\<exists>t. steps ws_own_step (ws_forceClose ws_sent1) t \<and> ws_Close_returns t \<and> ws_frames t = [WsBinary [7], WsCloseFrame]"
proof -
  have "runs_end ws_own_step (\<lambda>t. ws_Close_returns t \<and> ws_connClosed t \<and> ws_disconnects t = 1
      \<and> ws_frames t = map (WsBinary \<circ> the) (ws_accepted ws_sent1) @ [WsCloseFrame]) (ws_forceClose ws_sent1)"
    by (rule ws_close_flushes [OF ws_sent1_reachable]) (simp_all add: ws_sent1_def NewWebsocket_def)
  from runs_end_reaches [OF this] show ?thesis by (auto simp: ws_sent1_def NewWebsocket_def)
qed

end
