(* ===== verification/Udp_Client.thy ===== *)
theory Udp_Client
  imports Udp_Server
begin

text \<open>
  The UDP client of \<open>pkg/xnet/udp_client.go\<close>: \<open>builtInUDP\<close> joins one socket of \<open>Udp_Socket\<close>, one session of \<open>Udp_Session\<close>
  and a check loop that closes both when the peer has been silent. \<open>forceClose\<close> runs once, in the check loop or in
  a caller of \<open>Close\<close>, and whoever comes second waits for it.
\<close>

section \<open>State\<close>

text \<open>\<open>newBuiltInUDP\<close> once the socket runs: at \<open>NewUDPSession\<close>, at the store of its result, at the start of the check loop, returned.\<close>

datatype bn_pc = BnSession | BnStore | BnCheck | BnReady

text \<open>\<open>checkLoop\<close>: not started, waiting, at the test of the session, in \<open>forceClose\<close>, at \<open>wg.Done\<close>, gone.\<close>

datatype bc_pc = BcOff | BcWait | BcTest | BcForce | BcDone | BcExit

text \<open>A caller of \<open>Close\<close>: not yet, in \<open>forceClose\<close>, in \<open>wg.Wait\<close>, returned.\<close>

datatype bu_pc = BuIdle | BuForce | BuWait | BuClosed

text \<open>The body of \<open>closeOnce.Do\<close>: at each of its calls, the waits inside \<open>session.Close\<close> and \<open>sock.close\<close>, ended.\<close>

datatype bf_pc = BfSession | BfSessionWait | BfSock | BfSockWait | BfCloseCh | BfEnded

record 'st udp_client =
  uc_new :: bn_pc
  uc_sock :: udp_socket
  uc_session :: "'st udp_session option"
  uc_ck :: bc_pc
  uc_user :: bu_pc
  uc_once :: "bf_pc option"
  uc_closeCh :: bool
  uc_wg :: int
  uc_panic :: "go_panic option"

definition newBuiltInUDP :: "'st udp_client" where
  "newBuiltInUDP =
     \<lparr>uc_new = BnSession, uc_sock = NewUDPSocket False, uc_session = None, uc_ck = BcOff, uc_user = BuIdle,
      uc_once = None, uc_closeCh = False, uc_wg = 0, uc_panic = None\<rparr>"

section \<open>Operations\<close>

inductive uc_new_step :: "string \<Rightarrow> 'st udp_client \<Rightarrow> 'st udp_client \<Rightarrow> bool" for addr where
  bn_session: "uc_new s = BnSession \<Longrightarrow>
    uc_new_step addr s (s\<lparr>uc_session := Some (NewUDPSession addr now), uc_new := BnStore\<rparr>)"
| bn_store: "uc_new s = BnStore \<Longrightarrow> uc_new_step addr s (s\<lparr>uc_new := BnCheck\<rparr>)"
| bn_check: "uc_new s = BnCheck \<Longrightarrow> uc_new_step addr s (s\<lparr>uc_wg := uc_wg s + 1, uc_ck := BcWait, uc_new := BnReady\<rparr>)"

text \<open>The field \<open>biudp.session\<close>: nil until it is stored.\<close>

definition biudp_session :: "'st udp_client \<Rightarrow> 'st udp_session option" where
  "biudp_session s = (if uc_new s = BnSession \<or> uc_new s = BnStore then None else uc_session s)"

text \<open>\<open>udpOnMsg\<close>, in the socket's read loop; what is refused is logged.\<close>

definition biudp_udpOnMsg :: "'st udp_client \<Rightarrow> bytes \<Rightarrow> i64 \<Rightarrow> 'st udp_client list" where
  "biudp_udpOnMsg s msg now =
     (case biudp_session s of
        None \<Rightarrow> [s\<lparr>uc_panic := Some NilDeref\<rparr>]
      | Some x \<Rightarrow> map (\<lambda>(r, y). s\<lparr>uc_session := Some y\<rparr>) (session_recvMsg x msg now))"

definition biudp_sendMsg :: "'st udp_client \<Rightarrow> bytes \<Rightarrow> (go_error option \<times> 'st udp_client) list" where
  "biudp_sendMsg s msg =
     (case biudp_session s of
        None \<Rightarrow> [(None, s\<lparr>uc_panic := Some NilDeref\<rparr>)]
      | Some x \<Rightarrow> map (\<lambda>(r, k). (r, s\<lparr>uc_sock := k\<rparr>)) (udp_sendMsg (uc_sock s) \<lparr>ug_msg = msg, ug_addr = se_addr x\<rparr>))"

text \<open>The body of \<open>closeOnce.Do\<close>.\<close>

inductive biudp_forceClose :: "'st udp_client \<Rightarrow> 'st udp_client \<Rightarrow> bool" where
  bf_session: "uc_once s = Some BfSession \<Longrightarrow> biudp_session s = Some x \<Longrightarrow>
    biudp_forceClose s (s\<lparr>uc_session := Some (session_forceClose x), uc_once := Some BfSessionWait\<rparr>)"
| bf_session_wait: "uc_once s = Some BfSessionWait \<Longrightarrow> biudp_session s = Some x \<Longrightarrow> session_Close_returns x \<Longrightarrow>
    biudp_forceClose s (s\<lparr>uc_once := Some BfSock\<rparr>)"
| bf_sock: "uc_once s = Some BfSock \<Longrightarrow>
    biudp_forceClose s (s\<lparr>uc_sock := udp_forceClose (uc_sock s), uc_once := Some BfSockWait\<rparr>)"
| bf_sock_wait: "uc_once s = Some BfSockWait \<Longrightarrow> udp_close_returns (uc_sock s) \<Longrightarrow>
    biudp_forceClose s (s\<lparr>uc_once := Some BfCloseCh\<rparr>)"
| bf_closeCh: "uc_once s = Some BfCloseCh \<Longrightarrow>
    biudp_forceClose s (if uc_closeCh s then s\<lparr>uc_panic := Some CloseOfClosed\<rparr>
                        else s\<lparr>uc_closeCh := True, uc_once := Some BfEnded\<rparr>)"

definition uc_wg_Done :: "'st udp_client \<Rightarrow> 'st udp_client" where
  "uc_wg_Done s = (if uc_wg s \<le> 0 then s\<lparr>uc_panic := Some NegativeWaitGroup\<rparr> else s\<lparr>uc_wg := uc_wg s - 1\<rparr>)"

inductive biudp_checkLoop :: "i64 \<Rightarrow> 'st udp_client \<Rightarrow> 'st udp_client \<Rightarrow> bool" for timeout where
  bc_tick: "uc_ck s = BcWait \<Longrightarrow> biudp_checkLoop timeout s (s\<lparr>uc_ck := BcTest\<rparr>)"
| bc_closed: "uc_ck s = BcWait \<Longrightarrow> uc_closeCh s \<Longrightarrow> biudp_checkLoop timeout s (s\<lparr>uc_ck := BcDone\<rparr>)"
| bc_test: "uc_ck s = BcTest \<Longrightarrow> biudp_session s = Some x \<Longrightarrow>
    biudp_checkLoop timeout s (s\<lparr>uc_ck := (if expired timeout now x then BcForce else BcWait)\<rparr>)"
| bc_first: "uc_ck s = BcForce \<Longrightarrow> uc_once s = None \<Longrightarrow> biudp_checkLoop timeout s (s\<lparr>uc_once := Some BfSession\<rparr>)"
| bc_forced: "uc_ck s = BcForce \<Longrightarrow> uc_once s = Some BfEnded \<Longrightarrow> biudp_checkLoop timeout s (s\<lparr>uc_ck := BcDone\<rparr>)"
| bc_done: "uc_ck s = BcDone \<Longrightarrow> biudp_checkLoop timeout s (uc_wg_Done (s\<lparr>uc_ck := BcExit\<rparr>))"

inductive biudp_close :: "'st udp_client \<Rightarrow> 'st udp_client \<Rightarrow> bool" where
  bu_close: "uc_new s = BnReady \<Longrightarrow> uc_user s = BuIdle \<or> uc_user s = BuClosed \<Longrightarrow> biudp_close s (s\<lparr>uc_user := BuForce\<rparr>)"
| bu_first: "uc_user s = BuForce \<Longrightarrow> uc_once s = None \<Longrightarrow> biudp_close s (s\<lparr>uc_once := Some BfSession\<rparr>)"
| bu_forced: "uc_user s = BuForce \<Longrightarrow> uc_once s = Some BfEnded \<Longrightarrow> biudp_close s (s\<lparr>uc_user := BuWait\<rparr>)"
| bu_wait: "uc_user s = BuWait \<Longrightarrow> uc_wg s = 0 \<Longrightarrow> biudp_close s (s\<lparr>uc_user := BuClosed\<rparr>)"

text \<open>
  Everything that runs, until a panic. The read loop's datagram is \<open>udpOnMsg\<close>; \<open>uc_answer\<close> is the handler that
  answers through its session.
\<close>

inductive uc_step :: "i64 \<Rightarrow> string \<Rightarrow> (string \<Rightarrow> 'st) \<Rightarrow> 'st on_handler_once \<Rightarrow> 'st udp_client \<Rightarrow> 'st udp_client \<Rightarrow> bool"
  for timeout addr conn onMsg where
  uc_create: "uc_panic s = None \<Longrightarrow> uc_new_step addr s t \<Longrightarrow> uc_step timeout addr conn onMsg s t"
| uc_datagram: "uc_panic s = None \<Longrightarrow> us_rd (uc_sock s) = URLoop \<Longrightarrow> t \<in> set (biudp_udpOnMsg s msg now) \<Longrightarrow>
    uc_step timeout addr conn onMsg s t"
| uc_sock_read: "uc_panic s = None \<Longrightarrow> udp_read_step (uc_sock s) k \<Longrightarrow> uc_step timeout addr conn onMsg s (s\<lparr>uc_sock := k\<rparr>)"
| uc_sock_write: "uc_panic s = None \<Longrightarrow> udp_write_step (uc_sock s) k \<Longrightarrow> uc_step timeout addr conn onMsg s (s\<lparr>uc_sock := k\<rparr>)"
| uc_handler: "uc_panic s = None \<Longrightarrow> uc_session s = Some x \<Longrightarrow> session_step conn onMsg x y \<Longrightarrow>
    uc_step timeout addr conn onMsg s (s\<lparr>uc_session := Some y\<rparr>)"
| uc_answer: "uc_panic s = None \<Longrightarrow> uc_session s = Some x \<Longrightarrow> (r, k) \<in> set (session_SendMsg x msg (uc_sock s)) \<Longrightarrow>
    uc_step timeout addr conn onMsg s (s\<lparr>uc_sock := k\<rparr>)"
| uc_send: "uc_panic s = None \<Longrightarrow> uc_new s = BnReady \<Longrightarrow> (r, t) \<in> set (biudp_sendMsg s msg) \<Longrightarrow>
    uc_step timeout addr conn onMsg s t"
| uc_force: "uc_panic s = None \<Longrightarrow> biudp_forceClose s t \<Longrightarrow> uc_step timeout addr conn onMsg s t"
| uc_check: "uc_panic s = None \<Longrightarrow> biudp_checkLoop timeout s t \<Longrightarrow> uc_step timeout addr conn onMsg s t"
| uc_close: "uc_panic s = None \<Longrightarrow> biudp_close s t \<Longrightarrow> uc_step timeout addr conn onMsg s t"

definition uc_init :: "'st udp_client \<Rightarrow> bool" where
  "uc_init s \<longleftrightarrow> s = newBuiltInUDP"

section \<open>Invariant\<close>

text \<open>Whether the session, and the socket, have been closed and waited for.\<close>

fun bf_session_joined :: "bf_pc option \<Rightarrow> bool" where
  "bf_session_joined None = False"
| "bf_session_joined (Some BfSession) = False"
| "bf_session_joined (Some BfSessionWait) = False"
| "bf_session_joined _ = True"

fun bf_sock_joined :: "bf_pc option \<Rightarrow> bool" where
  "bf_sock_joined (Some BfCloseCh) = True"
| "bf_sock_joined (Some BfEnded) = True"
| "bf_sock_joined _ = False"

definition uc_parts_inv :: "(string \<Rightarrow> 'st) \<Rightarrow> 'st on_handler_once \<Rightarrow> 'st udp_client \<Rightarrow> bool" where
  "uc_parts_inv conn onMsg s \<longleftrightarrow> udp_inv (uc_sock s) \<and> (\<forall>x. uc_session s = Some x \<longrightarrow> session_inv conn onMsg x)
     \<and> (uc_session s = None \<longleftrightarrow> uc_new s = BnSession)"

definition uc_close_inv :: "'st udp_client \<Rightarrow> bool" where
  "uc_close_inv s \<longleftrightarrow> (\<forall>x. uc_session s = Some x \<and> bf_session_joined (uc_once s) \<longrightarrow> session_Close_returns x)
     \<and> (\<forall>x. uc_session s = Some x \<and> uc_once s = Some BfSessionWait \<longrightarrow> se_closeOnce x)
     \<and> (uc_once s = Some BfSockWait \<longrightarrow> us_closeOnce (uc_sock s))
     \<and> (bf_sock_joined (uc_once s) \<longrightarrow> udp_close_returns (uc_sock s))"

definition uc_control_inv :: "'st udp_client \<Rightarrow> bool" where
  "uc_control_inv s \<longleftrightarrow> uc_wg s = (if uc_ck s = BcOff \<or> uc_ck s = BcExit then 0 else 1)
     \<and> (uc_ck s = BcOff \<longleftrightarrow> uc_new s \<noteq> BnReady)
     \<and> (uc_user s \<noteq> BuIdle \<or> uc_once s \<noteq> None \<longrightarrow> uc_new s = BnReady)
     \<and> (uc_closeCh s \<longleftrightarrow> uc_once s = Some BfEnded)
     \<and> (uc_ck s = BcDone \<or> uc_ck s = BcExit \<longrightarrow> uc_closeCh s)
     \<and> (uc_user s = BuWait \<or> uc_user s = BuClosed \<longrightarrow> uc_closeCh s)
     \<and> (uc_user s = BuClosed \<longrightarrow> uc_ck s = BcExit)
     \<and> (uc_panic s \<noteq> None \<longrightarrow> uc_panic s = Some NilDeref \<and> (uc_new s = BnSession \<or> uc_new s = BnStore))"

definition uc_inv :: "(string \<Rightarrow> 'st) \<Rightarrow> 'st on_handler_once \<Rightarrow> 'st udp_client \<Rightarrow> bool" where
  "uc_inv conn onMsg s \<longleftrightarrow> uc_parts_inv conn onMsg s \<and> uc_close_inv s \<and> uc_control_inv s"

lemmas uc_inv_defs = uc_inv_def uc_parts_inv_def uc_close_inv_def uc_control_inv_def

text \<open>What the socket never undoes.\<close>

definition udp_evolves :: "udp_socket \<Rightarrow> udp_socket \<Rightarrow> bool" where
  "udp_evolves x y \<longleftrightarrow> udp_inv y \<and> (us_closeOnce x \<longrightarrow> us_closeOnce y) \<and> (udp_close_returns x \<longrightarrow> udp_close_returns y)"

lemma udp_evolves_step:
  assumes "udp_step x y" and "udp_inv x"
  shows "udp_evolves x y"
proof -
  have "us_closeOnce x \<longrightarrow> us_closeOnce y" using assms(1)
    by (auto elim!: udp_step.cases udp_read_step.cases udp_write_step.cases simp: udp_sendMsg_def udp_forceClose_def)
  moreover have "us_wg x = 0 \<longrightarrow> us_wg y = 0" using assms
    by (auto elim!: udp_step.cases udp_read_step.cases udp_write_step.cases
        simp: udp_sendMsg_def udp_forceClose_def udp_wg_Done_def udp_inv_def udp_control_inv_def)
  ultimately show ?thesis using udp_sys.inv_step [OF assms(2,1)] by (simp add: udp_evolves_def udp_close_returns_def)
qed

lemma uc_control_frame [simp]:
  "uc_control_inv (s\<lparr>uc_sock := k\<rparr>) = uc_control_inv s" "uc_control_inv (s\<lparr>uc_session := x\<rparr>) = uc_control_inv s"
  by (simp_all add: uc_control_inv_def)

lemma uc_put_sock:
  assumes "uc_inv conn onMsg s" and "udp_evolves (uc_sock s) k"
  shows "uc_inv conn onMsg (s\<lparr>uc_sock := k\<rparr>)"
proof -
  have i: "uc_parts_inv conn onMsg s" "uc_close_inv s" "uc_control_inv s" using assms(1) by (simp_all add: uc_inv_def)
  have "uc_parts_inv conn onMsg (s\<lparr>uc_sock := k\<rparr>)" using i(1) assms(2) by (simp add: uc_parts_inv_def udp_evolves_def)
  moreover have "uc_close_inv (s\<lparr>uc_sock := k\<rparr>)" using i(2) assms(2) unfolding uc_close_inv_def udp_evolves_def by simp
  moreover have "uc_control_inv (s\<lparr>uc_sock := k\<rparr>)" using i(3) by simp
  ultimately show ?thesis by (simp add: uc_inv_def)
qed

lemma uc_put_session:
  assumes "uc_inv conn onMsg s" and "uc_session s = Some x" and "evolves conn onMsg x y"
  shows "uc_inv conn onMsg (s\<lparr>uc_session := Some y\<rparr>)"
proof -
  have i: "uc_parts_inv conn onMsg s" "uc_close_inv s" "uc_control_inv s" using assms(1) by (simp_all add: uc_inv_def)
  have "uc_parts_inv conn onMsg (s\<lparr>uc_session := Some y\<rparr>)" using i(1) assms(2,3) by (simp add: uc_parts_inv_def evolves_def)
  moreover have "uc_close_inv (s\<lparr>uc_session := Some y\<rparr>)" using i(2) assms(2,3) by (simp add: uc_close_inv_def evolves_def)
  moreover have "uc_control_inv (s\<lparr>uc_session := Some y\<rparr>)" using i(3) by simp
  ultimately show ?thesis by (simp add: uc_inv_def)
qed

lemma biudp_session_Some: "biudp_session s = Some x \<Longrightarrow> uc_session s = Some x"
  by (simp add: biudp_session_def split: if_splits)

lemma uc_new_step_inv: "uc_new_step addr s t \<Longrightarrow> uc_inv conn onMsg s \<Longrightarrow> uc_panic s = None \<Longrightarrow> uc_inv conn onMsg t"
proof (induction rule: uc_new_step.induct)
  case (bn_session s now)
  have "session_inv conn onMsg (NewUDPSession addr now)"
    by (rule session_sys.inv_init) (auto simp: session_init_def)
  with bn_session show ?case by (auto simp: uc_inv_defs)
qed (auto simp: uc_inv_defs)

lemma uc_parts_frame [simp]:
  "uc_parts_inv conn onMsg (s\<lparr>uc_once := c\<rparr>) = uc_parts_inv conn onMsg s"
  "uc_parts_inv conn onMsg (s\<lparr>uc_ck := k\<rparr>) = uc_parts_inv conn onMsg s"
  "uc_parts_inv conn onMsg (s\<lparr>uc_user := u\<rparr>) = uc_parts_inv conn onMsg s"
  "uc_parts_inv conn onMsg (s\<lparr>uc_wg := n\<rparr>) = uc_parts_inv conn onMsg s"
  "uc_parts_inv conn onMsg (s\<lparr>uc_panic := p\<rparr>) = uc_parts_inv conn onMsg s"
  "uc_parts_inv conn onMsg (s\<lparr>uc_closeCh := b\<rparr>) = uc_parts_inv conn onMsg s"
  by (simp_all add: uc_parts_inv_def)

lemma uc_close_frame [simp]:
  "uc_close_inv (s\<lparr>uc_ck := k\<rparr>) = uc_close_inv s" "uc_close_inv (s\<lparr>uc_user := u\<rparr>) = uc_close_inv s"
  "uc_close_inv (s\<lparr>uc_wg := n\<rparr>) = uc_close_inv s" "uc_close_inv (s\<lparr>uc_panic := p\<rparr>) = uc_close_inv s"
  "uc_close_inv (s\<lparr>uc_closeCh := b\<rparr>) = uc_close_inv s"
  by (simp_all add: uc_close_inv_def)

lemma biudp_forceClose_parts:
  "biudp_forceClose s t \<Longrightarrow> uc_parts_inv conn onMsg s \<Longrightarrow> uc_parts_inv conn onMsg t"
proof (induction rule: biudp_forceClose.induct)
  case (bf_session s x)
  then show ?case using biudp_session_Some [of s x]
    by (simp add: uc_parts_inv_def session_forceClose_inv)
next
  case (bf_sock s)
  then show ?case by (simp add: uc_parts_inv_def udp_forceClose_inv)
qed simp_all

lemma biudp_forceClose_close: "biudp_forceClose s t \<Longrightarrow> uc_close_inv s \<Longrightarrow> uc_close_inv t"
proof (induction rule: biudp_forceClose.induct)
  case (bf_session_wait s x)
  then show ?case using biudp_session_Some [of s x] by (simp add: uc_close_inv_def)
next
  case (bf_sock s)
  then show ?case by (simp add: uc_close_inv_def udp_forceClose_def)
qed (simp_all add: uc_close_inv_def)

lemma biudp_forceClose_control: "biudp_forceClose s t \<Longrightarrow> uc_control_inv s \<Longrightarrow> uc_control_inv t"
  by (induction rule: biudp_forceClose.induct) (auto simp: uc_control_inv_def)

lemma biudp_forceClose_inv: "biudp_forceClose s t \<Longrightarrow> uc_inv conn onMsg s \<Longrightarrow> uc_inv conn onMsg t"
  by (simp add: uc_inv_def biudp_forceClose_parts biudp_forceClose_close biudp_forceClose_control)

lemma biudp_checkLoop_control: "biudp_checkLoop timeout s t \<Longrightarrow> uc_control_inv s \<Longrightarrow> uc_control_inv t"
  by (induction rule: biudp_checkLoop.induct) (auto simp: uc_control_inv_def uc_wg_Done_def)

lemma biudp_checkLoop_inv: "biudp_checkLoop timeout s t \<Longrightarrow> uc_inv conn onMsg s \<Longrightarrow> uc_inv conn onMsg t"
proof -
  assume s: "biudp_checkLoop timeout s t" "uc_inv conn onMsg s"
  then have "uc_parts_inv conn onMsg t \<and> uc_close_inv t"
    by (induction rule: biudp_checkLoop.induct) (simp_all add: uc_inv_def uc_wg_Done_def, simp add: uc_close_inv_def)
  with s biudp_checkLoop_control show ?thesis by (auto simp: uc_inv_def)
qed

lemma biudp_close_control: "biudp_close s t \<Longrightarrow> uc_control_inv s \<Longrightarrow> uc_control_inv t"
  by (induction rule: biudp_close.induct) (auto simp: uc_control_inv_def)

lemma biudp_close_inv: "biudp_close s t \<Longrightarrow> uc_inv conn onMsg s \<Longrightarrow> uc_inv conn onMsg t"
proof -
  assume s: "biudp_close s t" "uc_inv conn onMsg s"
  then have "uc_parts_inv conn onMsg t \<and> uc_close_inv t"
    by (induction rule: biudp_close.induct) (simp_all add: uc_inv_def, simp add: uc_close_inv_def)
  with s biudp_close_control show ?thesis by (auto simp: uc_inv_def)
qed

interpretation uc_sys: inductive_invariant uc_init "uc_step timeout addr conn onMsg" "uc_inv conn onMsg"
  for timeout addr conn onMsg
proof
  show "uc_inv conn onMsg s" if "uc_init s" for s
  proof -
    have "udp_inv (NewUDPSocket False)" by (rule udp_sys.inv_init [of False]) (simp add: udp_init_def)
    then have "uc_parts_inv conn onMsg newBuiltInUDP" by (simp add: uc_parts_inv_def newBuiltInUDP_def)
    moreover have "uc_close_inv newBuiltInUDP" by (simp add: uc_close_inv_def newBuiltInUDP_def)
    moreover have "uc_control_inv newBuiltInUDP" by (simp add: uc_control_inv_def newBuiltInUDP_def)
    ultimately show ?thesis using that by (simp add: uc_inv_def uc_init_def)
  qed
  show "uc_inv conn onMsg t" if "uc_inv conn onMsg s" "uc_step timeout addr conn onMsg s t" for s t
    using that(2,1)
  proof (induction rule: uc_step.induct)
    case (uc_datagram s t msg now)
    show ?case
    proof (cases "biudp_session s")
      case None
      with uc_datagram have "t = s\<lparr>uc_panic := Some NilDeref\<rparr>" by (simp add: biudp_udpOnMsg_def)
      moreover have "uc_new s = BnSession \<or> uc_new s = BnStore"
        using None uc_datagram.prems by (auto simp: biudp_session_def uc_inv_def uc_parts_inv_def split: if_splits)
      moreover have "uc_control_inv s \<Longrightarrow> uc_new s = BnSession \<or> uc_new s = BnStore \<Longrightarrow>
          uc_control_inv (s\<lparr>uc_panic := Some NilDeref\<rparr>)" by (auto simp: uc_control_inv_def)
      ultimately show ?thesis using uc_datagram.prems by (simp add: uc_inv_def)
    next
      case (Some x)
      with uc_datagram obtain r y where "(r, y) \<in> set (session_recvMsg x msg now)" "t = s\<lparr>uc_session := Some y\<rparr>"
        by (auto simp: biudp_udpOnMsg_def)
      with uc_datagram.prems biudp_session_Some [OF Some] show ?thesis by (auto intro: uc_put_session evolves_recvMsg)
    qed
  next
    case (uc_handler s x y)
    then have "session_inv conn onMsg x" by (simp add: uc_inv_defs)
    with uc_handler show ?case by (auto intro: uc_put_session evolves_step)
  next
    case (uc_send s r t msg)
    then obtain x where x: "uc_session s = Some x" "biudp_session s = Some x"
      by (cases "uc_session s") (auto simp: uc_inv_defs biudp_session_def)
    with uc_send obtain k where k: "(r, k) \<in> set (udp_sendMsg (uc_sock s) \<lparr>ug_msg = msg, ug_addr = se_addr x\<rparr>)"
      "t = s\<lparr>uc_sock := k\<rparr>" by (auto simp: biudp_sendMsg_def)
    have "udp_evolves (uc_sock s) k" using uc_send.prems by (intro udp_evolves_step ustep_send [OF k(1)]) (simp add: uc_inv_defs)
    with uc_send.prems k(2) show ?case by (auto intro: uc_put_sock)
  next
    case (uc_answer s x r k msg)
    have "udp_evolves (uc_sock s) k" using uc_answer
      by (intro udp_evolves_step ustep_send [of r _ _ "\<lparr>ug_msg = msg, ug_addr = se_addr x\<rparr>"])
        (simp_all add: uc_inv_defs session_SendMsg_def)
    with uc_answer.prems show ?case by (auto intro: uc_put_sock)
  next
    case (uc_sock_read s k)
    have "udp_evolves (uc_sock s) k" using uc_sock_read by (intro udp_evolves_step ustep_read) (simp_all add: uc_inv_defs)
    with uc_sock_read.prems show ?case by (rule uc_put_sock)
  next
    case (uc_sock_write s k)
    have "udp_evolves (uc_sock s) k" using uc_sock_write by (intro udp_evolves_step ustep_write) (simp_all add: uc_inv_defs)
    with uc_sock_write.prems show ?case by (rule uc_put_sock)
  qed (auto intro: uc_new_step_inv biudp_forceClose_inv biudp_checkLoop_inv biudp_close_inv)
qed

section \<open>The shut down ends\<close>

text \<open>The client's own steps: the socket's and the session's goroutines, \<open>forceClose\<close>, the check loop and the caller of \<open>Close\<close>.\<close>

inductive uc_own_step :: "i64 \<Rightarrow> (string \<Rightarrow> 'st) \<Rightarrow> 'st on_handler_once \<Rightarrow> 'st udp_client \<Rightarrow> 'st udp_client \<Rightarrow> bool"
  for timeout conn onMsg where
  uco_sock: "uc_panic s = None \<Longrightarrow> udp_own_step (uc_sock s) k \<Longrightarrow> uc_own_step timeout conn onMsg s (s\<lparr>uc_sock := k\<rparr>)"
| uco_handler: "uc_panic s = None \<Longrightarrow> uc_session s = Some x \<Longrightarrow> session_step conn onMsg x y \<Longrightarrow>
    uc_own_step timeout conn onMsg s (s\<lparr>uc_session := Some y\<rparr>)"
| uco_force: "uc_panic s = None \<Longrightarrow> biudp_forceClose s t \<Longrightarrow> uc_own_step timeout conn onMsg s t"
| uco_check: "uc_panic s = None \<Longrightarrow> biudp_checkLoop timeout s t \<Longrightarrow> uc_own_step timeout conn onMsg s t"
| uco_close: "uc_panic s = None \<Longrightarrow> biudp_close s t \<Longrightarrow> uc_own_step timeout conn onMsg s t"

lemma uc_own_step_sys: "uc_own_step timeout conn onMsg s t \<Longrightarrow> uc_step timeout addr conn onMsg s t"
proof (induction rule: uc_own_step.induct)
  case (uco_sock s k)
  from uco_sock(2,1) show ?case
    by (cases rule: udp_own_step.cases) (auto intro: uc_sock_read uc_sock_write urd_err)
qed (auto intro: uc_step.intros)

lemma uc_own_steps_inv: "steps (uc_own_step timeout conn onMsg) s t \<Longrightarrow> uc_inv conn onMsg s \<Longrightarrow> uc_inv conn onMsg t"
  by (induction rule: steps.induct) (auto intro: uc_sys.inv_step uc_own_step_sys)

lemma uc_sock_steps:
  "steps udp_own_step x y \<Longrightarrow> uc_panic s = None \<Longrightarrow> steps (uc_own_step timeout conn onMsg) (s\<lparr>uc_sock := x\<rparr>) (s\<lparr>uc_sock := y\<rparr>)"
proof (induction rule: steps.induct)
  case (steps_trans x y z)
  have "uc_own_step timeout conn onMsg (s\<lparr>uc_sock := x\<rparr>) ((s\<lparr>uc_sock := x\<rparr>)\<lparr>uc_sock := y\<rparr>)"
    using steps_trans by (intro uco_sock) simp_all
  with steps_trans show ?case by (simp add: steps.steps_trans)
qed (rule steps_refl)

lemma uc_put_once: "s\<lparr>uc_once := c, uc_session := x\<rparr> = s\<lparr>uc_session := x, uc_once := c\<rparr>"
  "s\<lparr>uc_once := c, uc_sock := k\<rparr> = s\<lparr>uc_sock := k, uc_once := c\<rparr>"
  by simp_all

lemma uc_session_steps:
  "steps (session_step conn onMsg) x y \<Longrightarrow> uc_panic s = None \<Longrightarrow>
     steps (uc_own_step timeout conn onMsg) (s\<lparr>uc_session := Some x\<rparr>) (s\<lparr>uc_session := Some y\<rparr>)"
proof (induction rule: steps.induct)
  case (steps_trans x y z)
  have "uc_own_step timeout conn onMsg (s\<lparr>uc_session := Some x\<rparr>) ((s\<lparr>uc_session := Some x\<rparr>)\<lparr>uc_session := Some y\<rparr>)"
    using steps_trans by (intro uco_handler) simp_all
  with steps_trans show ?case by (simp add: steps.steps_trans)
qed (rule steps_refl)

text \<open>What a run of \<open>forceClose\<close> needs of the client: made, its handler and its socket not failed.\<close>

definition uc_sound :: "'st on_handler_once \<Rightarrow> 'st udp_client \<Rightarrow> bool" where
  "uc_sound onMsg s \<longleftrightarrow> uc_panic s = None \<and> uc_new s = BnReady \<and> (\<forall>st m. no_panic (onMsg st m))
     \<and> (\<forall>x. uc_session s = Some x \<longrightarrow> se_panic x = None)
     \<and> us_writeErr (uc_sock s) = None \<and> \<not> us_closeOnce (uc_sock s)"

text \<open>What it leaves.\<close>

definition uc_ended :: "'st udp_client \<Rightarrow> 'st udp_client \<Rightarrow> bool" where
  "uc_ended s t \<longleftrightarrow> uc_once t = Some BfEnded \<and> uc_closeCh t \<and> uc_panic t = None
     \<and> (\<exists>y. uc_session t = Some y \<and> session_Close_returns y \<and> se_disconnected y \<noteq> None)
     \<and> udp_close_returns (uc_sock t) \<and> us_connClosed (uc_sock t)
     \<and> us_sent (uc_sock t) = map (udp_out (uc_sock s)) (us_accepted (uc_sock s))"

lemma uc_force_runs:
  assumes inv: "uc_inv conn onMsg s" and once: "uc_once s = Some BfSession" and sound: "uc_sound onMsg s"
  shows "\<exists>t. steps (uc_own_step timeout conn onMsg) s t \<and> uc_ended s t
    \<and> uc_ck t = uc_ck s \<and> uc_user t = uc_user s \<and> uc_wg t = uc_wg s"
proof -
  have p: "uc_panic s = None" and ready: "uc_new s = BnReady" using sound by (simp_all add: uc_sound_def)
  obtain x where x: "uc_session s = Some x"
    using inv ready by (cases "uc_session s") (simp_all add: uc_inv_def uc_parts_inv_def)
  have bx: "biudp_session s = Some x" using x ready by (simp add: biudp_session_def)
  have "session_inv conn onMsg x" "se_panic x = None" "\<forall>st m. no_panic (onMsg st m)"
    using inv x sound by (simp_all add: uc_inv_def uc_parts_inv_def uc_sound_def)
  from session_ends [OF this] obtain y where y: "steps (session_step conn onMsg) (session_forceClose x) y"
    "session_Close_returns y" "se_disconnected y \<noteq> None" by blast
  have "udp_inv (uc_sock s)" "us_writeErr (uc_sock s) = None" "\<not> us_closeOnce (uc_sock s)"
    using inv sound by (simp_all add: uc_inv_def uc_parts_inv_def uc_sound_def)
  from runs_end_reaches [OF udp_ends [OF this]] obtain k where k: "steps udp_own_step (udp_forceClose (uc_sock s)) k" "udp_close_returns k"
    "us_connClosed k" "us_sent k = map (udp_out (uc_sock s)) (us_accepted (uc_sock s))" by blast
  have nc: "\<not> uc_closeCh s" using inv once by (simp add: uc_inv_def uc_control_inv_def)
  let ?own = "uc_own_step timeout conn onMsg"
  let ?s1 = "s\<lparr>uc_session := Some (session_forceClose x), uc_once := Some BfSessionWait\<rparr>"
  let ?s2 = "s\<lparr>uc_session := Some y, uc_once := Some BfSessionWait\<rparr>"
  let ?s3 = "s\<lparr>uc_session := Some y, uc_once := Some BfSock\<rparr>"
  let ?s4 = "?s3\<lparr>uc_sock := udp_forceClose (uc_sock s), uc_once := Some BfSockWait\<rparr>"
  let ?s5 = "?s3\<lparr>uc_sock := k, uc_once := Some BfSockWait\<rparr>"
  let ?s6 = "?s3\<lparr>uc_sock := k, uc_once := Some BfCloseCh\<rparr>"
  let ?t = "?s6\<lparr>uc_closeCh := True, uc_once := Some BfEnded\<rparr>"
  have r1: "?own s ?s1" by (rule uco_force [OF p bf_session [OF once bx]])
  have r2: "steps ?own ?s1 ?s2"
    using uc_session_steps [OF y(1), of "s\<lparr>uc_once := Some BfSessionWait\<rparr>" timeout] p by (simp add: uc_put_once)
  have r3: "?own ?s2 ?s3"
    using uco_force [OF _ bf_session_wait [of ?s2 y]] p y(2) ready by (simp add: biudp_session_def)
  have r4: "?own ?s3 ?s4" using uco_force [OF _ bf_sock [of ?s3]] p by simp
  have r5: "steps ?own ?s4 ?s5"
    using uc_sock_steps [OF k(1), of "s\<lparr>uc_session := Some y, uc_once := Some BfSockWait\<rparr>" timeout] p
    by (simp add: uc_put_once)
  have r6: "?own ?s5 ?s6" using uco_force [OF _ bf_sock_wait [of ?s5]] p k(2) by simp
  have r7: "?own ?s6 ?t" using uco_force [OF _ bf_closeCh [of ?s6]] p nc by simp
  have "steps ?own s ?t"
    by (rule steps_trans [where step = ?own, OF r1], rule steps_append [OF r2],
        rule steps_trans [where step = ?own, OF r3], rule steps_trans [where step = ?own, OF r4],
        rule steps_append [OF r5], rule steps_trans [where step = ?own, OF r6], rule steps_one [where step = ?own, OF r7])
  moreover have "uc_ended s ?t" using y k p by (simp add: uc_ended_def)
  ultimately show ?thesis by (intro exI [of _ ?t]) simp
qed

text \<open>Once the close channel is closed the check loop ends.\<close>

lemma uc_check_ends:
  assumes inv: "uc_inv conn onMsg s" and p: "uc_panic s = None" and e: "uc_once s = Some BfEnded" "uc_closeCh s"
  shows "\<exists>t. steps (uc_own_step timeout conn onMsg) s t \<and> t = s\<lparr>uc_ck := BcExit, uc_wg := 0\<rparr>"
proof -
  let ?own = "uc_own_step timeout conn onMsg"
  have c: "uc_ck s \<noteq> BcOff" "uc_new s = BnReady" "uc_wg s = (if uc_ck s = BcExit then 0 else 1)"
    using inv e by (auto simp: uc_inv_def uc_control_inv_def)
  have fin: "steps ?own u (s\<lparr>uc_ck := BcExit, uc_wg := 0\<rparr>)"
    if "u = s\<lparr>uc_ck := BcDone, uc_wg := 1\<rparr>" for u
    using uco_check [OF _ bc_done [of u]] p that by (intro steps_one) (simp add: uc_wg_Done_def)
  have wait: "steps ?own u (s\<lparr>uc_ck := BcExit, uc_wg := 0\<rparr>)"
    if "u = s\<lparr>uc_ck := BcWait, uc_wg := 1\<rparr>" for u
    using uco_check [OF _ bc_closed [of u]] p e that
    by (intro steps_trans [OF _ fin [of "u\<lparr>uc_ck := BcDone\<rparr>"]]) simp_all
  have force: "steps ?own u (s\<lparr>uc_ck := BcExit, uc_wg := 0\<rparr>)"
    if "u = s\<lparr>uc_ck := BcForce, uc_wg := 1\<rparr>" for u
    using uco_check [OF _ bc_forced [of u]] p e that
    by (intro steps_trans [OF _ fin [of "u\<lparr>uc_ck := BcDone\<rparr>"]]) simp_all
  have same: "s\<lparr>uc_ck := k, uc_wg := n\<rparr> = s" if "uc_ck s = k" "uc_wg s = n" for k n using that by simp
  show ?thesis
  proof (cases "uc_ck s")
    case BcWait
    then show ?thesis using wait [of s] same [of BcWait 1] c by simp
  next
    case BcTest
    obtain x where x: "uc_session s = Some x"
      using inv c(2) by (cases "uc_session s") (simp_all add: uc_inv_def uc_parts_inv_def)
    then have "?own s (s\<lparr>uc_ck := (if expired timeout 0 x then BcForce else BcWait)\<rparr>)"
      using BcTest c(2) p by (intro uco_check bc_test) (simp_all add: biudp_session_def)
    with BcTest c(3) wait [of "s\<lparr>uc_ck := BcWait\<rparr>"] force [of "s\<lparr>uc_ck := BcForce\<rparr>"] show ?thesis
      by (auto intro: steps_trans split: if_splits)
  next
    case BcForce
    then show ?thesis using force [of s] same [of BcForce 1] c by simp
  next
    case BcDone
    then show ?thesis using fin [of s] same [of BcDone 1] c by simp
  next
    case BcExit
    then show ?thesis using same [of BcExit 0] c steps_refl by metis
  qed (use c in simp)
qed

section \<open>A run\<close>

definition uc_made :: "string \<Rightarrow> 'st udp_client" where
  "uc_made addr = newBuiltInUDP\<lparr>uc_session := Some (NewUDPSession addr 0), uc_new := BnReady, uc_wg := 1, uc_ck := BcWait\<rparr>"

lemma uc_reach_new: "reachable uc_init (uc_step timeout addr conn onMsg) newBuiltInUDP"
  by (rule reach_init) (simp add: uc_init_def)

lemma uc_reach_made: "reachable uc_init (uc_step timeout addr conn onMsg) (uc_made addr)"
proof -
  let ?step = "uc_step timeout addr conn onMsg" and ?n = "newBuiltInUDP"
  let ?s1 = "?n\<lparr>uc_session := Some (NewUDPSession addr 0), uc_new := BnStore\<rparr>"
  let ?s2 = "?n\<lparr>uc_session := Some (NewUDPSession addr 0), uc_new := BnCheck\<rparr>"
  note new = newBuiltInUDP_def
  have s1: "?step ?n ?s1" by (intro uc_create bn_session) (simp_all add: new)
  have s2: "?step ?s1 ?s2" using uc_create [OF _ bn_store [of ?s1]] by (simp add: new)
  have s3: "?step ?s2 (uc_made addr)" using uc_create [OF _ bn_check [of ?s2]] by (simp add: new uc_made_def)
  have "steps ?step ?n (uc_made addr)"
    by (rule steps_trans [where step = ?step, OF s1], rule steps_trans [where step = ?step, OF s2],
        rule steps_one [where step = ?step, OF s3])
  then show ?thesis by (rule reachable_steps) (rule uc_reach_new)
qed

section \<open>Properties\<close>

text \<open>
  The order of the client's shut down: its close channel is closed only when \<open>closeOnce\<close>'s body has ended, and then
  the session's goroutine and both of the socket's have ended; \<open>Close\<close> returns only after that and after the check
  loop; nothing is closed twice, the wait group never goes below zero, and the only panic of the client's own is that
  of a datagram before the session was stored.
\<close>

theorem udp_client_shutdown_order:
  assumes "reachable uc_init (uc_step timeout addr conn onMsg) s"
  shows "(uc_closeCh s \<longrightarrow> udp_close_returns (uc_sock s) \<and> (\<exists>x. uc_session s = Some x \<and> session_Close_returns x))
    \<and> (uc_user s = BuClosed \<longrightarrow> uc_closeCh s \<and> uc_ck s = BcExit)
    \<and> (uc_panic s = None \<or> uc_panic s = Some NilDeref \<and> biudp_session s = None)
    \<and> us_panic (uc_sock s) = None"
proof -
  have inv: "uc_parts_inv conn onMsg s" "uc_close_inv s" "uc_control_inv s"
    using uc_sys.inv_reachable [OF assms] by (simp_all add: uc_inv_def)
  have "udp_close_returns (uc_sock s) \<and> (\<exists>x. uc_session s = Some x \<and> session_Close_returns x)" if "uc_closeCh s"
  proof -
    have e: "uc_once s = Some BfEnded" "uc_new s = BnReady" using inv(3) that by (auto simp: uc_control_inv_def)
    then obtain x where "uc_session s = Some x" using inv(1) by (cases "uc_session s") (auto simp: uc_parts_inv_def)
    with e inv(2) show ?thesis by (simp add: uc_close_inv_def)
  qed
  moreover have "us_panic (uc_sock s) = None"
    using inv(1) by (simp add: uc_parts_inv_def udp_inv_def udp_control_inv_def)
  ultimately show ?thesis using inv(3) by (auto simp: uc_control_inv_def biudp_session_def)
qed

theorem udp_client_shutdown_order_witness:
  "us_panic (uc_sock (uc_made ''a'' :: nat udp_client)) = None"
  using udp_client_shutdown_order [OF uc_reach_made [of 10 "''a''" "\<lambda>_. 0 :: nat" "\<lambda>st m. Ret (st, 0, None)"]] by simp



text \<open>
  A client whose peer is silent closes itself: when the check loop's tick finds the session idle for longer than the
  timeout, the client's own goroutines lead, without a call of \<open>Close\<close>, to the check loop's end with session and socket
  closed; from then on the socket's write loop is gone.
\<close>

theorem udp_client_idle_closes:
  assumes "reachable uc_init (uc_step timeout addr conn onMsg) s" and "uc_sound onMsg s"
    and "uc_ck s = BcTest" and "uc_once s = None" and "biudp_session s = Some x" and "expired timeout now x"
  shows "\<exists>t. steps (uc_own_step timeout conn onMsg) s t \<and> uc_user t = uc_user s \<and> uc_ck t = BcExit \<and> uc_ended s t"
proof -
  let ?own = "uc_own_step timeout conn onMsg"
  let ?s1 = "s\<lparr>uc_ck := BcForce\<rparr>" and ?s2 = "s\<lparr>uc_ck := BcForce, uc_once := Some BfSession\<rparr>"
  have p: "uc_panic s = None" using assms(2) by (simp add: uc_sound_def)
  have r1: "?own s ?s1" using uco_check [OF p bc_test [OF assms(3,5), of timeout now]] assms(6) by simp
  have r2: "?own ?s1 ?s2" using uco_check [OF _ bc_first [of ?s1]] p assms(4) by simp
  have s2: "steps ?own s ?s2" by (rule steps_trans [where step = ?own, OF r1], rule steps_one [where step = ?own, OF r2])
  have inv: "uc_inv conn onMsg ?s2" by (rule uc_own_steps_inv [OF s2 uc_sys.inv_reachable [OF assms(1)]])
  have "uc_sound onMsg ?s2" using assms(2) by (simp add: uc_sound_def)
  from uc_force_runs [OF inv _ this] obtain u where u: "steps ?own ?s2 u" "uc_ended ?s2 u" "uc_user u = uc_user s" by auto
  have inv_u: "uc_inv conn onMsg u" by (rule uc_own_steps_inv [OF u(1) inv])
  have e: "uc_panic u = None" "uc_once u = Some BfEnded" "uc_closeCh u" using u(2) by (simp_all add: uc_ended_def)
  have r3: "steps ?own u (u\<lparr>uc_ck := BcExit, uc_wg := 0\<rparr>)" using uc_check_ends [OF inv_u] e by auto
  have "steps ?own s (u\<lparr>uc_ck := BcExit, uc_wg := 0\<rparr>)"
    by (rule steps_append [OF s2], rule steps_append [OF u(1) r3])
  moreover have "uc_ended s (u\<lparr>uc_ck := BcExit, uc_wg := 0\<rparr>)" using u(2) by (simp add: uc_ended_def)
  ultimately show ?thesis using u(3) by (intro exI [of _ "u\<lparr>uc_ck := BcExit, uc_wg := 0\<rparr>"]) simp
qed

theorem udp_client_idle_closes_witness:
  "\<exists>t. steps (uc_own_step 10 (\<lambda>_. 0) (\<lambda>st m. Ret (st + 1, 0, None))) ((uc_made ''a'')\<lparr>uc_ck := BcTest\<rparr> :: nat udp_client) t
    \<and> uc_ck t = BcExit \<and> uc_user t = BuIdle"
proof -
  let ?c = "uc_made ''a'' :: nat udp_client" and ?h = "\<lambda>(st :: nat) (m :: bytes). Ret (st + 1, 0 :: int, None :: go_error option)"
  have "uc_step 10 ''a'' (\<lambda>_. 0) ?h ?c (?c\<lparr>uc_ck := BcTest\<rparr>)"
    by (intro uc_check bc_tick) (simp_all add: uc_made_def newBuiltInUDP_def)
  with uc_reach_made have r: "reachable uc_init (uc_step 10 ''a'' (\<lambda>_. 0) ?h) (?c\<lparr>uc_ck := BcTest\<rparr>)" by (rule reach_step)
  have "expired 10 100 (NewUDPSession ''a'' 0 :: nat udp_session)" by (simp add: expired_def NewUDPSession_def)
  with udp_client_idle_closes [OF r, of _ 100]
  show ?thesis by (auto simp: uc_sound_def uc_made_def newBuiltInUDP_def NewUDPSession_def NewUDPSocket_def biudp_session_def)
qed

text \<open>
  A datagram that arrives before \<open>newBuiltInUDP\<close> has stored the session crashes the client: the socket's read loop runs
  already, and \<open>udpOnMsg\<close> uses the session that is still nil.
\<close>

theorem udp_client_start_race:
  assumes "reachable uc_init (uc_step timeout addr conn onMsg) s" and "uc_new s = BnSession \<or> uc_new s = BnStore"
    and "us_rd (uc_sock s) = URLoop" and "uc_panic s = None"
  shows "\<exists>t. uc_step timeout addr conn onMsg s t \<and> uc_panic t = Some NilDeref"
proof -
  have "uc_step timeout addr conn onMsg s (s\<lparr>uc_panic := Some NilDeref\<rparr>)"
    using assms by (intro uc_datagram) (simp_all add: biudp_udpOnMsg_def biudp_session_def)
  then show ?thesis by (intro exI [of _ "s\<lparr>uc_panic := Some NilDeref\<rparr>"]) simp
qed

theorem udp_client_start_race_witness:
  "\<exists>t. uc_step 10 ''a'' (\<lambda>_. 0) (\<lambda>st m. Ret (st, 0, None)) (newBuiltInUDP :: nat udp_client) t \<and> uc_panic t = Some NilDeref"
  by (rule udp_client_start_race [OF uc_reach_new]) (simp_all add: newBuiltInUDP_def NewUDPSocket_def)

end
