(* ===== verification/Net_Clients.thy ===== *)
theory Net_Clients
  imports Tcp_Server Websocket Udp_Client
begin

text \<open>
  The clients of \<open>pkg/xnet/tcp_client.go\<close>, \<open>websocket_client.go\<close> and \<open>udp_client.go\<close>. Each holds one socket, which \<open>Close\<close>
  closes and \<open>Reconnect\<close> closes and replaces. They have one shape, a step relation over the sockets a client ever
  made, and differ in the socket and in what a failing dial leaves behind. The KCP client is the same over its
  socket, in \<open>Kcp_Client\<close>.
\<close>

section \<open>State\<close>

text \<open>Ready; in the wait of the socket's \<open>Close\<close>, with whether \<open>newSocket\<close> follows; in \<open>newSocket\<close>.\<close>

datatype nc_pc = NcReady | NcJoin bool | NcDial

text \<open>\<open>nc_socks\<close> are the sockets in the order they were made, \<open>nc_sock\<close> is the pointer \<open>cli.sock\<close>.\<close>

record 'k net_client =
  nc_pc :: nc_pc
  nc_socks :: "'k list"
  nc_sock :: "nat option"
  nc_panic :: "go_panic option"

text \<open>A client whose first dial gave a socket; when it fails there is no client.\<close>

definition new_client :: "'k \<Rightarrow> 'k net_client" where
  "new_client k = \<lparr>nc_pc = NcReady, nc_socks = [k], nc_sock = Some 0, nc_panic = None\<rparr>"

section \<open>Operations\<close>

text \<open>
  \<open>sys\<close>: the socket at work, \<open>SendMsg\<close> included; \<open>begin'\<close>: the socket's \<open>Close\<close> up to the wait that \<open>returns\<close> ends; \<open>fresh\<close>: a
  socket the dial can give; \<open>failed\<close>: a socket that was made and given up, for which \<open>newSocket\<close> stores a nil pointer. A
  dial that fails before there is a socket leaves the pointer alone. Any use of a nil pointer panics.
\<close>

inductive client_step :: "('k \<Rightarrow> 'k \<Rightarrow> bool) \<Rightarrow> ('k \<Rightarrow> 'k \<Rightarrow> bool) \<Rightarrow> ('k \<Rightarrow> bool) \<Rightarrow> ('k \<Rightarrow> bool) \<Rightarrow> ('k \<Rightarrow> bool) \<Rightarrow>
    'k net_client \<Rightarrow> 'k net_client \<Rightarrow> bool"
  for sys begin' returns fresh failed where
  nc_run: "nc_panic s = None \<Longrightarrow> i < length (nc_socks s) \<Longrightarrow> sys (nc_socks s ! i) k \<Longrightarrow>
    client_step sys begin' returns fresh failed s (s\<lparr>nc_socks := (nc_socks s)[i := k]\<rparr>)"
| nc_close: "nc_panic s = None \<Longrightarrow> nc_pc s = NcReady \<Longrightarrow> nc_sock s = Some i \<Longrightarrow> begin' (nc_socks s ! i) k \<Longrightarrow>
    client_step sys begin' returns fresh failed s (s\<lparr>nc_socks := (nc_socks s)[i := k], nc_pc := NcJoin again\<rparr>)"
| nc_nil: "nc_panic s = None \<Longrightarrow> nc_pc s = NcReady \<Longrightarrow> nc_sock s = None \<Longrightarrow>
    client_step sys begin' returns fresh failed s (s\<lparr>nc_panic := Some NilDeref\<rparr>)"
| nc_closed: "nc_panic s = None \<Longrightarrow> nc_pc s = NcJoin again \<Longrightarrow> nc_sock s = Some i \<Longrightarrow> returns (nc_socks s ! i) \<Longrightarrow>
    client_step sys begin' returns fresh failed s (s\<lparr>nc_pc := (if again then NcDial else NcReady)\<rparr>)"
| nc_dial_err: "nc_panic s = None \<Longrightarrow> nc_pc s = NcDial \<Longrightarrow>
    client_step sys begin' returns fresh failed s (s\<lparr>nc_pc := NcReady\<rparr>)"
| nc_dial: "nc_panic s = None \<Longrightarrow> nc_pc s = NcDial \<Longrightarrow> fresh k \<Longrightarrow>
    client_step sys begin' returns fresh failed s
      (s\<lparr>nc_socks := nc_socks s @ [k], nc_sock := Some (length (nc_socks s)), nc_pc := NcReady\<rparr>)"
| nc_dial_nil: "nc_panic s = None \<Longrightarrow> nc_pc s = NcDial \<Longrightarrow> failed k \<Longrightarrow>
    client_step sys begin' returns fresh failed s (s\<lparr>nc_socks := nc_socks s @ [k], nc_sock := None, nc_pc := NcReady\<rparr>)"

definition client_init :: "('k \<Rightarrow> bool) \<Rightarrow> 'k net_client \<Rightarrow> bool" where
  "client_init fresh s \<longleftrightarrow> (\<exists>k. fresh k \<and> s = new_client k)"


text \<open>The websocket client; \<open>NewWebsocket\<close> does not fail.\<close>

definition ws_client_step :: "websocket net_client \<Rightarrow> websocket net_client \<Rightarrow> bool" where
  "ws_client_step =
     client_step ws_step (\<lambda>k k'. k' = ws_forceClose k) ws_Close_returns (\<lambda>k. k = NewWebsocket) (\<lambda>k. False)"

text \<open>The UDP client, over \<open>builtInUDP\<close>; \<open>newBuiltInUDP\<close> returns once the check loop runs.\<close>

definition udp_client_step :: "i64 \<Rightarrow> string \<Rightarrow> (string \<Rightarrow> 'st) \<Rightarrow> 'st on_handler_once \<Rightarrow>
    'st udp_client net_client \<Rightarrow> 'st udp_client net_client \<Rightarrow> bool" where
  "udp_client_step timeout addr conn onMsg =
     client_step (uc_step timeout addr conn onMsg) (\<lambda>k k'. uc_user k \<noteq> BuForce \<and> uc_user k \<noteq> BuWait \<and> k' = k\<lparr>uc_user := BuForce\<rparr>)
       (\<lambda>k. uc_user k = BuClosed)
       (\<lambda>k. uc_new k = BnReady \<and> steps (uc_step timeout addr conn onMsg) newBuiltInUDP k) (\<lambda>k. False)"

text \<open>The steps of the current socket are steps of the client.\<close>

lemma client_runs:
  "steps sys k k' \<Longrightarrow> nc_panic s = None \<Longrightarrow> i < length (nc_socks s) \<Longrightarrow>
     steps (client_step sys begin' returns fresh failed) (s\<lparr>nc_socks := (nc_socks s)[i := k]\<rparr>) (s\<lparr>nc_socks := (nc_socks s)[i := k']\<rparr>)"
proof (induction rule: steps.induct)
  case (steps_trans k l k')
  let ?s = "s\<lparr>nc_socks := (nc_socks s)[i := k]\<rparr>"
  have "client_step sys begin' returns fresh failed ?s (?s\<lparr>nc_socks := (nc_socks ?s)[i := l]\<rparr>)"
    using steps_trans by (intro nc_run) simp_all
  with steps_trans show ?case by (simp add: steps.steps_trans)
qed (rule steps_refl)

section \<open>The contract\<close>

text \<open>
  What a client relies on in a socket: an invariant, and an end, brought about by the return of \<open>Close\<close>, that no step undoes.
\<close>

locale client_socket =
  fixes sys :: "'k \<Rightarrow> 'k \<Rightarrow> bool"
    and begin' :: "'k \<Rightarrow> 'k \<Rightarrow> bool"
    and returns :: "'k \<Rightarrow> bool"
    and fresh :: "'k \<Rightarrow> bool"
    and failed :: "'k \<Rightarrow> bool"
    and inv :: "'k \<Rightarrow> bool"
    and ended :: "'k \<Rightarrow> bool"
  assumes fresh_inv: "fresh k \<Longrightarrow> inv k"
    and failed_ended: "failed k \<Longrightarrow> inv k \<and> ended k"
    and sys_inv: "inv k \<Longrightarrow> sys k k' \<Longrightarrow> inv k' \<and> (ended k \<longrightarrow> ended k')"
    and begin_inv: "inv k \<Longrightarrow> begin' k k' \<Longrightarrow> inv k' \<and> (ended k \<longrightarrow> ended k')"
    and returns_ended: "inv k \<Longrightarrow> returns k \<Longrightarrow> ended k"
begin

text \<open>Every socket but the current one has ended, and in \<open>newSocket\<close> that one too.\<close>

definition client_inv :: "'k net_client \<Rightarrow> bool" where
  "client_inv s \<longleftrightarrow> (\<forall>k \<in> set (nc_socks s). inv k)
     \<and> (\<forall>i < length (nc_socks s). nc_sock s = Some i \<and> nc_pc s \<noteq> NcDial \<or> ended (nc_socks s ! i))
     \<and> (\<forall>i. nc_sock s = Some i \<longrightarrow> i < length (nc_socks s))
     \<and> (nc_sock s = None \<longrightarrow> nc_pc s = NcReady)"

lemma client_put_inv:
  assumes "client_inv s" and "i < length (nc_socks s)" and "inv k" and "ended (nc_socks s ! i) \<longrightarrow> ended k"
  shows "client_inv (s\<lparr>nc_socks := (nc_socks s)[i := k]\<rparr>)"
  using assms by (auto simp: client_inv_def nth_list_update dest: set_update_subset_insert [THEN subsetD])

lemma client_step_inv: "client_step sys begin' returns fresh failed s t \<Longrightarrow> client_inv s \<Longrightarrow> client_inv t"
proof (induction rule: client_step.induct)
  case (nc_run s i k)
  then have "inv (nc_socks s ! i)" by (simp add: client_inv_def)
  with nc_run sys_inv show ?case by (intro client_put_inv) auto
next
  case (nc_close s i k again)
  then have i: "i < length (nc_socks s)" "inv (nc_socks s ! i)" by (auto simp: client_inv_def)
  with nc_close begin_inv have "client_inv (s\<lparr>nc_socks := (nc_socks s)[i := k]\<rparr>)" by (intro client_put_inv) auto
  with nc_close.hyps show ?case by (auto simp: client_inv_def)
next
  case (nc_closed s again i)
  then have "ended (nc_socks s ! i)" by (intro returns_ended) (auto simp: client_inv_def)
  with nc_closed show ?case by (auto simp: client_inv_def)
next
  case (nc_dial s k)
  with fresh_inv show ?case by (auto simp: client_inv_def nth_append less_Suc_eq)
next
  case (nc_dial_nil s k)
  with failed_ended show ?case by (auto simp: client_inv_def nth_append less_Suc_eq)
qed (auto simp: client_inv_def)

lemma client_init_inv: "client_init fresh s \<Longrightarrow> client_inv s"
  using fresh_inv by (auto simp: client_init_def new_client_def client_inv_def)

lemma client_reachable_inv: "reachable (client_init fresh) (client_step sys begin' returns fresh failed) s \<Longrightarrow> client_inv s"
  by (induction rule: reachable.induct) (auto intro: client_init_inv client_step_inv)

lemma one_live_socket:
  assumes "reachable (client_init fresh) (client_step sys begin' returns fresh failed) s" and "i < length (nc_socks s)"
  shows "nc_sock s = Some i \<or> ended (nc_socks s ! i)"
  using client_reachable_inv [OF assms(1)] assms(2) by (auto simp: client_inv_def)

text \<open>With no failed socket the pointer is never nil, and the client does not panic.\<close>

lemma never_nil:
  assumes "reachable (client_init fresh) (client_step sys begin' returns fresh failed) s" and "\<And>k. \<not> failed k"
  shows "nc_sock s \<noteq> None \<and> nc_panic s = None"
  using assms(1)
proof (induction rule: reachable.induct)
  case (reach_step s t)
  from reach_step(2,3) assms(2) show ?case by (cases rule: client_step.cases) auto
qed (auto simp: client_init_def new_client_def)

end

section \<open>The sockets meet it\<close>


lemma ws_step_ended:
  assumes "ws_step s t" and "ws_inv s" and "ws_Close_returns s"
  shows "ws_Close_returns t"
  using assms
  by (auto elim!: ws_step.cases ws_read_step.cases ws_write_step.cases dest: ws_SendMsg_cases
      simp: ws_Close_returns_def ws_WaitUntilClose_returns_def ws_forceClose_def ws_wg_Done_def)

interpretation ws_cli: client_socket ws_step "\<lambda>k k'. k' = ws_forceClose k" ws_Close_returns "\<lambda>k. k = NewWebsocket"
    "\<lambda>k. False" ws_inv ws_Close_returns
proof
  fix k k' :: websocket
  show "ws_inv k' \<and> (ws_Close_returns k \<longrightarrow> ws_Close_returns k')" if "ws_inv k" "ws_step k k'"
    using that ws_sys.inv_step ws_step_ended by blast
  then show "ws_inv k' \<and> (ws_Close_returns k \<longrightarrow> ws_Close_returns k')" if "ws_inv k" "k' = ws_forceClose k"
    using that wstep_close ws_sys.inv_step ws_step_ended by blast
qed (use ws_sys.inv_init in \<open>auto simp: ws_init_def\<close>)

text \<open>The check loop of a UDP client is the last to end.\<close>

definition uc_over :: "'st udp_client \<Rightarrow> bool" where
  "uc_over s \<longleftrightarrow> uc_closeCh s \<and> uc_ck s = BcExit"

lemma uc_over_frame [simp]:
  "uc_over (s\<lparr>uc_sock := k\<rparr>) = uc_over s" "uc_over (s\<lparr>uc_session := x\<rparr>) = uc_over s"
  "uc_over (s\<lparr>uc_user := u\<rparr>) = uc_over s" "uc_over (s\<lparr>uc_panic := p\<rparr>) = uc_over s"
  by (simp_all add: uc_over_def)

lemma uc_step_over: "uc_step timeout addr conn onMsg s t \<Longrightarrow> uc_control_inv s \<Longrightarrow> uc_over s \<Longrightarrow> uc_over t"
proof (induction rule: uc_step.induct)
  case (uc_create s t)
  then show ?case by (auto elim!: uc_new_step.cases simp: uc_over_def uc_control_inv_def)
next
  case (uc_datagram s t msg now)
  then show ?case by (auto simp: biudp_udpOnMsg_def split: option.splits)
next
  case (uc_send s r t msg)
  then show ?case by (auto simp: biudp_sendMsg_def split: option.splits)
next
  case (uc_force s t)
  then show ?case by (auto elim!: biudp_forceClose.cases simp: uc_over_def)
next
  case (uc_check s t)
  then show ?case by (auto elim!: biudp_checkLoop.cases simp: uc_over_def)
next
  case (uc_close s t)
  then show ?case by (auto elim!: biudp_close.cases simp: uc_over_def)
qed simp_all

interpretation udp_cli: client_socket "uc_step timeout addr conn onMsg"
    "\<lambda>k k'. uc_user k \<noteq> BuForce \<and> uc_user k \<noteq> BuWait \<and> k' = k\<lparr>uc_user := BuForce\<rparr>" "\<lambda>k. uc_user k = BuClosed"
    "\<lambda>k. uc_new k = BnReady \<and> steps (uc_step timeout addr conn onMsg) newBuiltInUDP k" "\<lambda>k. False"
    "\<lambda>k. uc_inv conn onMsg k \<and> uc_new k = BnReady" uc_over for timeout addr conn onMsg
proof
  let ?step = "uc_step timeout addr conn onMsg"
  fix k k'
  have ready: "uc_new k' = BnReady" if "?step k k'" "uc_new k = BnReady"
    using that by (auto elim!: uc_step.cases uc_new_step.cases biudp_forceClose.cases biudp_checkLoop.cases biudp_close.cases
        simp: biudp_udpOnMsg_def biudp_sendMsg_def uc_wg_Done_def split: option.splits if_splits)
  show "uc_inv conn onMsg k \<and> uc_new k = BnReady" if "uc_new k = BnReady \<and> steps ?step newBuiltInUDP k"
    using that uc_sys.inv_steps [of timeout addr conn onMsg newBuiltInUDP k] uc_sys.inv_init [of newBuiltInUDP conn onMsg]
    by (simp add: uc_init_def)
  show "(uc_inv conn onMsg k' \<and> uc_new k' = BnReady) \<and> (uc_over k \<longrightarrow> uc_over k')"
    if "uc_inv conn onMsg k \<and> uc_new k = BnReady" "?step k k'"
    using that uc_sys.inv_step [of conn onMsg k timeout addr k'] uc_step_over [OF that(2)] ready by (simp add: uc_inv_def)
  show "(uc_inv conn onMsg k' \<and> uc_new k' = BnReady) \<and> (uc_over k \<longrightarrow> uc_over k')"
    if "uc_inv conn onMsg k \<and> uc_new k = BnReady" "uc_user k \<noteq> BuForce \<and> uc_user k \<noteq> BuWait \<and> k' = k\<lparr>uc_user := BuForce\<rparr>"
  proof -
    have "biudp_close k k'" using that bu_close [of k] by (cases "uc_user k") auto
    with that show ?thesis using biudp_close_inv by auto
  qed
  show "uc_over k" if "uc_inv conn onMsg k \<and> uc_new k = BnReady" "uc_user k = BuClosed"
    using that by (auto simp: uc_inv_def uc_control_inv_def uc_over_def)
qed simp

section \<open>Properties\<close>



text \<open>The same of the other two.\<close>

theorem ws_client_one_live_socket:
  assumes "reachable (client_init (\<lambda>k. k = NewWebsocket)) ws_client_step s"
  shows "nc_sock s \<noteq> None \<and> nc_panic s = None
    \<and> (\<forall>i. i < length (nc_socks s) \<and> nc_sock s \<noteq> Some i \<longrightarrow> ws_Close_returns (nc_socks s ! i))"
  using ws_cli.never_nil [of s] ws_cli.one_live_socket [of s] assms unfolding ws_client_step_def by blast

theorem udp_client_one_live_socket:
  fixes timeout addr conn onMsg
  assumes "reachable (client_init (\<lambda>k. uc_new k = BnReady \<and> steps (uc_step timeout addr conn onMsg) newBuiltInUDP k))
    (udp_client_step timeout addr conn onMsg) s"
  shows "nc_sock s \<noteq> None \<and> nc_panic s = None
    \<and> (\<forall>i. i < length (nc_socks s) \<and> nc_sock s \<noteq> Some i \<longrightarrow> uc_closeCh (nc_socks s ! i) \<and> uc_ck (nc_socks s ! i) = BcExit)"
  using udp_cli.never_nil [of timeout addr conn onMsg s] udp_cli.one_live_socket [of timeout addr conn onMsg s] assms
  unfolding udp_client_step_def uc_over_def by blast

end
