(* ===== verification/Kcp_Client.thy ===== *)
theory Kcp_Client
  imports Kcp_Server Net_Clients
begin

text \<open>
  The KCP client of \<open>pkg/xnet/kcp_client.go\<close>, over the sockets of \<open>Kcp_Socket\<close>, in the shape of \<open>Net_Clients\<close>. Its \<open>newSocket\<close> includes the
  handshake of the built in protocol, and a handshake that fails leaves the client without a socket.
\<close>

section \<open>Operations\<close>

text \<open>
  The KCP client. \<open>KCPSocket.Close\<close> is \<open>mux.close\<close>, whatever the socket does during its wait, and \<open>closeForce\<close>.
  \<open>newKCPSocket\<close> returns a socket after \<open>mux.init\<close>; when that fails it closes the socket and returns nil.
\<close>

definition kcp_Close_begins :: "kcp_socket \<Rightarrow> kcp_socket \<Rightarrow> bool" where
  "kcp_Close_begins k k' \<longleftrightarrow>
     (\<exists>m outs w k1 k2 m2. mux_close (ks_mux k) = (m, outs, w) \<and> k1 \<in> set (kcp_sendInlines (k\<lparr>ks_mux := m\<rparr>) outs)
        \<and> steps kcp_step k1 k2 \<and> m2 \<in> set (mux_close_wait (ks_mux k2)) \<and> k' = kcp_closeOnce (k2\<lparr>ks_mux := m2\<rparr>))"

definition newKCPSocket_ok :: "bool \<Rightarrow> kcp_socket \<Rightarrow> bool" where
  "newKCPSocket_ok isInline k \<longleftrightarrow>
     (\<exists>m outs w k1 k2. mux_init (newKCPMux isInline False) = (m, outs, w)
        \<and> k1 \<in> set (kcp_sendInlines ((newKCPSocket False isInline)\<lparr>ks_mux := m\<rparr>) outs) \<and> steps kcp_step k1 k2
        \<and> (if w then \<exists>m2. (m2, None) \<in> set (mux_init_wait (ks_mux k2)) \<and> k = k2\<lparr>ks_mux := m2\<rparr> else k = k2))"

definition newKCPSocket_err :: "bool \<Rightarrow> kcp_socket \<Rightarrow> bool" where
  "newKCPSocket_err isInline k \<longleftrightarrow>
     (\<exists>m outs k1 k2 m2 err. mux_init (newKCPMux isInline False) = (m, outs, True)
        \<and> k1 \<in> set (kcp_sendInlines ((newKCPSocket False isInline)\<lparr>ks_mux := m\<rparr>) outs) \<and> steps kcp_step k1 k2
        \<and> (m2, Some err) \<in> set (mux_init_wait (ks_mux k2)) \<and> steps kcp_step (kcp_closeOnce (k2\<lparr>ks_mux := m2\<rparr>)) k
        \<and> kcp_closeForce_returns k)"

definition kcp_client_step :: "bool \<Rightarrow> kcp_socket net_client \<Rightarrow> kcp_socket net_client \<Rightarrow> bool" where
  "kcp_client_step isInline =
     client_step kcp_step kcp_Close_begins kcp_closeForce_returns (newKCPSocket_ok isInline) (newKCPSocket_err isInline)"

section \<open>The KCP socket meets the contract of a client\<close>

text \<open>A KCP socket both of whose goroutines have left the wait group.\<close>

definition kcp_out :: "kcp_socket \<Rightarrow> bool" where
  "kcp_out s \<longleftrightarrow> \<not> kr_active (ks_rd s) \<and> (ks_wr s = KWConnClose \<or> ks_wr s = KWExit)"

lemma kcp_out_wg: "kcp_inv s \<Longrightarrow> ks_wg s = 0 \<longleftrightarrow> kcp_out s"
  by (auto simp: kcp_inv_def kcp_control_inv_def kcp_out_def split: if_splits)

lemma kcp_sent_from_out: "kcp_sent_from s t \<Longrightarrow> kcp_out t = kcp_out s"
  by (simp add: kcp_sent_from_def kcp_out_def)

lemma kcp_out_frame [simp]:
  "kcp_out (s\<lparr>ks_mux := m\<rparr>) = kcp_out s" "kcp_out (kcp_closeOnce s) = kcp_out s"
  by (simp_all add: kcp_out_def)

lemma kcp_read_step_out: "kcp_read_step s t \<Longrightarrow> kcp_out s \<Longrightarrow> kcp_out t"
proof (induction rule: kcp_read_step.induct)
  case (kr_release_server s m outs w t)
  then show ?case using kcp_sendInlines_from [of t "s\<lparr>ks_mux := m\<rparr>" outs] by (simp add: kcp_sent_from_def kcp_out_def)
qed (auto simp: kcp_out_def)

lemma kcp_step_out: "kcp_step s t \<Longrightarrow> kcp_out s \<Longrightarrow> kcp_out t"
proof (induction rule: kcp_step.induct)
  case (kstep_read s t)
  then show ?case by (rule kcp_read_step_out)
next
  case (kstep_write s t)
  then show ?case by (auto elim!: kcp_write_step.cases simp: kcp_out_def)
next
  case (kstep_send r t s payload)
  then show ?case using kcp_send_from [of r t s False payload] kcp_sent_from_out by (auto simp: kcp_SendMsg_def)
next
  case (kstep_init s m outs w t)
  then show ?case using kcp_sendInlines_from [OF kstep_init.hyps(2)] kcp_sent_from_out by fastforce
next
  case (kstep_mux_close s m outs w t)
  then show ?case using kcp_sendInlines_from [OF kstep_mux_close.hyps(2)] kcp_sent_from_out by fastforce
qed (simp_all add: Let_def)

lemma kcp_step_ended: "kcp_step s t \<Longrightarrow> kcp_inv s \<Longrightarrow> kcp_inv t \<and> (kcp_closeForce_returns s \<longrightarrow> kcp_closeForce_returns t)"
  using kcp_sys.inv_step [of s t] kcp_step_out [of s t] kcp_step_flag [of s t] kcp_out_wg [of s] kcp_out_wg [of t]
  by (auto simp: kcp_closeForce_returns_def)

lemma kcp_steps_ended:
  "steps kcp_step s t \<Longrightarrow> kcp_inv s \<Longrightarrow> kcp_inv t \<and> (kcp_closeForce_returns s \<longrightarrow> kcp_closeForce_returns t)"
  by (induction rule: steps.induct) (auto dest: kcp_step_ended)

lemma kcp_mux_ended: "kcp_closeForce_returns (s\<lparr>ks_mux := m\<rparr>) = kcp_closeForce_returns s"
  by (simp add: kcp_closeForce_returns_def)

lemma kcp_closeOnce_ended: "kcp_closeForce_returns s \<Longrightarrow> kcp_closeForce_returns (kcp_closeOnce s)"
  by (simp add: kcp_closeForce_returns_def kcp_closeOnce_def)

lemma kcp_sendInlines_ended:
  assumes "t \<in> set (kcp_sendInlines s outs)" and "kcp_inv s"
  shows "kcp_inv t \<and> (kcp_closeForce_returns s \<longrightarrow> kcp_closeForce_returns t)"
proof -
  have "kcp_inv t" "kcp_sent_from s t" using kcp_sendInlines_inv kcp_sendInlines_from assms by auto
  with assms(2) kcp_out_wg kcp_sent_from_out show ?thesis by (auto simp: kcp_closeForce_returns_def kcp_sent_from_def)
qed

lemma kcp_Close_begins_ended:
  assumes "kcp_Close_begins k k'" and "kcp_inv k"
  shows "kcp_closing k' \<and> (kcp_closeForce_returns k \<longrightarrow> kcp_closeForce_returns k')"
proof -
  from assms(1) obtain m outs w k1 k2 m2 where k1: "k1 \<in> set (kcp_sendInlines (k\<lparr>ks_mux := m\<rparr>) outs)"
    and k2: "steps kcp_step k1 k2" and k': "k' = kcp_closeOnce (k2\<lparr>ks_mux := m2\<rparr>)" by (auto simp: kcp_Close_begins_def)
  have i1: "kcp_inv k1 \<and> (kcp_closeForce_returns k \<longrightarrow> kcp_closeForce_returns k1)"
    using kcp_sendInlines_ended [OF k1] assms(2) by (simp add: kcp_mux_ended)
  then have i2: "kcp_inv k2 \<and> (kcp_closeForce_returns k \<longrightarrow> kcp_closeForce_returns k2)" using kcp_steps_ended [OF k2] by simp
  then have "kcp_inv (k2\<lparr>ks_mux := m2\<rparr>)" by simp
  with i2 show ?thesis
    using kcp_closeOnce_inv kcp_closeOnce_ended [of "k2\<lparr>ks_mux := m2\<rparr>"] by (simp add: k' kcp_closing_def kcp_mux_ended)
qed

lemma newKCPSocket_ok_inv: "newKCPSocket_ok isInline k \<Longrightarrow> kcp_inv k"
proof -
  assume "newKCPSocket_ok isInline k"
  then obtain m outs w k1 k2 where k1: "k1 \<in> set (kcp_sendInlines ((newKCPSocket False isInline)\<lparr>ks_mux := m\<rparr>) outs)"
    and k2: "steps kcp_step k1 k2" and k: "k = k2 \<or> (\<exists>m2. k = k2\<lparr>ks_mux := m2\<rparr>)"
    unfolding newKCPSocket_ok_def by metis
  have "kcp_inv k1" using kcp_sendInlines_inv [OF k1] newKCPSocket_inv by simp
  then have "kcp_inv k2" using kcp_steps_ended [OF k2] by simp
  with k show ?thesis by auto
qed

lemma newKCPSocket_err_ended: "newKCPSocket_err isInline k \<Longrightarrow> kcp_inv k \<and> kcp_closeForce_returns k"
proof -
  assume "newKCPSocket_err isInline k"
  then obtain m outs k1 k2 m2 where k1: "k1 \<in> set (kcp_sendInlines ((newKCPSocket False isInline)\<lparr>ks_mux := m\<rparr>) outs)"
    and k2: "steps kcp_step k1 k2" and k: "steps kcp_step (kcp_closeOnce (k2\<lparr>ks_mux := m2\<rparr>)) k" "kcp_closeForce_returns k"
    unfolding newKCPSocket_err_def by blast
  have "kcp_inv k1" using kcp_sendInlines_inv [OF k1] newKCPSocket_inv by simp
  then have "kcp_inv k2" using kcp_steps_ended [OF k2] by simp
  then have "kcp_inv (kcp_closeOnce (k2\<lparr>ks_mux := m2\<rparr>))" by (intro kcp_closeOnce_inv) simp
  with k kcp_steps_ended [OF k(1)] show ?thesis by simp
qed

interpretation kcp_cli: client_socket kcp_step kcp_Close_begins kcp_closeForce_returns "newKCPSocket_ok isInline"
    "newKCPSocket_err isInline" kcp_inv kcp_closeForce_returns for isInline
  using kcp_step_ended kcp_Close_begins_ended
  by unfold_locales (auto simp: kcp_closing_def newKCPSocket_ok_inv dest: newKCPSocket_err_ended)

section \<open>A KCP client and its handshake\<close>

lemma kcp_own_steps_sys: "steps kcp_own_step s t \<Longrightarrow> steps kcp_step s t"
  by (induction rule: steps.induct) (auto intro: steps.intros kcp_own_step_sys)

lemma kcp_closing_ends: "kcp_closing k \<Longrightarrow> \<exists>k'. steps kcp_step k k' \<and> kcp_closeForce_returns k'"
proof -
  assume "kcp_closing k"
  then obtain k' where k': "steps kcp_own_step k k'" "kcp_rank k' = 0" "kcp_closing k'" using kcp_down.reaches_goal by blast
  then show ?thesis using kcp_own_steps_sys
    by (auto simp: kcp_rank_0 kcp_closing_def kcp_inv_def kcp_control_inv_def kcp_closeForce_returns_def)
qed

text \<open>A handshake nobody answers.\<close>

lemma newKCPSocket_err_exists: "\<exists>k. newKCPSocket_err True k"
proof -
  obtain m outs where m: "mux_init (newKCPMux True False) = (m, outs, True)"
    by (simp add: mux_init_def newKCPMux_def Let_def)
  let ?n = "(newKCPSocket False True)\<lparr>ks_mux := m\<rparr>"
  obtain k1 where k1: "k1 \<in> set (kcp_sendInlines ?n outs)" using kcp_sendInlines_not_Nil by blast
  then have "kcp_inv k1" using kcp_sendInlines_inv newKCPSocket_inv by fastforce
  then have "kcp_closing (kcp_closeOnce (k1\<lparr>ks_mux := ks_mux k1\<rparr>))" by (simp add: kcp_closing_def kcp_closeOnce_inv)
  then obtain k where k: "steps kcp_step (kcp_closeOnce (k1\<lparr>ks_mux := ks_mux k1\<rparr>)) k" "kcp_closeForce_returns k"
    using kcp_closing_ends by blast
  have "(ks_mux k1, Some (MuxInitTimeout (mx_state (ks_mux k1)))) \<in> set (mux_init_wait (ks_mux k1))"
    by (simp add: mux_init_wait_def)
  then show ?thesis unfolding newKCPSocket_err_def using m k1 k steps_refl by metis
qed

text \<open>And one that the peer answers.\<close>

lemma newKCPSocket_ok_exists: "\<exists>k. newKCPSocket_ok True k"
proof -
  obtain m outs where m: "mux_init (newKCPMux True False) = (m, outs, True)" "mx_state m = kmsSynSent" "mx_initCh m = 0"
    by (simp add: mux_init_def newKCPMux_def Let_def)
  obtain k1 where k1: "k1 \<in> set (kcp_sendInlines ((newKCPSocket False True)\<lparr>ks_mux := m\<rparr>) outs)"
    using kcp_sendInlines_not_Nil by blast
  then have f: "ks_rd k1 = KRConnect" "ks_mux k1 = m" "\<not> ks_closeFlag k1"
    using kcp_sendInlines_from [OF k1] kcp_sendInlines_mux [OF k1] by (simp_all add: kcp_sent_from_def newKCPSocket_def)
  let ?m = "push_init (m\<lparr>mx_state := kmsEstablished\<rparr>)"
  let ?k2 = "k1\<lparr>ks_rd := KRLoop\<rparr>" and ?k3 = "k1\<lparr>ks_rd := KRParse\<rparr>"
  let ?k4 = "k1\<lparr>ks_mux := ?m, ks_rd := KRSend [kmsEstablished] False\<rparr>"
  have s2: "kcp_step k1 ?k2" using f by (intro kstep_read kr_connect)
  have s3: "kcp_step ?k2 ?k3" using kstep_read [OF kr_read [of ?k2]] f by simp
  have "kcp_read_step ?k3 (?k3\<lparr>ks_mux := ?m, ks_rd := KRSend [kmsEstablished] ((None :: go_error option) \<noteq> None)\<rparr>)"
    using f m(2) by (intro kr_inline [where ke = kmsSynRcvd and c = 5]) (simp_all add: inline_open)
  then have s4: "kcp_step ?k3 ?k4" using kstep_read by simp
  have "steps kcp_step k1 ?k4"
    by (rule steps_trans [where step = kcp_step, OF s2], rule steps_trans [where step = kcp_step, OF s3],
        rule steps_one [where step = kcp_step, OF s4])
  moreover have "(?m\<lparr>mx_initCh := 0\<rparr>, None) \<in> set (mux_init_wait (ks_mux ?k4))"
    using m(3) by (simp add: mux_init_wait_def push_init_def)
  ultimately show ?thesis unfolding newKCPSocket_ok_def using m(1) k1 by (metis (full_types))
qed

text \<open>\<open>Reconnect\<close> of a client, up to its dial.\<close>

lemma kcp_Close_begins_exists: "\<exists>k'. kcp_Close_begins k k'"
proof -
  obtain m outs w where m: "mux_close (ks_mux k) = (m, outs, w)" by (cases "mux_close (ks_mux k)")
  obtain k1 where k1: "k1 \<in> set (kcp_sendInlines (k\<lparr>ks_mux := m\<rparr>) outs)" using kcp_sendInlines_not_Nil by blast
  have w: "ks_mux k1 \<in> set (mux_close_wait (ks_mux k1))" by (simp add: mux_close_wait_def)
  have "kcp_Close_begins k (kcp_closeOnce (k1\<lparr>ks_mux := ks_mux k1\<rparr>))" unfolding kcp_Close_begins_def
    by (intro exI conjI, rule m, rule k1, rule steps_refl, rule w, rule refl)
  then show ?thesis by blast
qed

lemma kcp_client_redials:
  assumes "nc_panic s = None" and "nc_pc s = NcReady" and "nc_sock s = Some i" and "i < length (nc_socks s)"
    and "kcp_inv (nc_socks s ! i)"
  shows "\<exists>t. steps (kcp_client_step isInline) s t \<and> nc_pc t = NcDial \<and> nc_panic t = None \<and> nc_sock t = Some i"
proof -
  let ?k = "nc_socks s ! i" and ?st = "kcp_client_step isInline"
  obtain k2 where k2: "kcp_Close_begins ?k k2" using kcp_Close_begins_exists by blast
  then have "kcp_closing k2" using kcp_Close_begins_ended assms(5) by blast
  then obtain k3 where k3: "steps kcp_step k2 k3" "kcp_closeForce_returns k3" using kcp_closing_ends by blast
  let ?j = "s\<lparr>nc_pc := NcJoin True\<rparr>"
  let ?s1 = "s\<lparr>nc_socks := (nc_socks s)[i := k2], nc_pc := NcJoin True\<rparr>"
  let ?s2 = "s\<lparr>nc_socks := (nc_socks s)[i := k3], nc_pc := NcJoin True\<rparr>"
  have swap: "s\<lparr>nc_pc := p, nc_socks := x\<rparr> = s\<lparr>nc_socks := x, nc_pc := p\<rparr>" for p x by simp
  have r1: "?st s ?s1" unfolding kcp_client_step_def
    by (rule nc_close) (fact assms(1) assms(2) assms(3) k2)+
  have r2: "steps ?st ?s1 ?s2" unfolding kcp_client_step_def
    using client_runs [OF k3(1), of ?j i] assms(1,4) by (simp add: swap)
  have "?st ?s2 (?s2\<lparr>nc_pc := (if True then NcDial else NcReady)\<rparr>)" unfolding kcp_client_step_def
    using assms k3(2) by (intro nc_closed [where i = i]) simp_all
  then have r3: "?st ?s2 (?s2\<lparr>nc_pc := NcDial\<rparr>)" by simp
  have "steps ?st s (?s2\<lparr>nc_pc := NcDial\<rparr>)"
    by (rule steps_trans [where step = ?st, OF r1], rule steps_append [OF r2], rule steps_one [where step = ?st, OF r3])
  then show ?thesis using assms(1,3) by (intro exI [of _ "?s2\<lparr>nc_pc := NcDial\<rparr>"]) simp
qed

section \<open>Properties\<close>

text \<open>
  A client has at most one live socket: every socket a KCP client ever made, but the one it points to, has been closed and
  both its goroutines have ended, over any sequence of closes, reconnects and failed handshakes.
\<close>

theorem kcp_client_one_live_socket:
  assumes "reachable (client_init (newKCPSocket_ok isInline)) (kcp_client_step isInline) s" and "i < length (nc_socks s)"
  shows "nc_sock s = Some i \<or> kcp_closeForce_returns (nc_socks s ! i)"
  using kcp_cli.one_live_socket assms unfolding kcp_client_step_def by blast

text \<open>C38.
  A KCP client whose \<open>Reconnect\<close> fails in the handshake is left with a nil socket, since \<open>newSocket\<close> stores the pointer before it
  looks at the error: from any client in \<open>newSocket\<close> an unanswered handshake leads to a state where every further use of the
  client, \<open>SendMsg\<close>, \<open>Close\<close> or the next \<open>Reconnect\<close>, panics. Without the built in protocol this does not happen.
\<close>

theorem kcp_client_failed_reconnect_panics:
  assumes "reachable (client_init (newKCPSocket_ok True)) (kcp_client_step True) s" and "nc_pc s = NcDial"
    and "nc_panic s = None"
  shows "(\<exists>t u. kcp_client_step True s t \<and> nc_sock t = None \<and> nc_pc t = NcReady
      \<and> kcp_client_step True t u \<and> nc_panic u = Some NilDeref
      \<and> (\<forall>v. kcp_client_step True t v \<longrightarrow> nc_panic v = Some NilDeref \<or> nc_sock v = None \<and> nc_pc v = NcReady))
    \<and> (\<forall>t. reachable (client_init (newKCPSocket_ok False)) (kcp_client_step False) t \<longrightarrow> nc_sock t \<noteq> None)"
proof
  obtain k where k: "newKCPSocket_err True k" using newKCPSocket_err_exists by blast
  let ?t = "s\<lparr>nc_socks := nc_socks s @ [k], nc_sock := None, nc_pc := NcReady\<rparr>"
  have t: "kcp_client_step True s ?t" unfolding kcp_client_step_def by (rule nc_dial_nil) (fact assms(3) assms(2) k)+
  have u: "kcp_client_step True ?t (?t\<lparr>nc_panic := Some NilDeref\<rparr>)" unfolding kcp_client_step_def
    using assms(3) by (intro nc_nil) simp_all
  have "nc_panic v = Some NilDeref \<or> nc_sock v = None \<and> nc_pc v = NcReady" if "kcp_client_step True ?t v" for v
    using that unfolding kcp_client_step_def by (cases rule: client_step.cases) auto
  with t u show "\<exists>t u. kcp_client_step True s t \<and> nc_sock t = None \<and> nc_pc t = NcReady
      \<and> kcp_client_step True t u \<and> nc_panic u = Some NilDeref
      \<and> (\<forall>v. kcp_client_step True t v \<longrightarrow> nc_panic v = Some NilDeref \<or> nc_sock v = None \<and> nc_pc v = NcReady)"
    by (intro exI [of _ ?t] exI [of _ "?t\<lparr>nc_panic := Some NilDeref\<rparr>"]) simp
  have "\<not> newKCPSocket_err False k" for k by (simp add: newKCPSocket_err_def mux_init_def newKCPMux_def Let_def)
  then show "\<forall>t. reachable (client_init (newKCPSocket_ok False)) (kcp_client_step False) t \<longrightarrow> nc_sock t \<noteq> None"
    using kcp_cli.never_nil [of False] unfolding kcp_client_step_def by blast
qed

lemma kcp_client_reach_dial:
  "\<exists>s. reachable (client_init (newKCPSocket_ok True)) (kcp_client_step True) s \<and> nc_pc s = NcDial \<and> nc_panic s = None"
proof -
  obtain k where k: "newKCPSocket_ok True k" using newKCPSocket_ok_exists by blast
  then have r: "reachable (client_init (newKCPSocket_ok True)) (kcp_client_step True) (new_client k)"
    by (intro reach_init) (auto simp: client_init_def)
  have "nc_panic (new_client k) = None" "nc_pc (new_client k) = NcReady" "nc_sock (new_client k) = Some 0"
    "0 < length (nc_socks (new_client k))" "kcp_inv (nc_socks (new_client k) ! 0)"
    using newKCPSocket_ok_inv [OF k] by (simp_all add: new_client_def)
  from kcp_client_redials [OF this] obtain t where t: "steps (kcp_client_step True) (new_client k) t"
    "nc_pc t = NcDial" "nc_panic t = None" by blast
  have "reachable (client_init (newKCPSocket_ok True)) (kcp_client_step True) t" by (rule reachable_steps [OF t(1) r])
  with t show ?thesis by blast
qed

theorem kcp_client_failed_reconnect_panics_witness:
  "\<exists>s t. reachable (client_init (newKCPSocket_ok True)) (kcp_client_step True) s \<and> kcp_client_step True s t \<and> nc_sock t = None"
  using kcp_client_reach_dial kcp_client_failed_reconnect_panics by blast

theorem kcp_client_one_live_socket_witness:
  "\<exists>s. reachable (client_init (newKCPSocket_ok True)) (kcp_client_step True) s \<and> nc_pc s = NcReady
    \<and> kcp_closeForce_returns (nc_socks s ! 0) \<and> nc_sock s = None"
proof -
  obtain s where s: "reachable (client_init (newKCPSocket_ok True)) (kcp_client_step True) s" "nc_pc s = NcDial" "nc_panic s = None"
    using kcp_client_reach_dial by blast
  obtain k where k: "newKCPSocket_err True k" using newKCPSocket_err_exists by blast
  let ?t = "s\<lparr>nc_socks := nc_socks s @ [k], nc_sock := None, nc_pc := NcReady\<rparr>"
  have "kcp_client_step True s ?t" unfolding kcp_client_step_def by (rule nc_dial_nil) (fact s(3) s(2) k)+
  with s(1) have t: "reachable (client_init (newKCPSocket_ok True)) (kcp_client_step True) ?t" by (rule reach_step)
  with kcp_client_one_live_socket [OF t, of 0] show ?thesis by (intro exI [of _ ?t]) simp
qed

end
