(* ===== verification/Websocket_Server.thy ===== *)
theory Websocket_Server
  imports Websocket
begin

text \<open>
  The websocket server of \<open>pkg/xnet/websocket_server.go\<close>. The HTTP server runs one handler goroutine for each
  connection: it makes a websocket, puts it into the table, waits for its end and takes it out. \<open>Close\<close> closes what is in the
  table and then the HTTP server, which no longer knows the connections the handlers took over. Sockets live at addresses of a
  store; the upgrade and the HTTP server itself are the environment.
\<close>

section \<open>State\<close>

text \<open>A handler: at \<open>addSocket\<close>, in \<open>WaitUntilClose\<close>, at \<open>delSocket\<close>, returned.\<close>

datatype wh_pc = WhAdd | WhWait | WhDel | WhDone

text \<open>\<open>Close\<close>; it holds the mutex in the two states with a list.\<close>

datatype wm_pc =
    WmServing
  | WmCloseSock "nat list"
  | WmJoin "nat list"
  | WmHttp
  | WmWait
  | WmClosed

record ws_server =
  wv_main :: wm_pc
  wv_handler :: "nat \<Rightarrow> wh_pc"
  wv_sockets :: "nat set"
  wv_store :: "nat \<Rightarrow> websocket"
  wv_next :: nat
  wv_serving :: bool
  wv_wg :: int

text \<open>\<open>start\<close> launches the HTTP server and is done; the wait group is back at zero when \<open>NewWSServer\<close> returns.\<close>

definition NewWSServer :: ws_server where
  "NewWSServer =
     \<lparr>wv_main = WmServing, wv_handler = (\<lambda>_. WhDone), wv_sockets = {}, wv_store = (\<lambda>_. NewWebsocket), wv_next = 0,
      wv_serving = True, wv_wg = 0 + 1 - 1\<rparr>"

section \<open>Operations\<close>

fun wmu_held :: "wm_pc \<Rightarrow> bool" where
  "wmu_held (WmCloseSock xs) = True"
| "wmu_held (WmJoin xs) = True"
| "wmu_held _ = False"

definition wv_put :: "nat \<Rightarrow> websocket \<Rightarrow> ws_server \<Rightarrow> ws_server" where
  "wv_put a x s = s\<lparr>wv_store := (wv_store s)(a := x)\<rparr>"

definition ws_addSocket :: "nat \<Rightarrow> ws_server \<Rightarrow> ws_server" where
  "ws_addSocket a s = s\<lparr>wv_sockets := insert a (wv_sockets s)\<rparr>"

definition ws_delSocket :: "nat \<Rightarrow> ws_server \<Rightarrow> ws_server" where
  "ws_delSocket a s = s\<lparr>wv_sockets := wv_sockets s - {a}\<rparr>"

definition wv_goto :: "nat \<Rightarrow> wh_pc \<Rightarrow> ws_server \<Rightarrow> ws_server" where
  "wv_goto a pc s = s\<lparr>wv_handler := (wv_handler s)(a := pc)\<rparr>"

text \<open>\<open>wh_upgrade\<close> is the upgrade of a connection and \<open>NewWebsocket\<close>; a failed upgrade changes nothing.\<close>

inductive wv_handler_step :: "ws_server \<Rightarrow> ws_server \<Rightarrow> bool" where
  wh_upgrade: "wv_serving s \<Longrightarrow>
    wv_handler_step s (s\<lparr>wv_store := (wv_store s)(wv_next s := NewWebsocket),
      wv_handler := (wv_handler s)(wv_next s := WhAdd), wv_next := wv_next s + 1\<rparr>)"
| wh_add: "a < wv_next s \<Longrightarrow> wv_handler s a = WhAdd \<Longrightarrow> \<not> wmu_held (wv_main s) \<Longrightarrow>
    wv_handler_step s (wv_goto a WhWait (ws_addSocket a s))"
| wh_wait: "a < wv_next s \<Longrightarrow> wv_handler s a = WhWait \<Longrightarrow> ws_WaitUntilClose_returns (wv_store s a) \<Longrightarrow>
    wv_handler_step s (wv_goto a WhDel s)"
| wh_del: "a < wv_next s \<Longrightarrow> wv_handler s a = WhDel \<Longrightarrow> \<not> wmu_held (wv_main s) \<Longrightarrow>
    wv_handler_step s (wv_goto a WhDone (ws_delSocket a s))"

text \<open>\<open>Close\<close>; the table is ranged over in any order.\<close>

inductive wv_main_step :: "ws_server \<Rightarrow> ws_server \<Rightarrow> bool" where
  wm_lock: "wv_main s = WmServing \<or> wv_main s = WmClosed \<Longrightarrow> distinct xs \<Longrightarrow> set xs = wv_sockets s \<Longrightarrow>
    wv_main_step s (s\<lparr>wv_main := WmCloseSock xs\<rparr>)"
| wm_close: "wv_main s = WmCloseSock (a # xs) \<Longrightarrow>
    wv_main_step s ((wv_put a (ws_forceClose (wv_store s a)) s)\<lparr>wv_main := WmJoin (a # xs)\<rparr>)"
| wm_join: "wv_main s = WmJoin (a # xs) \<Longrightarrow> ws_Close_returns (wv_store s a) \<Longrightarrow>
    wv_main_step s (s\<lparr>wv_main := WmCloseSock xs\<rparr>)"
| wm_unlock: "wv_main s = WmCloseSock [] \<Longrightarrow> wv_main_step s (s\<lparr>wv_main := WmHttp\<rparr>)"
| wm_http: "wv_main s = WmHttp \<Longrightarrow> wv_main_step s (s\<lparr>wv_serving := False, wv_main := WmWait\<rparr>)"
| wm_wait: "wv_main s = WmWait \<Longrightarrow> wv_wg s = 0 \<Longrightarrow> wv_main_step s (s\<lparr>wv_main := WmClosed\<rparr>)"

inductive wv_step :: "ws_server \<Rightarrow> ws_server \<Rightarrow> bool" where
  wv_handle: "wv_handler_step s t \<Longrightarrow> wv_step s t"
| wv_close: "wv_main_step s t \<Longrightarrow> wv_step s t"
| wv_socket: "a < wv_next s \<Longrightarrow> ws_step (wv_store s a) x \<Longrightarrow> wv_step s (wv_put a x s)"

definition wv_init :: "ws_server \<Rightarrow> bool" where
  "wv_init s \<longleftrightarrow> s = NewWSServer"

section \<open>The life of a socket, whatever is sent\<close>

text \<open>What \<open>Websocket\<close> shows of the control state without its hypothesis on nil messages.\<close>

fun wrd_count :: "wrd_pc \<Rightarrow> int" where
  "wrd_count WRForceClose = 0"
| "wrd_count WRExit = 0"
| "wrd_count _ = 1"

fun wwr_count :: "wwr_pc \<Rightarrow> int" where
  "wwr_count WWCloseMsg = 0"
| "wwr_count WWConnClose = 0"
| "wwr_count WWExit = 0"
| "wwr_count _ = 1"

lemma ws_counts: "0 \<le> wrd_count r" "0 \<le> wwr_count w"
  by (cases r; simp) (cases w; simp)

definition ws_life :: "websocket \<Rightarrow> bool" where
  "ws_life s \<longleftrightarrow> ws_closeOnce s = ws_closeCh s
     \<and> ws_wg s = wrd_count (ws_rd s) + wwr_count (ws_wr s)
     \<and> (ws_connClosed s \<longleftrightarrow> ws_wr s = WWExit) \<and> ws_panic s = None"

lemma ws_life_new: "ws_life NewWebsocket"
  by (simp add: ws_life_def NewWebsocket_def)

text \<open>What a socket never undoes.\<close>

definition ws_evolves :: "websocket \<Rightarrow> websocket \<Rightarrow> bool" where
  "ws_evolves x y \<longleftrightarrow> ws_life y \<and> (ws_closeOnce x \<longrightarrow> ws_closeOnce y) \<and> (ws_wg x = 0 \<longrightarrow> ws_wg y = 0)"

lemma ws_evolves_close: "ws_life x \<Longrightarrow> ws_evolves x (ws_forceClose x)"
  by (simp add: ws_evolves_def ws_life_def ws_forceClose_def)

lemma ws_evolves_read: "ws_read_step x y \<Longrightarrow> ws_life x \<Longrightarrow> ws_evolves x y"
proof (induction rule: ws_read_step.induct)
  case (wrd_wg s)
  then show ?case using ws_counts(2) [of "ws_wr s"] by (simp add: ws_evolves_def ws_life_def ws_wg_Done_def)
next
  case (wrd_close s)
  then have "ws_life (s\<lparr>ws_rd := WRExit\<rparr>)" by (simp add: ws_life_def)
  from ws_evolves_close [OF this] show ?case by (simp add: ws_evolves_def)
qed (simp_all add: ws_evolves_def ws_life_def)

lemma ws_evolves_write: "ws_write_step x y \<Longrightarrow> ws_life x \<Longrightarrow> ws_evolves x y"
proof (induction rule: ws_write_step.induct)
  case (wwr_wg s)
  then show ?case using ws_counts(1) [of "ws_rd s"] by (simp add: ws_evolves_def ws_life_def ws_wg_Done_def)
qed (simp_all add: ws_evolves_def ws_life_def)

lemma ws_evolves_step: "ws_step x y \<Longrightarrow> ws_life x \<Longrightarrow> ws_evolves x y"
proof (induction rule: ws_step.induct)
  case (wstep_send r t s m)
  then show ?case using ws_SendMsg_cases [of r t s m] by (auto simp: ws_evolves_def ws_life_def)
qed (auto intro: ws_evolves_read ws_evolves_write ws_evolves_close)

text \<open>The socket's own steps until its wait group is empty; a failing write is not among them, a nil message may be.\<close>

inductive ws_join_step :: "websocket \<Rightarrow> websocket \<Rightarrow> bool" where
  wjoin: "ws_wg s \<noteq> 0 \<Longrightarrow> ws_own_step s t \<Longrightarrow> ws_join_step s t"

definition ws_join_rank :: "websocket \<Rightarrow> nat" where
  "ws_join_rank s = (if ws_wg s = 0 then 0 else ws_rank s)"

definition ws_ending :: "websocket \<Rightarrow> bool" where
  "ws_ending s \<longleftrightarrow> ws_life s \<and> ws_closeOnce s"

lemma ws_join_ending: "ws_join_step s t \<Longrightarrow> ws_ending s \<Longrightarrow> ws_ending t"
  using ws_evolves_step [OF ws_own_step_sys] by (auto elim!: ws_join_step.cases simp: ws_ending_def ws_evolves_def)

interpretation ws_joining: progress_measure ws_ending ws_join_step ws_ending ws_join_step ws_join_rank
proof
  show "ws_join_rank t < ws_join_rank s" if "ws_join_step s t" for s t
    using that ws_own_step_rank by (fastforce elim: ws_join_step.cases simp: ws_join_rank_def)
  show "\<exists>t. ws_join_step s t" if "ws_ending s" "0 < ws_join_rank s" for s
  proof -
    have "ws_wg s \<noteq> 0" "0 < ws_rank s" "ws_closeCh s" "ws_wr s = WWExit \<longrightarrow> ws_connClosed s"
      using that by (auto simp: ws_ending_def ws_life_def ws_join_rank_def split: if_splits)
    with ws_own_step_available show ?thesis by (blast intro: wjoin)
  qed
qed (auto intro: ws_join_ending)

lemma ws_rank_0: "ws_rank s = 0 \<longleftrightarrow> ws_rd s = WRExit \<and> ws_wr s = WWExit"
  by (cases "ws_rd s"; cases "ws_wr s") (simp_all add: ws_rank_def)

lemma ws_joins: "ws_ending s \<Longrightarrow> \<exists>t. steps ws_join_step s t \<and> ws_Close_returns t"
proof -
  assume "ws_ending s"
  then obtain t where t: "steps ws_join_step s t" "ws_join_rank t = 0" "ws_ending t" using ws_joining.reaches_goal by blast
  have "ws_wg t = 0" using t(2,3) by (auto simp: ws_join_rank_def ws_rank_0 ws_ending_def ws_life_def split: if_splits)
  with t show ?thesis by (auto simp: ws_Close_returns_def ws_WaitUntilClose_returns_def ws_ending_def)
qed

section \<open>Invariant\<close>

fun wm_list :: "wm_pc \<Rightarrow> nat list" where
  "wm_list (WmCloseSock xs) = xs"
| "wm_list (WmJoin xs) = xs"
| "wm_list _ = []"

text \<open>The table holds the sockets whose handlers are between \<open>addSocket\<close> and \<open>delSocket\<close>, and a handler gets there only with a dead socket.\<close>

definition wv_table_inv :: "ws_server \<Rightarrow> bool" where
  "wv_table_inv s \<longleftrightarrow> wv_sockets s = {a. a < wv_next s \<and> (wv_handler s a = WhWait \<or> wv_handler s a = WhDel)}
     \<and> (\<forall>a < wv_next s. wv_handler s a = WhDel \<or> wv_handler s a = WhDone \<longrightarrow> ws_wg (wv_store s a) = 0)
     \<and> (\<forall>a. ws_life (wv_store s a))"

definition wv_main_inv :: "ws_server \<Rightarrow> bool" where
  "wv_main_inv s \<longleftrightarrow> (\<forall>a \<in> set (wm_list (wv_main s)). a < wv_next s) \<and> wv_wg s = 0
     \<and> (wv_main s = WmWait \<longrightarrow> \<not> wv_serving s)"

definition wv_inv :: "ws_server \<Rightarrow> bool" where
  "wv_inv s \<longleftrightarrow> wv_table_inv s \<and> wv_main_inv s"

lemmas wv_inv_defs = wv_inv_def wv_table_inv_def wv_main_inv_def

lemma wv_put_fields [simp]:
  "wv_main (wv_put a x s) = wv_main s" "wv_handler (wv_put a x s) = wv_handler s" "wv_sockets (wv_put a x s) = wv_sockets s"
  "wv_next (wv_put a x s) = wv_next s" "wv_serving (wv_put a x s) = wv_serving s" "wv_wg (wv_put a x s) = wv_wg s"
  "wv_store (wv_put a x s) = (wv_store s)(a := x)"
  by (simp_all add: wv_put_def)

lemma wv_put_main: "wv_put a x (s\<lparr>wv_main := pc\<rparr>) = (wv_put a x s)\<lparr>wv_main := pc\<rparr>"
  by (simp add: wv_put_def)

lemma wv_put_put: "wv_put a y (wv_put a x s) = wv_put a y s"
  by (simp add: wv_put_def)

lemma wv_put_inv:
  assumes "wv_inv s" and "ws_evolves (wv_store s a) x"
  shows "wv_inv (wv_put a x s)"
proof -
  have keep: "ws_wg (wv_store s b) = 0 \<Longrightarrow> ws_wg (((wv_store s)(a := x)) b) = 0"
    "ws_life (wv_store s b) \<Longrightarrow> ws_life (((wv_store s)(a := x)) b)" for b
    using assms(2) by (auto simp: ws_evolves_def)
  have "wv_table_inv (wv_put a x s)" using assms(1) keep
    by (simp add: wv_inv_def wv_table_inv_def del: fun_upd_apply)
  moreover have "wv_main_inv (wv_put a x s)" using assms(1) by (simp add: wv_inv_def wv_main_inv_def)
  ultimately show ?thesis by (simp add: wv_inv_def)
qed

lemma wv_handler_step_inv: "wv_handler_step s t \<Longrightarrow> wv_inv s \<Longrightarrow> wv_inv t"
proof (induction rule: wv_handler_step.induct)
  case (wh_upgrade s)
  then show ?case using ws_life_new by (auto simp: wv_inv_defs less_Suc_eq)
next
  case (wh_add a s)
  then show ?case by (auto simp: wv_inv_defs wv_goto_def ws_addSocket_def)
next
  case (wh_wait a s)
  then show ?case by (auto simp: wv_inv_defs wv_goto_def ws_WaitUntilClose_returns_def)
next
  case (wh_del a s)
  then show ?case by (auto simp: wv_inv_defs wv_goto_def ws_delSocket_def)
qed

lemma wv_main_step_inv: "wv_main_step s t \<Longrightarrow> wv_inv s \<Longrightarrow> wv_inv t"
proof (induction rule: wv_main_step.induct)
  case (wm_close s a xs)
  have "ws_evolves (wv_store s a) (ws_forceClose (wv_store s a))"
    using wm_close.prems by (intro ws_evolves_close) (simp add: wv_inv_defs)
  from wv_put_inv [OF wm_close.prems this] wm_close.hyps show ?case by (simp add: wv_inv_defs)
qed (auto simp: wv_inv_defs)

interpretation wv_sys: inductive_invariant wv_init wv_step wv_inv
proof
  show "wv_inv s" if "wv_init s" for s
    using that ws_life_new by (simp add: wv_init_def NewWSServer_def wv_inv_defs)
  show "wv_inv t" if "wv_inv s" "wv_step s t" for s t
    using that(2,1)
  proof (induction rule: wv_step.induct)
    case (wv_socket a s x)
    then show ?case by (intro wv_put_inv ws_evolves_step) (simp_all add: wv_inv_defs)
  qed (auto intro: wv_handler_step_inv wv_main_step_inv)
qed

section \<open>Close comes to its end\<close>

text \<open>The server's own steps: those of \<open>Close\<close> and of the sockets it waits for.\<close>

inductive wv_own_step :: "ws_server \<Rightarrow> ws_server \<Rightarrow> bool" where
  wvo_main: "wv_main_step s t \<Longrightarrow> wv_main s \<noteq> WmServing \<Longrightarrow> wv_main s \<noteq> WmClosed \<Longrightarrow> wv_own_step s t"
| wvo_socket: "a < wv_next s \<Longrightarrow> ws_closeOnce (wv_store s a) \<Longrightarrow> ws_join_step (wv_store s a) x \<Longrightarrow> wv_own_step s (wv_put a x s)"

lemma wv_own_step_sys: "wv_own_step s t \<Longrightarrow> wv_step s t"
  by (induction rule: wv_own_step.induct)
    (auto elim!: ws_join_step.cases intro: wv_step.intros ws_own_step_sys)

lemma wv_own_steps_inv: "steps wv_own_step s t \<Longrightarrow> wv_inv s \<Longrightarrow> wv_inv t"
  by (induction rule: steps.induct) (auto intro: wv_sys.inv_step wv_own_step_sys)

lemma wv_socket_steps:
  "steps ws_join_step x y \<Longrightarrow> a < wv_next s \<Longrightarrow> ws_ending x \<Longrightarrow> steps wv_own_step (wv_put a x s) (wv_put a y s)"
proof (induction rule: steps.induct)
  case (steps_trans x y z)
  have "wv_own_step (wv_put a x s) (wv_put a y (wv_put a x s))"
    by (rule wvo_socket) (use steps_trans in \<open>simp_all add: ws_ending_def\<close>)
  moreover have "ws_ending y" using steps_trans ws_join_ending by blast
  ultimately show ?case using steps_trans by (simp add: wv_put_put steps.steps_trans)
qed (rule steps_refl)

lemma wv_close_one:
  assumes "wv_main s = WmCloseSock (a # xs)" and "wv_inv s"
  shows "\<exists>y. steps wv_own_step s ((wv_put a y s)\<lparr>wv_main := WmCloseSock xs\<rparr>) \<and> ws_Close_returns y"
proof -
  let ?c = "ws_forceClose (wv_store s a)"
  let ?s1 = "(wv_put a ?c s)\<lparr>wv_main := WmJoin (a # xs)\<rparr>"
  have a: "a < wv_next s" "ws_life (wv_store s a)" using assms by (simp_all add: wv_inv_defs)
  have r1: "wv_own_step s ?s1" using assms(1) by (intro wvo_main wm_close) simp_all
  have ending: "ws_ending ?c" using ws_evolves_close [OF a(2)] by (simp add: ws_ending_def ws_evolves_def ws_forceClose_def)
  then obtain y where y: "steps ws_join_step ?c y" "ws_Close_returns y" using ws_joins by blast
  let ?s2 = "(wv_put a y s)\<lparr>wv_main := WmJoin (a # xs)\<rparr>"
  have "steps wv_own_step (wv_put a ?c ?s1) (wv_put a y ?s1)"
    by (rule wv_socket_steps [OF y(1) _ ending]) (simp add: a(1))
  then have r2: "steps wv_own_step ?s1 ?s2" by (simp only: wv_put_main wv_put_put)
  have "wv_own_step ?s2 (?s2\<lparr>wv_main := WmCloseSock xs\<rparr>)"
    using y(2) by (intro wvo_main wm_join [where a = a]) simp_all
  then have r3: "wv_own_step ?s2 ((wv_put a y s)\<lparr>wv_main := WmCloseSock xs\<rparr>)" by simp
  have "steps wv_own_step s ((wv_put a y s)\<lparr>wv_main := WmCloseSock xs\<rparr>)"
    by (rule steps_trans [where step = wv_own_step, OF r1], rule steps_append [OF r2],
        rule steps_one [where step = wv_own_step, OF r3])
  with y(2) show ?thesis by blast
qed

lemma wv_close_list:
  "wv_main s = WmCloseSock xs \<Longrightarrow> wv_inv s \<Longrightarrow>
     \<exists>t. steps wv_own_step s t \<and> wv_main t = WmCloseSock [] \<and> (\<forall>a \<in> set xs. ws_Close_returns (wv_store t a))
       \<and> (\<forall>a. ws_Close_returns (wv_store s a) \<longrightarrow> ws_Close_returns (wv_store t a))"
proof (induction xs arbitrary: s)
  case Nil
  then show ?case by (intro exI [of _ s]) (simp add: steps_refl)
next
  case (Cons a xs)
  from wv_close_one [OF Cons.prems] obtain y where
    run: "steps wv_own_step s ((wv_put a y s)\<lparr>wv_main := WmCloseSock xs\<rparr>)" and y: "ws_Close_returns y" by blast
  let ?s3 = "(wv_put a y s)\<lparr>wv_main := WmCloseSock xs\<rparr>"
  have "wv_inv ?s3" by (rule wv_own_steps_inv [OF run Cons.prems(2)])
  from Cons.IH [OF _ this] obtain t where t: "steps wv_own_step ?s3 t" "wv_main t = WmCloseSock []"
    "\<forall>b \<in> set xs. ws_Close_returns (wv_store t b)"
    "\<forall>b. ws_Close_returns (((wv_store s)(a := y)) b) \<longrightarrow> ws_Close_returns (wv_store t b)"
    by (auto simp del: fun_upd_apply)
  have "ws_Close_returns (wv_store t a)" using t(4) y by simp
  moreover have "ws_Close_returns (wv_store s b) \<longrightarrow> ws_Close_returns (wv_store t b)" for b
    using t(4) y by (cases "b = a") auto
  moreover note steps_append [OF run t(1)]
  ultimately show ?case using t(2,3) by (intro exI [of _ t]) simp
qed

lemma wv_reach_new: "reachable wv_init wv_step NewWSServer"
  by (rule reach_init) (simp add: wv_init_def)

section \<open>Properties\<close>

text \<open>
  The table of the websocket server is exact: it holds precisely the sockets whose handlers are between \<open>addSocket\<close> and the end of
  \<open>delSocket\<close>; a socket outside it is about to be added or has ended both its loops, and a handler takes a socket
  out only after both have ended. No socket panics, whatever is sent, nil messages included.
\<close>

theorem ws_server_table:
  assumes "reachable wv_init wv_step s"
  shows "wv_sockets s = {a. a < wv_next s \<and> (wv_handler s a = WhWait \<or> wv_handler s a = WhDel)}
    \<and> (\<forall>a. a < wv_next s \<and> a \<notin> wv_sockets s \<longrightarrow> wv_handler s a = WhAdd \<or> ws_WaitUntilClose_returns (wv_store s a))
    \<and> (\<forall>a. ws_panic (wv_store s a) = None)"
proof -
  have inv: "wv_table_inv s" using wv_sys.inv_reachable [OF assms] by (simp add: wv_inv_def)
  have "wv_handler s a = WhAdd \<or> ws_wg (wv_store s a) = 0" if "a < wv_next s" "a \<notin> wv_sockets s" for a
    using inv that by (cases "wv_handler s a") (auto simp: wv_table_inv_def)
  with inv show ?thesis by (auto simp: wv_table_inv_def ws_WaitUntilClose_returns_def ws_life_def)
qed

theorem ws_server_table_witness: "wv_sockets NewWSServer = {}"
  using ws_server_table [OF wv_reach_new] by (simp add: NewWSServer_def)

text \<open>
  \<open>WSServer.Close\<close> completes: from any state in which the server serves, the goroutines of the sockets in the table, if no
  write fails, lead from \<open>Close\<close>'s lock to its return; every one of those sockets has ended, and the HTTP server is closed.
\<close>

theorem ws_server_close_completes:
  assumes "reachable wv_init wv_step s" and "wv_main s = WmServing"
  shows "\<exists>s0 t. wv_main_step s s0 \<and> wmu_held (wv_main s0) \<and> steps wv_own_step s0 t \<and> wv_main t = WmClosed
    \<and> \<not> wv_serving t \<and> (\<forall>a \<in> wv_sockets s. ws_Close_returns (wv_store t a))"
proof -
  have inv: "wv_inv s" by (rule wv_sys.inv_reachable [OF assms(1)])
  have "finite (wv_sockets s)" using inv by (simp add: wv_inv_defs)
  then obtain xs where xs: "set xs = wv_sockets s" "distinct xs" using finite_distinct_list by auto
  let ?s0 = "s\<lparr>wv_main := WmCloseSock xs\<rparr>"
  have lock: "wv_main_step s ?s0" using assms(2) xs by (intro wm_lock) simp_all
  have inv0: "wv_inv ?s0" by (rule wv_main_step_inv [OF lock inv])
  from wv_close_list [OF _ inv0, of xs] obtain u where u: "steps wv_own_step ?s0 u" "wv_main u = WmCloseSock []"
    "\<forall>a \<in> set xs. ws_Close_returns (wv_store u a)" by auto
  have wg: "wv_wg u = 0" using wv_own_steps_inv [OF u(1) inv0] by (simp add: wv_inv_defs)
  let ?u1 = "u\<lparr>wv_main := WmHttp\<rparr>"
  let ?u2 = "u\<lparr>wv_serving := False, wv_main := WmWait\<rparr>" and ?t = "u\<lparr>wv_serving := False, wv_main := WmClosed\<rparr>"
  have r1: "wv_own_step u ?u1" using u(2) by (intro wvo_main wm_unlock) simp_all
  have r2: "wv_own_step ?u1 ?u2" using wvo_main [OF wm_http [of ?u1]] by simp
  have r3: "wv_own_step ?u2 ?t" using wvo_main [OF wm_wait [of ?u2]] wg by simp
  have "steps wv_own_step ?s0 ?t"
    by (rule steps_append [OF u(1)], rule steps_trans [where step = wv_own_step, OF r1],
        rule steps_trans [where step = wv_own_step, OF r2], rule steps_one [where step = wv_own_step, OF r3])
  with lock u(3) xs(1) show ?thesis by (intro exI [of _ ?s0] exI [of _ ?t]) simp
qed

theorem ws_server_close_completes_witness:
  "\<exists>s0 t. wv_main_step NewWSServer s0 \<and> steps wv_own_step s0 t \<and> wv_main t = WmClosed"
  using ws_server_close_completes [OF wv_reach_new] by (auto simp: NewWSServer_def)

text \<open>
  \<open>Close\<close> can miss a connection for good: closing the HTTP server does not touch the connections its handlers took
  over, so a handler that has not yet reached \<open>addSocket\<close> when \<open>Close\<close> walks the table goes on after \<open>Close\<close> has
  returned, with both loops of its socket running and nobody left to close it.
\<close>

theorem ws_server_close_leaks_socket:
  "\<exists>s. reachable wv_init wv_step s \<and> wv_main s = WmClosed \<and> \<not> wv_serving s
     \<and> (\<exists>a \<in> wv_sockets s. wv_handler s a = WhWait \<and> \<not> ws_closeOnce (wv_store s a) \<and> ws_wg (wv_store s a) = 2)"
proof -
  let ?n = "NewWSServer\<lparr>wv_store := (wv_store NewWSServer)(0 := NewWebsocket), wv_handler := (wv_handler NewWSServer)(0 := WhAdd), wv_next := 1\<rparr>"
  let ?n1 = "?n\<lparr>wv_main := WmCloseSock []\<rparr>" and ?n2 = "?n\<lparr>wv_main := WmHttp\<rparr>"
  let ?n3 = "?n\<lparr>wv_serving := False, wv_main := WmWait\<rparr>" and ?n4 = "?n\<lparr>wv_serving := False, wv_main := WmClosed\<rparr>"
  let ?t = "wv_goto 0 WhWait (ws_addSocket 0 ?n4)"
  note new = NewWSServer_def
  have r0: "wv_step NewWSServer ?n" using wv_handle [OF wh_upgrade [of NewWSServer]] by (simp add: new)
  have r1: "wv_step ?n ?n1" by (intro wv_close wm_lock) (simp_all add: new)
  have r2: "wv_step ?n1 ?n2" using wv_close [OF wm_unlock [of ?n1]] by simp
  have r3: "wv_step ?n2 ?n3" using wv_close [OF wm_http [of ?n2]] by simp
  have r4: "wv_step ?n3 ?n4" using wv_close [OF wm_wait [of ?n3]] by (simp add: new)
  have r5: "wv_step ?n4 ?t" by (intro wv_handle wh_add) simp_all
  have "steps wv_step NewWSServer ?t"
    by (rule steps_trans [where step = wv_step, OF r0], rule steps_trans [where step = wv_step, OF r1],
        rule steps_trans [where step = wv_step, OF r2], rule steps_trans [where step = wv_step, OF r3],
        rule steps_trans [where step = wv_step, OF r4], rule steps_one [where step = wv_step, OF r5])
  then have "reachable wv_init wv_step ?t" by (rule reachable_steps [OF _ wv_reach_new])
  then show ?thesis
    by (intro exI [of _ ?t] conjI bexI [of _ 0]) (simp_all add: wv_goto_def ws_addSocket_def new NewWebsocket_def)
qed

end
