(* ===== verification/Latency_Actor.thy ===== *)
theory Latency_Actor
  imports Actor_Manager Latency_Mock
begin

text \<open>
  The latency module as an actor: \<open>InitArg\<close> and \<open>Name\<close> of \<open>pkg/xlatency/latency.go\<close> give \<open>pkg/xactor\<close> the module's four methods and its
  ticker. \<open>Latency_Mock\<close> has the methods, \<open>Actor_Loop\<close> the actor; here the requests of the one reach the methods of
  the other, and what was shown of the module alone holds of the running actor.
\<close>

section \<open>Requests\<close>

text \<open>The dynamic types of the requests and responses.\<close>

definition tRegisterSendToCliReq :: nat where "tRegisterSendToCliReq = 0"
definition tRegisterSendToCliResp :: nat where "tRegisterSendToCliResp = 1"
definition tRegisterSendToSvrReq :: nat where "tRegisterSendToSvrReq = 2"
definition tRegisterSendToSvrResp :: nat where "tRegisterSendToSvrResp = 3"
definition tRecvFromCliReq :: nat where "tRecvFromCliReq = 4"
definition tRecvFromSvrReq :: nat where "tRecvFromSvrReq = 5"

lemmas req_types = tRegisterSendToCliReq_def tRegisterSendToCliResp_def tRegisterSendToSvrReq_def
  tRegisterSendToSvrResp_def tRecvFromCliReq_def tRecvFromSvrReq_def

text \<open>The fields of a request: a function or a message; the responses have none.\<close>

type_synonym 'f lat_fields = "'f option \<times> bytes"

section \<open>The module\<close>

text \<open>
  The module's state with the history of \<open>Latency_Mock\<close>, or the panic that ended the process, and the number of turns, which
  index the clock: its reading where the generator is seeded and where a deadline is computed.
\<close>

record ('f, 'g) lat_module =
  ml_run :: "('f, 'g) latency_run go"
  ml_turn :: nat

definition new_module :: "LatencyMockArgs \<Rightarrow> 'g \<Rightarrow> ('f, 'g) lat_module" where
  "new_module arg g = \<lparr>ml_run = Ret (new_run (NewLatencyActor arg) g), ml_turn = 0\<rparr>"

definition module_event :: "'g go_rand \<Rightarrow> latency_event \<Rightarrow> ('f, 'g) lat_module \<Rightarrow> ('f, 'g) lat_module" where
  "module_event R e m = m\<lparr>ml_run := go_bind (ml_run m) (run_event R e), ml_turn := ml_turn m + 1\<rparr>"

definition module_recv :: "'g go_rand \<Rightarrow> (nat \<Rightarrow> i64 \<times> i64) \<Rightarrow> bool \<Rightarrow> ('f, 'g) lat_module \<Rightarrow> 'f lat_fields \<Rightarrow>
    ('f, 'g) lat_module" where
  "module_recv R clock inout m req =
     (case clock (ml_turn m) of (now1, now2) \<Rightarrow> module_event R (Recv inout (snd req) now1 now2) m)"

definition module_tick :: "'g go_rand \<Rightarrow> (nat \<Rightarrow> i64 \<times> i64) \<Rightarrow> ('f, 'g) lat_module \<Rightarrow> ('f, 'g) lat_module" where
  "module_tick R clock m = module_event R (Tick (fst (clock (ml_turn m)))) m"

definition module_register :: "('f option \<Rightarrow> 'f LatencyActor \<Rightarrow> 'f LatencyActor) \<Rightarrow> ('f, 'g) lat_module \<Rightarrow> 'f lat_fields \<Rightarrow>
    ('f, 'g) lat_module \<times> 'f lat_fields \<times> go_error option" where
  "module_register reg m req =
     (m\<lparr>ml_run := go_bind (ml_run m) (\<lambda>w. Ret (w\<lparr>lr_actor := reg (fst req) (lr_actor w)\<rparr>))\<rparr>, (None, []), None)"

text \<open>\<open>InitArg\<close>; the ticker's period is a millisecond.\<close>

definition InitArg :: "'g go_rand \<Rightarrow> (nat \<Rightarrow> i64 \<times> i64) \<Rightarrow> (('f, 'g) lat_module, 'f lat_fields) handler_args" where
  "InitArg R clock =
     \<lparr>Syncs = [SyncHandlerWrap tRegisterSendToCliReq tRegisterSendToCliResp (module_register RegisterSendToCli),
               SyncHandlerWrap tRegisterSendToSvrReq tRegisterSendToSvrResp (module_register RegisterSendToSvr)],
      Asyncs = [AsyncHandlerWrap tRecvFromCliReq (module_recv R clock False),
                AsyncHandlerWrap tRecvFromSvrReq (module_recv R clock True)],
      Tickers = [module_tick R clock], TickerDuration = 1000000\<rparr>"

section \<open>Registration\<close>

definition lat_sync :: "('f, 'g) lat_module \<Rightarrow> 'f lat_fields iface \<Rightarrow>
    ('f, 'g) lat_module \<times> 'f lat_fields mail_result" where
  "lat_sync m req =
     (case req of
        Some (t, v) \<Rightarrow>
          if t = tRegisterSendToCliReq
          then (fst (module_register RegisterSendToCli m v), Some (tRegisterSendToCliResp, None, []), None)
          else if t = tRegisterSendToSvrReq
          then (fst (module_register RegisterSendToSvr m v), Some (tRegisterSendToSvrResp, None, []), None)
          else (m, None, Some HandlerNil)
      | None \<Rightarrow> (m, None, Some HandlerNil))"

definition lat_async :: "'g go_rand \<Rightarrow> (nat \<Rightarrow> i64 \<times> i64) \<Rightarrow> ('f, 'g) lat_module \<Rightarrow> 'f lat_fields iface \<Rightarrow> ('f, 'g) lat_module" where
  "lat_async R clock m req =
     (case req of
        Some (t, v) \<Rightarrow>
          if t = tRecvFromCliReq then module_recv R clock False m v
          else if t = tRecvFromSvrReq then module_recv R clock True m v else m
      | None \<Rightarrow> m)"

lemma handle_split:
  "m_t m = syncMail \<Longrightarrow> handle_mail h st m =
     (case getSyncHandler h (TypeOf (m_req m)) of
        Some f \<Rightarrow> (case f st (m_req m) of (st', resp, err) \<Rightarrow> (st', Some (resp, err)))
      | None \<Rightarrow> (st, Some (None, Some HandlerNil)))"
  "m_t m = asyncMail \<Longrightarrow> handle_mail h st m =
     ((case getAsyncHandler h (TypeOf (m_req m)) of Some f \<Rightarrow> f st (m_req m) | None \<Rightarrow> st), None)"
  "m_t m \<noteq> syncMail \<Longrightarrow> m_t m \<noteq> asyncMail \<Longrightarrow> handle_mail h st m = (st, None)"
  by (auto simp: handle_mail_def syncMail_def asyncMail_def split: option.split)

lemma InitArg_registers:
  "\<exists>h :: (('f, 'g) lat_module, 'f lat_fields) actor_handler. newActorHandler (InitArg R clock) = Inr h \<and> tickFns h = [module_tick R clock] \<and> tickerDuration h = 1000000
     \<and> (\<forall>st m. m_t m = syncMail \<longrightarrow> handle_mail h st m = (case lat_sync st (m_req m) of (st', r) \<Rightarrow> (st', Some r)))
     \<and> (\<forall>st m. m_t m = asyncMail \<longrightarrow> handle_mail h st m = (lat_async R clock st (m_req m), None))"
  by (auto simp: newActorHandler_def InitArg_def SyncHandlerWrap_def AsyncHandlerWrap_def req_types handle_split
      getSyncHandler_def getAsyncHandler_def TypeOf_def type_assert_def lat_sync_def lat_async_def module_register_def
      split: option.split prod.split)

lemma InitArg_handler:
  fixes h :: "(('f, 'g) lat_module, 'f lat_fields) actor_handler"
  assumes "newActorHandler (InitArg R clock) = Inr h"
  shows "tick h st = module_tick R clock st"
    and "m_t m = syncMail \<Longrightarrow> handle_mail h st m = (case lat_sync st (m_req m) of (st', r) \<Rightarrow> (st', Some r))"
    and "m_t m = asyncMail \<Longrightarrow> handle_mail h st m = (lat_async R clock st (m_req m), None)"
proof -
  obtain h' :: "(('f, 'g) lat_module, 'f lat_fields) actor_handler" where
    "newActorHandler (InitArg R clock) = Inr h'" and h': "tickFns h' = [module_tick R clock]"
    "\<forall>st m. m_t m = syncMail \<longrightarrow> handle_mail h' st m = (case lat_sync st (m_req m) of (st', r) \<Rightarrow> (st', Some r))"
    "\<forall>st m. m_t m = asyncMail \<longrightarrow> handle_mail h' st m = (lat_async R clock st (m_req m), None)"
    using InitArg_registers [where 'f = 'f] by blast
  with assms have "h' = h" by simp
  with h' show "tick h st = module_tick R clock st"
    "m_t m = syncMail \<Longrightarrow> handle_mail h st m = (case lat_sync st (m_req m) of (st', r) \<Rightarrow> (st', Some r))"
    "m_t m = asyncMail \<Longrightarrow> handle_mail h st m = (lat_async R clock st (m_req m), None)"
    by (auto simp: tick_def)
qed

text \<open>C17.
  The requests of the latency actor are typed: starting it does not fail unless its name is taken; a synchronous mail of one of the two
  registration types runs that registration and is answered with the response type of its own, an asynchronous one of
  the two datagram types runs the receiver of its own direction, and no other request, nil included, changes the module: it is
  refused with an error when it was synchronous, and dropped when not. So no type assertion of the wrappers ever fails.
\<close>

theorem latency_actor_typed:
  fixes st :: "('f, 'g) lat_module"
  shows "\<exists>h. newActorHandler (InitArg R clock) = Inr h
     \<and> NewActorGroutine w name (InitArg R clock) st =
         (if actors w name \<noteq> None then Inl (ActorRepeated name)
          else Inr (w\<lparr>aw_heap := (aw_heap w)(aw_next w := new_actor h st), aw_name := (aw_name w)(aw_next w := name),
                      aw_next := aw_next w + 1, actors := (actors w)(name \<mapsto> aw_next w)\<rparr>))
     \<and> handle_mail h st (newMail i syncMail req) =
         (case req of
            Some (t, v) \<Rightarrow>
              if t = tRegisterSendToCliReq
              then (fst (module_register RegisterSendToCli st v), Some (Some (tRegisterSendToCliResp, None, []), None))
              else if t = tRegisterSendToSvrReq
              then (fst (module_register RegisterSendToSvr st v), Some (Some (tRegisterSendToSvrResp, None, []), None))
              else (st, Some (None, Some HandlerNil))
          | None \<Rightarrow> (st, Some (None, Some HandlerNil)))
     \<and> handle_mail h st (newMail i asyncMail req) =
         ((case req of
             Some (t, v) \<Rightarrow>
               if t = tRecvFromCliReq then module_recv R clock False st v
               else if t = tRecvFromSvrReq then module_recv R clock True st v else st
           | None \<Rightarrow> st), None)"
proof -
  obtain h :: "(('f, 'g) lat_module, 'f lat_fields) actor_handler" where h: "newActorHandler (InitArg R clock) = Inr h"
    using InitArg_registers [where 'f = 'f] by blast
  note run = InitArg_handler(2,3) [OF h, of "newMail i k req" for k]
  have "handle_mail h st (newMail i syncMail req) = (case lat_sync st req of (st', r) \<Rightarrow> (st', Some r))"
    "handle_mail h st (newMail i asyncMail req) = (lat_async R clock st req, None)"
    using run(1) [of syncMail] run(2) [of asyncMail] by (simp_all add: newMail_def)
  with h show ?thesis
    by (intro exI [of _ h]) (simp add: NewActorGroutine_def registerActor_def lat_sync_def lat_async_def split: option.split)
qed

section \<open>Conservation in the running actor\<close>

text \<open>The datagrams among mails.\<close>

definition mail_datagram :: "'f lat_fields mail \<Rightarrow> (bool \<times> bytes) list" where
  "mail_datagram m =
     (if m_t m \<noteq> asyncMail then []
      else case m_req m of
          Some (t, v) \<Rightarrow>
            if t = tRecvFromCliReq then [(False, snd v)] else if t = tRecvFromSvrReq then [(True, snd v)] else []
        | None \<Rightarrow> [])"

definition datagrams :: "'f lat_fields mail list \<Rightarrow> (bool \<times> bytes) list" where
  "datagrams ms = concat (map mail_datagram ms)"

lemma datagrams_simps [simp]:
  "datagrams [] = []" "datagrams (m # ms) = mail_datagram m @ datagrams ms" "datagrams (ms @ ns) = datagrams ms @ datagrams ns"
  by (simp_all add: datagrams_def)

text \<open>The latencies are the configured ones.\<close>

definition run_latency :: "LatencyMockArgs \<Rightarrow> ('f, 'g) latency_run \<Rightarrow> bool" where
  "run_latency arg w \<longleftrightarrow> (\<forall>b. latency_of b (lr_actor w) = (if b then arInLatency arg else arOutLatency arg))"

definition bad_latency :: "LatencyMockArgs \<Rightarrow> bool" where
  "bad_latency arg \<longleftrightarrow> 2 ^ 31 \<le> uint (arInLatency arg) \<or> 2 ^ 31 \<le> uint (arOutLatency arg)"

definition module_ok :: "LatencyMockArgs \<Rightarrow> (bool \<times> bytes) list \<Rightarrow> ('f, 'g) lat_module \<Rightarrow> bool" where
  "module_ok arg ds m \<longleftrightarrow>
     (case ml_run m of
        Panic p \<Rightarrow> p = InvalidRandArg \<and> bad_latency arg
      | Ret w \<Rightarrow> lr_received w = ds \<and> run_conserves w \<and> run_latency arg w)"

fun event_datagram :: "latency_event \<Rightarrow> (bool \<times> bytes) list" where
  "event_datagram (Recv inout msg now1 now2) = [(inout, msg)]"
| "event_datagram (Tick now) = []"

lemma extend_panic: "la_extend R now inout msg (l, g) = Panic p \<Longrightarrow> p = InvalidRandArg"
  by (auto simp: la_extend_def randLatency_def Int31n_def Let_def split: prod.splits if_splits)

lemma run_event_panic:
  assumes "run_event R e w = Panic p" and "run_latency arg w"
  shows "p = InvalidRandArg \<and> bad_latency arg"
proof (cases e)
  case (Recv inout msg now1 now2)
  obtain l1 g1 where eq: "recv_from R now1 now2 inout msg (lr_actor w, lr_rand w) =
      (if loses R now1 inout (lr_actor w) then Ret (l1, g1) else la_extend R now2 inout msg (l1, g1))"
    and l1: "latency_of inout l1 = latency_of inout (lr_actor w)"
    using recv_from_eq [of R now1 now2 inout msg "lr_actor w" "lr_rand w"] by blast
  have "la_extend R now2 inout msg (l1, g1) = Panic p"
    using assms(1) Recv eq by (cases "la_extend R now2 inout msg (l1, g1)") (auto split: if_splits)
  moreover from this have p: "p = InvalidRandArg" by (rule extend_panic)
  ultimately have "2 ^ 31 \<le> uint (latency_of inout (lr_actor w))"
    using extend_panics_iff [of R now2 inout msg l1 g1] by (simp only: latency_bad_iff l1)
  with p assms(2) show ?thesis by (cases inout) (auto simp: run_latency_def bad_latency_def)
next
  case (Tick now)
  with assms(1) show ?thesis by (simp add: tickLoop_eq)
qed

lemma run_event_ok:
  assumes "run_event R e w = Ret w'" and "rand_ok R" and "run_conserves w" and "run_latency arg w"
  shows "lr_received w' = lr_received w @ event_datagram e \<and> run_conserves w' \<and> run_latency arg w'"
proof -
  let ?w = "w\<lparr>lr_sent := sends_of (lr_actor w) (lr_done w)\<rparr>"
  have shape: "lr_received w' = lr_received w @ event_datagram e \<and> run_latency arg w'"
  proof (cases e)
    case (Recv inout msg now1 now2)
    show ?thesis
      by (rule run_Recv_cases [OF assms(1) [unfolded Recv] assms(2)]) (use assms(4) Recv in \<open>simp add: run_latency_def\<close>)
  next
    case (Tick now)
    with assms(1,4) show ?thesis by (auto simp: tickLoop_eq run_latency_def)
  qed
  have "\<exists>v. run_event R e ?w = Ret v \<and> run_conserves v = run_conserves w'"
    using assms(1) by (cases e) (auto simp: go_bind_eq_Ret tickLoop_eq run_conserves_def)
  moreover have "run_conserves ?w" "run_sends ?w" using assms(3) by (simp_all add: run_conserves_def run_sends_def)
  ultimately show ?thesis using shape run_event_conserves [OF _ assms(2), of e ?w] by blast
qed

lemma module_event_ok: "module_ok arg ds m \<Longrightarrow> rand_ok R \<Longrightarrow> module_ok arg (ds @ event_datagram e) (module_event R e m)"
proof (cases "ml_run m")
  case (Ret w)
  assume "module_ok arg ds m" and R: "rand_ok R"
  then have w: "lr_received w = ds" "run_conserves w" "run_latency arg w" by (simp_all add: module_ok_def Ret)
  show ?thesis
  proof (cases "run_event R e w")
    case (Ret w')
    with w run_event_ok [OF Ret R] \<open>ml_run m = _\<close> show ?thesis by (simp add: module_ok_def module_event_def)
  next
    case (Panic p)
    with w run_event_panic [OF Panic] \<open>ml_run m = _\<close> show ?thesis by (simp add: module_ok_def module_event_def)
  qed
qed (simp add: module_ok_def module_event_def)

lemma register_frame [simp]:
  "latency_of b (RegisterSendToCli f l) = latency_of b l" "latency_of b (RegisterSendToSvr f l) = latency_of b l"
  "la_msgs (RegisterSendToCli f l) = la_msgs l" "la_msgs (RegisterSendToSvr f l) = la_msgs l"
  by (simp_all add: latency_of_def RegisterSendToCli_def RegisterSendToSvr_def)

lemma module_register_ok:
  "module_ok arg ds m \<Longrightarrow> reg = RegisterSendToCli \<or> reg = RegisterSendToSvr \<Longrightarrow> module_ok arg ds (fst (module_register reg m v))"
  by (cases "ml_run m")
    (auto simp: module_ok_def module_register_def run_conserves_def run_latency_def)

lemma module_tick_ok: "module_ok arg ds m \<Longrightarrow> rand_ok R \<Longrightarrow> module_ok arg ds (module_tick R clock m)"
  using module_event_ok [of arg ds m R "Tick (fst (clock (ml_turn m)))"] by (simp add: module_tick_def)

lemma module_recv_ok: "module_ok arg ds m \<Longrightarrow> rand_ok R \<Longrightarrow> module_ok arg (ds @ [(inout, snd v)]) (module_recv R clock inout m v)"
  using module_event_ok [of arg ds m R "Recv inout (snd v) (fst (clock (ml_turn m))) (snd (clock (ml_turn m)))"]
  by (cases "clock (ml_turn m)") (simp add: module_recv_def)

lemma handle_mail_ok:
  assumes "newActorHandler (InitArg R clock) = Inr h" and "rand_ok R" and "module_ok arg ds st"
  shows "module_ok arg (ds @ mail_datagram m) (fst (handle_mail h st m))"
proof -
  consider "m_t m = syncMail" | "m_t m = asyncMail" | "m_t m \<noteq> syncMail" "m_t m \<noteq> asyncMail" by blast
  then show ?thesis
  proof cases
    case 1
    then have "mail_datagram m = []" by (simp add: mail_datagram_def syncMail_def asyncMail_def)
    with InitArg_handler(2) [OF assms(1) 1, of st] assms(3) show ?thesis
      by (auto simp: lat_sync_def module_register_ok split: option.splits prod.splits)
  next
    case 2
    with InitArg_handler(3) [OF assms(1) 2, of st] assms(2,3) show ?thesis
      using module_recv_ok [OF assms(3,2)] by (auto simp: lat_async_def mail_datagram_def split: option.splits prod.splits)
  next
    case 3
    with assms(3) show ?thesis by (simp add: handle_split mail_datagram_def)
  qed
qed

lemma serial_ok:
  assumes "newActorHandler (InitArg R clock) = Inr h" and "rand_ok R"
  shows "module_ok arg ds st \<Longrightarrow> module_ok arg (ds @ datagrams (mails ts)) (fst (serial h st ts))"
proof (induction ts arbitrary: st ds)
  case (Cons t ts)
  show ?case
  proof (cases t)
    case None
    with Cons module_tick_ok [OF Cons.prems assms(2)] show ?thesis by (simp add: InitArg_handler(1) [OF assms(1)])
  next
    case (Some m)
    obtain st' res where hm: "handle_mail h st m = (st', res)" by fastforce
    have "module_ok arg (ds @ mail_datagram m) st'" using handle_mail_ok [OF assms Cons.prems, of m] hm by simp
    with assms(2) have "module_ok arg (ds @ mail_datagram m) (tick h st')"
      by (simp add: InitArg_handler(1) [OF assms(1)] module_tick_ok)
    from Cons.IH [OF this] Some hm show ?thesis by (cases "serial h (tick h st') ts") simp
  qed
qed simp

lemma new_module_ok: "module_ok arg [] (new_module arg g)"
  by (simp add: module_ok_def new_module_def new_run_ok(1))
    (simp add: new_run_def run_latency_def NewLatencyActor_def latency_of_def)

text \<open>C16.
  Conservation in the running actor. At any time, with any callers and ticks, every datagram sent to the latency actor is in one place
  only: still in its mail box, counted as lost, held back, or taken out by a tick; unless the process has panicked,
  which needs a configured latency of \<open>2\<^sup>3\<^sup>1\<close> or more.
\<close>

theorem latency_actor_conserves:
  assumes "rand_ok R" and "newActorHandler (InitArg R clock) = Inr h"
    and "reachable (actor_init h (new_module arg g)) actor_step a"
  shows "case ml_run (ac_state a) of
      Panic p \<Rightarrow> p = InvalidRandArg \<and> (2 ^ 31 \<le> uint (arInLatency arg) \<or> 2 ^ 31 \<le> uint (arOutLatency arg))
    | Ret w \<Rightarrow> mset (datagrams (ac_sent a)) = mset (datagrams (ac_box a)) + mset (lr_lost w)
        + mset (map strip (la_msgs (lr_actor w))) + mset (map strip (lr_done w))"
proof -
  have inv: "queue_ok a" "state_ok h (new_module arg g) a"
    using actor.inv_reachable [OF assms(3)] by (simp_all add: actor_inv_def)
  have "module_ok arg (datagrams (mails (ac_trace a))) (ac_state a)"
    using serial_ok [OF assms(2,1) new_module_ok [of arg g], of "ac_trace a"] inv(2) by (simp add: state_ok_def)
  moreover have "datagrams (ac_sent a) = datagrams (mails (ac_trace a)) @ datagrams (ac_box a)"
    using inv(1) by (metis queue_ok_def datagrams_simps(3))
  ultimately show ?thesis
    by (auto simp: module_ok_def run_conserves_def bad_latency_def ac_simps split: go.splits)
qed

theorem latency_actor_conserves_witness:
  "\<exists>h w. newActorHandler (InitArg zero_rand (\<lambda>_. (5, 5))) = Inr h
     \<and> ml_run (ac_state (new_actor h (new_module mock_args () :: (bool, unit) lat_module))) = Ret w
     \<and> mset (lr_lost w) = {#}"
proof -
  obtain h :: "((bool, unit) lat_module, bool lat_fields) actor_handler" where
    h: "newActorHandler (InitArg zero_rand (\<lambda>_. (5, 5))) = Inr h"
    using InitArg_registers [where 'f = bool] by blast
  let ?a = "new_actor h (new_module mock_args () :: (bool, unit) lat_module)"
  have "reachable (actor_init h (new_module mock_args ())) actor_step ?a" by (rule reach_init) (simp add: actor_init_def)
  from latency_actor_conserves [OF zero_rand_ok h this] h show ?thesis
    by (auto simp: new_actor_def new_module_def)
qed

end
