(* ===== verification/Read_Memory.thy ===== *)
theory Read_Memory
  imports Buffer_Pool
begin

text \<open>
  The memory behind the read loops of \<open>pkg/xnet/tcp_socket.go\<close> and \<open>kcp_socket.go\<close> and the buffers of \<open>buffer.go\<close>. \<open>Buffer_Pool\<close> and \<open>Stream_Read\<close> take
  buffers and caches by their contents. Here they are slices of a heap, with the capacity that lets an \<open>append\<close> write in place:
  several sockets share one pool, buffers are cut out of larger arrays, and handlers keep slices of the cache. The theory shows that
  no two of these ever get in each other's way, so that working with the contents alone is right.
\<close>

section \<open>Slices\<close>

type_synonym memory = "nat \<Rightarrow> nat \<Rightarrow> byte"

text \<open>An array is a number, a slice a place in one, with its length and its capacity from there.\<close>

record slice =
  sl_blk :: nat
  sl_off :: nat
  sl_len :: nat
  sl_cap :: nat

definition contents :: "memory \<Rightarrow> slice \<Rightarrow> bytes" where
  "contents h s = map (\<lambda>i. h (sl_blk s) (sl_off s + i)) [0..<sl_len s]"

text \<open>\<open>s[lo:hi]\<close>\<close>

definition reslice :: "slice \<Rightarrow> nat \<Rightarrow> nat \<Rightarrow> slice" where
  "reslice s lo hi = s\<lparr>sl_off := sl_off s + lo, sl_len := hi - lo, sl_cap := sl_cap s - lo\<rparr>"

definition store :: "memory \<Rightarrow> nat \<Rightarrow> nat \<Rightarrow> bytes \<Rightarrow> memory" where
  "store h b lo xs = (\<lambda>b' i. if b' = b \<and> lo \<le> i \<and> i < lo + length xs then xs ! (i - lo) else h b' i)"

text \<open>
  \<open>append(s, xs...)\<close>: in place within the capacity, else into a new array, with any spare capacity \<open>extra\<close> the run time chooses. \<open>nx\<close>
  is the next array not in use.
\<close>

definition mem_append :: "nat \<Rightarrow> slice \<Rightarrow> bytes \<Rightarrow> memory \<Rightarrow> nat \<Rightarrow> slice \<times> memory \<times> nat" where
  "mem_append extra s xs h nx =
     (let n = sl_len s + length xs in
      if n \<le> sl_cap s then (s\<lparr>sl_len := n\<rparr>, store h (sl_blk s) (sl_off s + sl_len s) xs, nx)
      else (\<lparr>sl_blk = nx, sl_off = 0, sl_len = n, sl_cap = n + extra\<rparr>, store h nx 0 (contents h s @ xs), nx + 1))"

text \<open>The loop of \<open>put\<close>, and \<open>put\<close>: the buffers cut off go to the shared pool.\<close>

function mem_cut :: "slice list \<Rightarrow> slice \<Rightarrow> slice list \<times> slice" where
  "mem_cut pool c =
     (if readBufferSize \<le> sl_len c
      then mem_cut (pool @ [reslice c 0 readBufferSize]) (reslice c readBufferSize (sl_len c))
      else (pool, c))"
  by pat_completeness auto
termination
  by (relation "measure (\<lambda>(pool, c). sl_len c)") (auto simp: reslice_def readBufferSize_def)

declare mem_cut.simps [simp del]

definition mem_put :: "nat \<Rightarrow> slice list \<Rightarrow> slice \<Rightarrow> bytes \<Rightarrow> memory \<Rightarrow> nat \<Rightarrow> (slice list \<times> slice) \<times> memory \<times> nat" where
  "mem_put extra pool c xs h nx =
     (case mem_append extra c xs h nx of (c', h', nx') \<Rightarrow> (mem_cut pool c', h', nx'))"

section \<open>Cells\<close>

text \<open>The cells of a slice's contents, of what is left of its capacity, and of both.\<close>

definition cells :: "nat \<Rightarrow> nat \<Rightarrow> nat \<Rightarrow> (nat \<times> nat) multiset" where
  "cells b lo hi = image_mset (Pair b) (mset_set {lo..<hi})"

definition slice_cells :: "slice \<Rightarrow> (nat \<times> nat) multiset" where
  "slice_cells s = cells (sl_blk s) (sl_off s) (sl_off s + sl_len s)"

definition spare_cells :: "slice \<Rightarrow> (nat \<times> nat) multiset" where
  "spare_cells s = cells (sl_blk s) (sl_off s + sl_len s) (sl_off s + sl_cap s)"

definition full_cells :: "slice \<Rightarrow> (nat \<times> nat) multiset" where
  "full_cells s = cells (sl_blk s) (sl_off s) (sl_off s + sl_cap s)"

definition slice_ok :: "slice \<Rightarrow> bool" where
  "slice_ok s \<longleftrightarrow> sl_len s \<le> sl_cap s"

lemma in_cells [simp]: "(b', i) \<in># cells b lo hi \<longleftrightarrow> b' = b \<and> lo \<le> i \<and> i < hi"
  by (auto simp: cells_def)

lemma cells_split: "lo \<le> mid \<Longrightarrow> mid \<le> hi \<Longrightarrow> cells b lo hi = cells b lo mid + cells b mid hi"
proof -
  assume "lo \<le> mid" "mid \<le> hi"
  then have "{lo..<hi} = {lo..<mid} \<union> {mid..<hi}" "{lo..<mid} \<inter> {mid..<hi} = {}" by auto
  then have "mset_set {lo..<hi} = mset_set {lo..<mid} + mset_set {mid..<hi}" by (simp add: mset_set_Union)
  then show ?thesis by (simp add: cells_def)
qed

lemma count_cells: "count (cells b lo hi) x \<le> 1"
proof -
  have "inj_on (Pair b) {lo..<hi}" by (simp add: inj_on_def)
  then have "cells b lo hi = mset_set (Pair b ` {lo..<hi})" by (simp add: cells_def image_mset_mset_set)
  then show ?thesis by (simp add: count_mset_set')
qed

lemma full_split: "slice_ok s \<Longrightarrow> full_cells s = slice_cells s + spare_cells s"
  unfolding full_cells_def slice_cells_def spare_cells_def slice_ok_def by (intro cells_split) auto

text \<open>What is read in other cells is not changed by a store.\<close>

lemma contents_frame: "(\<And>b i. (b, i) \<in># slice_cells s \<Longrightarrow> h' b i = h b i) \<Longrightarrow> contents h' s = contents h s"
  by (auto simp: contents_def slice_cells_def)

lemma store_other: "(b', i) \<notin># cells b lo (lo + length xs) \<Longrightarrow> store h b lo xs b' i = h b' i"
  by (auto simp: store_def)

lemma length_contents [simp]: "length (contents h s) = sl_len s"
  by (simp add: contents_def)

lemma contents_reslice: "lo \<le> hi \<Longrightarrow> hi \<le> sl_len s \<Longrightarrow> contents h (reslice s lo hi) = take (hi - lo) (drop lo (contents h s))"
  by (auto simp: contents_def reslice_def add.assoc intro!: nth_equalityI)

lemma contents_stored: "contents (store h b lo xs) \<lparr>sl_blk = b, sl_off = lo, sl_len = length xs, sl_cap = k\<rparr> = xs"
  by (auto simp: contents_def store_def intro!: nth_equalityI)

section \<open>Appending and giving back\<close>

text \<open>
  The contents after an append; the cells it may have written; the cells the slice takes up afterwards, which are its own or new.
\<close>

definition fresh_cells :: "nat \<Rightarrow> nat \<Rightarrow> (nat \<times> nat) multiset \<Rightarrow> bool" where
  "fresh_cells nx nx' F \<longleftrightarrow> nx \<le> nx' \<and> (\<forall>x. count F x \<le> 1) \<and> (\<forall>x \<in># F. nx \<le> fst x \<and> fst x < nx')"

lemma mem_append_contents:
  assumes "mem_append extra s xs h nx = (s', h', nx')"
  shows "contents h' s' = contents h s @ xs"
proof (cases "sl_len s + length xs \<le> sl_cap s")
  case True
  then show ?thesis using assms
    by (auto simp: mem_append_def contents_def store_def Let_def nth_append intro!: nth_equalityI)
next
  case False
  then show ?thesis using assms contents_stored [of h nx 0 "contents h s @ xs"]
    by (auto simp: mem_append_def Let_def)
qed

lemma mem_append_cells:
  assumes "mem_append extra s xs h nx = (s', h', nx')" and "slice_ok s"
  shows "slice_ok s' \<and> (\<exists>F. fresh_cells nx nx' F
    \<and> full_cells s' \<subseteq># full_cells s + F \<and> spare_cells s' \<subseteq># spare_cells s + F \<and> slice_cells s' \<subseteq># full_cells s + F
    \<and> (\<forall>b i. h' b i \<noteq> h b i \<longrightarrow> (b, i) \<in># spare_cells s + F))"
proof (cases "sl_len s + length xs \<le> sl_cap s")
  case True
  then have s': "s' = s\<lparr>sl_len := sl_len s + length xs\<rparr>" "h' = store h (sl_blk s) (sl_off s + sl_len s) xs" "nx' = nx"
    using assms(1) by (auto simp: mem_append_def Let_def)
  have "spare_cells s = cells (sl_blk s) (sl_off s + sl_len s) (sl_off s + sl_len s + length xs) + spare_cells s'"
    unfolding spare_cells_def s' using True cells_split [of "sl_off s + sl_len s" "sl_off s + sl_len s + length xs" "sl_off s + sl_cap s"]
    by (simp add: add.assoc)
  then have "spare_cells s' \<subseteq># spare_cells s" by simp
  moreover have full: "full_cells s' = full_cells s" by (simp add: full_cells_def s')
  moreover have "slice_ok s'" using True by (simp add: slice_ok_def s')
  moreover from this have "slice_cells s' \<subseteq># full_cells s" using full_split [of s'] full by simp
  moreover have "h' b i \<noteq> h b i \<Longrightarrow> (b, i) \<in># spare_cells s" for b i
    using True by (auto simp: s' store_def spare_cells_def split: if_splits)
  moreover have "fresh_cells nx nx' {#}" by (simp add: fresh_cells_def s')
  ultimately show ?thesis by (intro conjI exI [of _ "{#}"]) simp_all
next
  case False
  let ?n = "sl_len s + length xs"
  have s': "s' = \<lparr>sl_blk = nx, sl_off = 0, sl_len = ?n, sl_cap = ?n + extra\<rparr>"
    "h' = store h nx 0 (contents h s @ xs)" "nx' = nx + 1"
    using False assms(1) by (auto simp: mem_append_def Let_def)
  let ?F = "full_cells s'"
  have ok: "slice_ok s'" by (simp add: slice_ok_def s')
  have "fresh_cells nx nx' ?F" by (auto simp: fresh_cells_def full_cells_def s' count_cells [simplified])
  moreover have "spare_cells s' \<subseteq># ?F" "slice_cells s' \<subseteq># ?F" using full_split [OF ok] by simp_all
  moreover have "h' b i \<noteq> h b i \<Longrightarrow> (b, i) \<in># ?F" for b i
    by (auto simp: s' store_def full_cells_def split: if_splits)
  ultimately show ?thesis using ok
    by (intro conjI exI [of _ ?F]) (auto intro: subset_mset.order_trans [OF _ mset_subset_eq_add_right])
qed

definition pool_cells :: "slice list \<Rightarrow> (nat \<times> nat) multiset" where
  "pool_cells pool = sum_list (map slice_cells pool)"

lemma pool_cells_simps [simp]:
  "pool_cells [] = {#}" "pool_cells (b # bs) = slice_cells b + pool_cells bs" "pool_cells (bs @ cs) = pool_cells bs + pool_cells cs"
  by (simp_all add: pool_cells_def)

lemma pool_cells_nth: "k < length pool \<Longrightarrow> pool_cells pool = slice_cells (pool ! k) + pool_cells (take k pool @ drop (Suc k) pool)"
proof -
  assume "k < length pool"
  then have "pool = take k pool @ pool ! k # drop (Suc k) pool" by (rule id_take_nth_drop)
  then have "pool_cells pool = pool_cells (take k pool @ pool ! k # drop (Suc k) pool)" by simp
  then show ?thesis by (simp add: ac_simps)
qed

text \<open>The loop only deals out cells; the buffers have the read size.\<close>

lemma mem_cut_cells:
  "mem_cut pool c = (pool', c') \<Longrightarrow> slice_ok c \<Longrightarrow>
     slice_ok c' \<and> pool_cells pool' + full_cells c' = pool_cells pool + full_cells c
     \<and> (list_all (\<lambda>b. sl_len b = readBufferSize) pool \<longrightarrow> list_all (\<lambda>b. sl_len b = readBufferSize) pool')"
proof (induction pool c rule: mem_cut.induct)
  case (1 pool c)
  show ?case
  proof (cases "readBufferSize \<le> sl_len c")
    case True
    let ?b = "reslice c 0 readBufferSize" let ?c = "reslice c readBufferSize (sl_len c)"
    have step: "mem_cut (pool @ [?b]) ?c = (pool', c')" using 1(2) True by (simp add: mem_cut.simps [of pool c])
    have le: "readBufferSize \<le> sl_cap c" using True 1(3) by (simp add: slice_ok_def)
    have "slice_ok ?c" using 1(3) by (simp add: slice_ok_def reslice_def diff_le_mono)
    moreover have "full_cells c = slice_cells ?b + full_cells ?c"
      unfolding full_cells_def slice_cells_def reslice_def using le cells_split [of "sl_off c" "sl_off c + readBufferSize" "sl_off c + sl_cap c"]
      by simp
    ultimately show ?thesis using 1(1) [OF True step] by (simp add: ac_simps reslice_def)
  qed (use 1 in \<open>simp add: mem_cut.simps [of pool c]\<close>)
qed

lemma mem_cut_contents:
  "mem_cut pool c = (pool', c') \<Longrightarrow> (map (contents h) pool', contents h c') = put_loop (map (contents h) pool) (contents h c)"
proof (induction pool c rule: mem_cut.induct)
  case (1 pool c)
  show ?case
  proof (cases "readBufferSize \<le> sl_len c")
    case True
    let ?b = "reslice c 0 readBufferSize" let ?c = "reslice c readBufferSize (sl_len c)"
    have step: "mem_cut (pool @ [?b]) ?c = (pool', c')" using 1(2) True by (simp add: mem_cut.simps [of pool c])
    have "contents h ?b = take readBufferSize (contents h c)" "contents h ?c = drop readBufferSize (contents h c)"
      using True by (simp_all add: contents_reslice)
    with 1(1) [OF True step] True show ?thesis by (simp add: put_loop_step)
  qed (use 1 in \<open>simp add: mem_cut.simps [of pool c] put_loop_done\<close>)
qed

section \<open>Sockets sharing a pool\<close>

text \<open>
  A read loop: about to read, with a buffer from the pool, with \<open>n\<close> bytes read into it, with the rest of it given back, and at the
  handler.
\<close>

datatype rd_stage = MIdle | MGot slice | MRead slice nat | MPut slice nat | MHandle

record mem_sock =
  sk_cache :: slice
  sk_read :: slice
  sk_stage :: rd_stage

text \<open>The slices the handlers have kept, with what they showed then, are history.\<close>

record read_world =
  wd_mem :: memory
  wd_next :: nat
  wd_pool :: "slice list"
  wd_socks :: "mem_sock list"
  wd_held :: "(slice \<times> bytes) list"

definition nil_slice :: slice where
  "nil_slice = \<lparr>sl_blk = 0, sl_off = 0, sl_len = 0, sl_cap = 0\<rparr>"

definition new_mem_sock :: mem_sock where
  "new_mem_sock = \<lparr>sk_cache = nil_slice, sk_read = nil_slice, sk_stage = MIdle\<rparr>"

definition empty_world :: "memory \<Rightarrow> read_world" where
  "empty_world h = \<lparr>wd_mem = h, wd_next = 0, wd_pool = [], wd_socks = [], wd_held = []\<rparr>"

definition set_sock :: "nat \<Rightarrow> mem_sock \<Rightarrow> read_world \<Rightarrow> read_world" where
  "set_sock i s w = w\<lparr>wd_socks := (wd_socks w)[i := s]\<rparr>"

text \<open>\<open>readBufPool.put(xs)\<close> of socket \<open>i\<close>, which is then \<open>upd\<close>.\<close>

definition sock_put :: "nat \<Rightarrow> nat \<Rightarrow> bytes \<Rightarrow> (mem_sock \<Rightarrow> mem_sock) \<Rightarrow> read_world \<Rightarrow> read_world" where
  "sock_put extra i xs upd w =
     (case mem_put extra (wd_pool w) (sk_cache (wd_socks w ! i)) xs (wd_mem w) (wd_next w) of
        ((pool, c), h, nx) \<Rightarrow>
          w\<lparr>wd_pool := pool, wd_mem := h, wd_next := nx,
            wd_socks := (wd_socks w)[i := upd ((wd_socks w ! i)\<lparr>sk_cache := c\<rparr>)]\<rparr>)"

text \<open>\<open>sock.readCaches = append(sock.readCaches, xs...)\<close>\<close>

definition sock_append :: "nat \<Rightarrow> nat \<Rightarrow> bytes \<Rightarrow> (mem_sock \<Rightarrow> mem_sock) \<Rightarrow> read_world \<Rightarrow> read_world" where
  "sock_append extra i xs upd w =
     (case mem_append extra (sk_read (wd_socks w ! i)) xs (wd_mem w) (wd_next w) of
        (r, h, nx) \<Rightarrow>
          w\<lparr>wd_mem := h, wd_next := nx, wd_socks := (wd_socks w)[i := upd ((wd_socks w ! i)\<lparr>sk_read := r\<rparr>)]\<rparr>)"

text \<open>
  The steps of the read loops, in any order of the sockets: \<open>get\<close> takes a buffer of the pool or a new one, \<open>Read\<close> writes into it, the
  rest is put back, the data appended to the cache; the handler may keep slices of the cache, and what it used is put back
  and cut off. The garbage collector takes buffers from the pool.
\<close>

inductive mem_step :: "read_world \<Rightarrow> read_world \<Rightarrow> bool" where
  m_open: "mem_step w (w\<lparr>wd_socks := wd_socks w @ [new_mem_sock]\<rparr>)"
| m_get: "i < length (wd_socks w) \<Longrightarrow> sk_stage (wd_socks w ! i) = MIdle \<Longrightarrow> k < length (wd_pool w) \<Longrightarrow>
    mem_step w (w\<lparr>wd_pool := take k (wd_pool w) @ drop (Suc k) (wd_pool w),
      wd_socks := (wd_socks w)[i := (wd_socks w ! i)\<lparr>sk_stage := MGot (wd_pool w ! k)\<rparr>]\<rparr>)"
| m_new: "i < length (wd_socks w) \<Longrightarrow> sk_stage (wd_socks w ! i) = MIdle \<Longrightarrow>
    b = \<lparr>sl_blk = wd_next w, sl_off = 0, sl_len = readBufferSize, sl_cap = readBufferSize\<rparr> \<Longrightarrow>
    mem_step w (w\<lparr>wd_mem := store (wd_mem w) (wd_next w) 0 pool_New, wd_next := wd_next w + 1,
      wd_socks := (wd_socks w)[i := (wd_socks w ! i)\<lparr>sk_stage := MGot b\<rparr>]\<rparr>)"
| m_read: "i < length (wd_socks w) \<Longrightarrow> sk_stage (wd_socks w ! i) = MGot b \<Longrightarrow> length data \<le> sl_len b \<Longrightarrow>
    mem_step w (w\<lparr>wd_mem := store (wd_mem w) (sl_blk b) (sl_off b) data,
      wd_socks := (wd_socks w)[i := (wd_socks w ! i)\<lparr>sk_stage := MRead b (length data)\<rparr>]\<rparr>)"
| m_put: "i < length (wd_socks w) \<Longrightarrow> sk_stage (wd_socks w ! i) = MRead b n \<Longrightarrow>
    mem_step w (sock_put extra i (contents (wd_mem w) (reslice b n (sl_len b))) (\<lambda>s. s\<lparr>sk_stage := MPut b n\<rparr>) w)"
| m_append: "i < length (wd_socks w) \<Longrightarrow> sk_stage (wd_socks w ! i) = MPut b n \<Longrightarrow>
    mem_step w (sock_append extra i (contents (wd_mem w) (reslice b 0 n)) (\<lambda>s. s\<lparr>sk_stage := MHandle\<rparr>) w)"
| m_hold: "i < length (wd_socks w) \<Longrightarrow> sk_stage (wd_socks w ! i) = MHandle \<Longrightarrow> lo \<le> hi \<Longrightarrow> hi \<le> sl_len (sk_read (wd_socks w ! i)) \<Longrightarrow>
    v = reslice (sk_read (wd_socks w ! i)) lo hi \<Longrightarrow>
    mem_step w (w\<lparr>wd_held := wd_held w @ [(v, contents (wd_mem w) v)]\<rparr>)"
| m_use: "i < length (wd_socks w) \<Longrightarrow> sk_stage (wd_socks w ! i) = MHandle \<Longrightarrow> 0 < n \<Longrightarrow> n \<le> sl_len (sk_read (wd_socks w ! i)) \<Longrightarrow>
    mem_step w (sock_put extra i (contents (wd_mem w) (reslice (sk_read (wd_socks w ! i)) 0 n))
      (\<lambda>s. s\<lparr>sk_read := reslice (sk_read s) n (sl_len (sk_read s))\<rparr>) w)"
| m_wait: "i < length (wd_socks w) \<Longrightarrow> sk_stage (wd_socks w ! i) = MHandle \<Longrightarrow>
    mem_step w (set_sock i ((wd_socks w ! i)\<lparr>sk_stage := MIdle\<rparr>) w)"
| m_gc: "k < length (wd_pool w) \<Longrightarrow> mem_step w (w\<lparr>wd_pool := take k (wd_pool w) @ drop (Suc k) (wd_pool w)\<rparr>)"

definition mem_init :: "read_world \<Rightarrow> bool" where
  "mem_init w \<longleftrightarrow> (\<exists>h. w = empty_world h)"

section \<open>Who owns which cells\<close>

text \<open>The cells a socket, or the pool, may write to, and those of its cache's contents, which it only reads.\<close>

fun stage_buf :: "rd_stage \<Rightarrow> slice list" where
  "stage_buf MIdle = []"
| "stage_buf (MGot b) = [b]"
| "stage_buf (MRead b n) = [b]"
| "stage_buf (MPut b n) = [b]"
| "stage_buf MHandle = []"

fun stage_ok :: "rd_stage \<Rightarrow> bool" where
  "stage_ok (MRead b n) = (n \<le> sl_len b)"
| "stage_ok (MPut b n) = (n \<le> sl_len b)"
| "stage_ok _ = True"

definition sock_ok :: "mem_sock \<Rightarrow> bool" where
  "sock_ok s \<longleftrightarrow> slice_ok (sk_cache s) \<and> slice_ok (sk_read s) \<and> stage_ok (sk_stage s)
     \<and> list_all (\<lambda>b. sl_len b = readBufferSize) (stage_buf (sk_stage s))"

definition sock_write :: "mem_sock \<Rightarrow> (nat \<times> nat) multiset" where
  "sock_write s = full_cells (sk_cache s) + spare_cells (sk_read s) + pool_cells (stage_buf (sk_stage s))"

definition sock_keep :: "mem_sock \<Rightarrow> (nat \<times> nat) multiset" where
  "sock_keep s = slice_cells (sk_read s)"

definition world_write :: "read_world \<Rightarrow> (nat \<times> nat) multiset" where
  "world_write w = pool_cells (wd_pool w) + sum_list (map sock_write (wd_socks w))"

definition world_keep :: "read_world \<Rightarrow> (nat \<times> nat) multiset" where
  "world_keep w = sum_list (map sock_keep (wd_socks w))"

definition held_ok :: "read_world \<Rightarrow> slice \<times> bytes \<Rightarrow> bool" where
  "held_ok w = (\<lambda>(s, c). contents (wd_mem w) s = c
     \<and> (\<forall>x \<in># slice_cells s. x \<notin># world_write w \<and> fst x < wd_next w))"

definition mem_inv :: "read_world \<Rightarrow> bool" where
  "mem_inv w \<longleftrightarrow> list_all (\<lambda>b. sl_len b = readBufferSize) (wd_pool w) \<and> list_all sock_ok (wd_socks w)
     \<and> (\<forall>x. count (world_write w + world_keep w) x \<le> 1)
     \<and> (\<forall>x \<in># world_write w + world_keep w. fst x < wd_next w)
     \<and> list_all (held_ok w) (wd_held w)"

text \<open>
  What a step may do to the cells: deal out those there are, and new ones; it does not make a read cell writable, and stores
  only into writable or new cells.
\<close>

definition mem_moves :: "read_world \<Rightarrow> read_world \<Rightarrow> (nat \<times> nat) multiset \<Rightarrow> bool" where
  "mem_moves w w' F \<longleftrightarrow> fresh_cells (wd_next w) (wd_next w') F
     \<and> world_write w' + world_keep w' \<subseteq># world_write w + world_keep w + F
     \<and> (\<forall>x \<in># world_write w'. x \<in># world_write w + F)
     \<and> (\<forall>b i. wd_mem w' b i \<noteq> wd_mem w b i \<longrightarrow> (b, i) \<in># world_write w + F)"

lemma fresh_not_old: "fresh_cells nx nx' F \<Longrightarrow> fst x < nx \<Longrightarrow> x \<notin># F"
  by (auto simp: fresh_cells_def)

lemma moves_cells:
  assumes "mem_inv w" and "mem_moves w w' F"
  shows "count (world_write w' + world_keep w') x \<le> 1"
    and "x \<in># world_write w' + world_keep w' \<Longrightarrow> fst x < wd_next w'"
proof -
  let ?old = "world_write w + world_keep w"
  have sub: "world_write w' + world_keep w' \<subseteq># ?old + F" and F: "fresh_cells (wd_next w) (wd_next w') F"
    using assms(2) by (simp_all add: mem_moves_def)
  have "count (?old + F) x \<le> 1"
  proof (cases "x \<in># F")
    case True
    then have "x \<notin># ?old" using F assms(1) by (force simp: fresh_cells_def mem_inv_def)
    then have "count ?old x = 0" by (simp only: count_eq_zero_iff not_False_eq_True)
    with F show ?thesis by (cases x) (simp add: fresh_cells_def)
  next
    case False
    then have "count F x = 0" by (simp add: count_eq_zero_iff)
    with assms(1) show ?thesis by (cases x) (simp add: mem_inv_def)
  qed
  with sub show "count (world_write w' + world_keep w') x \<le> 1" by (meson le_trans mset_subset_eq_count)
  assume "x \<in># world_write w' + world_keep w'"
  then have "x \<in># ?old + F" using sub by (rule mset_subset_eqD [rotated])
  moreover have "fst x < wd_next w" if "x \<in># ?old" using assms(1) that unfolding mem_inv_def by blast
  ultimately show "fst x < wd_next w'" using F unfolding fresh_cells_def by force
qed

lemma moves_held:
  assumes "mem_inv w" and "mem_moves w w' F" and "held_ok w v"
  shows "held_ok w' v"
proof -
  obtain s c where v: "v = (s, c)" by (cases v)
  have F: "fresh_cells (wd_next w) (wd_next w') F" using assms(2) by (simp add: mem_moves_def)
  have old: "x \<notin># world_write w \<and> fst x < wd_next w \<and> x \<notin># F" if "x \<in># slice_cells s" for x
    using assms(3) that fresh_not_old [OF F] by (auto simp: held_ok_def v)
  have same: "contents (wd_mem w') s = contents (wd_mem w) s"
  proof (rule contents_frame)
    fix b i assume "(b, i) \<in># slice_cells s"
    with old have "(b, i) \<notin># world_write w + F" by auto
    with assms(2) show "wd_mem w' b i = wd_mem w b i" unfolding mem_moves_def by blast
  qed
  have "x \<notin># world_write w' \<and> fst x < wd_next w'" if "x \<in># slice_cells s" for x
  proof -
    have "x \<notin># world_write w + F" "fst x < wd_next w" using old [OF that] by auto
    moreover from this have "x \<notin># world_write w'" using assms(2) unfolding mem_moves_def by blast
    ultimately show ?thesis using F by (auto simp: fresh_cells_def)
  qed
  with same assms(3) show ?thesis by (auto simp: held_ok_def v)
qed

lemma moves_inv:
  assumes "mem_inv w" and "mem_moves w w' F" and "wd_held w' = wd_held w"
    and "list_all (\<lambda>b. sl_len b = readBufferSize) (wd_pool w')" and "list_all sock_ok (wd_socks w')"
  shows "mem_inv w'"
  using assms moves_cells [OF assms(1,2)] moves_held [OF assms(1,2)]
  by (simp add: mem_inv_def list_all_iff)

section \<open>Every step keeps the cells apart\<close>

lemma sum_list_put:
  fixes f :: "'a \<Rightarrow> 'b :: comm_monoid_add"
  shows "i < length xs \<Longrightarrow> \<exists>A. sum_list (map f xs) = f (xs ! i) + A \<and> (\<forall>x. sum_list (map f (xs[i := x])) = f x + A)"
proof -
  assume i: "i < length xs"
  let ?A = "sum_list (map f (take i xs)) + sum_list (map f (drop (Suc i) xs))"
  have "sum_list (map f (xs[i := x])) = f x + ?A" for x
    using i by (simp add: upd_conv_take_nth_drop ac_simps)
  moreover from this [of "xs ! i"] have "sum_list (map f xs) = f (xs ! i) + ?A" by simp
  ultimately show ?thesis by blast
qed

text \<open>A step of one socket and the pool is a step of the world.\<close>

lemma sock_moves:
  assumes i: "i < length (wd_socks w)" and s: "s = wd_socks w ! i" and w': "wd_socks w' = (wd_socks w)[i := s']"
    and F: "fresh_cells (wd_next w) (wd_next w') F"
    and all: "pool_cells (wd_pool w') + sock_write s' + sock_keep s' \<subseteq># pool_cells (wd_pool w) + sock_write s + sock_keep s + F"
    and wr: "\<And>x. x \<in># pool_cells (wd_pool w') + sock_write s' \<Longrightarrow> x \<in># pool_cells (wd_pool w) + sock_write s + F"
    and mem: "\<And>b j. wd_mem w' b j \<noteq> wd_mem w b j \<Longrightarrow> (b, j) \<in># pool_cells (wd_pool w) + sock_write s + F"
  shows "mem_moves w w' F"
proof -
  obtain A where A: "sum_list (map sock_write (wd_socks w)) = sock_write s + A"
    "sum_list (map sock_write (wd_socks w')) = sock_write s' + A"
    using sum_list_put [OF i, of sock_write] s w' by auto
  obtain B where B: "sum_list (map sock_keep (wd_socks w)) = sock_keep s + B"
    "sum_list (map sock_keep (wd_socks w')) = sock_keep s' + B"
    using sum_list_put [OF i, of sock_keep] s w' by auto
  have old: "world_write w = pool_cells (wd_pool w) + sock_write s + A" "world_keep w = sock_keep s + B"
    and new: "world_write w' = pool_cells (wd_pool w') + sock_write s' + A" "world_keep w' = sock_keep s' + B"
    by (simp_all add: world_write_def world_keep_def A B ac_simps)
  have "world_write w' + world_keep w' = pool_cells (wd_pool w') + sock_write s' + sock_keep s' + (A + B)"
    by (simp add: new ac_simps)
  also have "\<dots> \<subseteq># pool_cells (wd_pool w) + sock_write s + sock_keep s + F + (A + B)"
    using all by (rule mset_subset_eq_mono_add) simp
  also have "\<dots> = world_write w + world_keep w + F" by (simp add: old ac_simps)
  finally have sub: "world_write w' + world_keep w' \<subseteq># world_write w + world_keep w + F" .
  have "x \<in># world_write w + F" if "x \<in># world_write w'" for x
    using wr [of x] that by (auto simp: old new)
  moreover have "(b, j) \<in># world_write w + F" if "wd_mem w' b j \<noteq> wd_mem w b j" for b j
    using mem [OF that] by (auto simp: old)
  ultimately show ?thesis using F sub by (simp add: mem_moves_def)
qed

lemma no_fresh [simp]: "fresh_cells nx nx {#}"
  by (simp add: fresh_cells_def)

lemma mem_put_cells:
  assumes "mem_put extra pool c xs h nx = ((pool', c'), h', nx')" and "slice_ok c"
  obtains F where "slice_ok c'" and "fresh_cells nx nx' F"
    and "pool_cells pool' + full_cells c' \<subseteq># pool_cells pool + full_cells c + F"
    and "\<And>b i. h' b i \<noteq> h b i \<Longrightarrow> (b, i) \<in># full_cells c + F"
    and "list_all (\<lambda>b. sl_len b = readBufferSize) pool \<Longrightarrow> list_all (\<lambda>b. sl_len b = readBufferSize) pool'"
proof -
  obtain c1 where a: "mem_append extra c xs h nx = (c1, h', nx')" and cut: "mem_cut pool c1 = (pool', c')"
    using assms(1) by (auto simp: mem_put_def split: prod.splits)
  from mem_append_cells [OF a assms(2)] obtain F where ok: "slice_ok c1" and F: "fresh_cells nx nx' F"
    and full: "full_cells c1 \<subseteq># full_cells c + F" and mem: "\<forall>b i. h' b i \<noteq> h b i \<longrightarrow> (b, i) \<in># spare_cells c + F" by blast
  note c = mem_cut_cells [OF cut ok]
  have "pool_cells pool' + full_cells c' = pool_cells pool + full_cells c1" using c by simp
  also have "\<dots> \<subseteq># pool_cells pool + (full_cells c + F)" using full by (rule mset_subset_eq_mono_add [OF subset_mset.order_refl])
  finally have "pool_cells pool' + full_cells c' \<subseteq># pool_cells pool + full_cells c + F" by (simp add: add.assoc)
  moreover have "(b, i) \<in># full_cells c + F" if "h' b i \<noteq> h b i" for b i
    using mem that full_split [OF assms(2)] by auto
  ultimately show ?thesis using c F by (intro that) auto
qed

lemma reslice_cells:
  assumes "slice_ok s" and "n \<le> sl_len s"
  shows "slice_ok (reslice s n (sl_len s))" and "spare_cells (reslice s n (sl_len s)) = spare_cells s"
    and "slice_cells (reslice s n (sl_len s)) \<subseteq># slice_cells s"
proof -
  show "slice_ok (reslice s n (sl_len s))" "spare_cells (reslice s n (sl_len s)) = spare_cells s"
    using assms by (auto simp: slice_ok_def reslice_def spare_cells_def)
  have "slice_cells s = cells (sl_blk s) (sl_off s) (sl_off s + n) + slice_cells (reslice s n (sl_len s))"
    using assms(2) cells_split [of "sl_off s" "sl_off s + n" "sl_off s + sl_len s"] by (simp add: slice_cells_def reslice_def)
  then show "slice_cells (reslice s n (sl_len s)) \<subseteq># slice_cells s" by simp
qed

lemma list_all_put: "list_all P xs \<Longrightarrow> P x \<Longrightarrow> list_all P (xs[i := x])"
  by (auto simp: list_all_iff dest: set_update_subset_insert [THEN subsetD])

lemma sock_ok_nth: "mem_inv w \<Longrightarrow> i < length (wd_socks w) \<Longrightarrow> sock_ok (wd_socks w ! i)"
  by (simp add: mem_inv_def list_all_length)

lemma sock_put_inv:
  assumes inv: "mem_inv w" and i: "i < length (wd_socks w)"
    and upd: "\<And>s. sock_ok s \<Longrightarrow> sk_read s = sk_read (wd_socks w ! i) \<Longrightarrow> sk_stage s = sk_stage (wd_socks w ! i) \<Longrightarrow> sock_ok (upd s)
      \<and> sock_write (upd s) = sock_write s \<and> sock_keep (upd s) \<subseteq># sock_keep s"
  shows "mem_inv (sock_put extra i xs upd w)"
proof -
  let ?s = "wd_socks w ! i"
  obtain pool c h nx where put: "mem_put extra (wd_pool w) (sk_cache ?s) xs (wd_mem w) (wd_next w) = ((pool, c), h, nx)"
    by (metis prod.exhaust)
  have ok: "sock_ok ?s" using inv i by (rule sock_ok_nth)
  then have "slice_ok (sk_cache ?s)" by (simp add: sock_ok_def)
  from mem_put_cells [OF put this] obtain F where c: "slice_ok c" and F: "fresh_cells (wd_next w) nx F"
    and sub: "pool_cells pool + full_cells c \<subseteq># pool_cells (wd_pool w) + full_cells (sk_cache ?s) + F"
    and mem: "\<And>b i. h b i \<noteq> wd_mem w b i \<Longrightarrow> (b, i) \<in># full_cells (sk_cache ?s) + F"
    and bufs: "list_all (\<lambda>b. sl_len b = readBufferSize) (wd_pool w) \<Longrightarrow> list_all (\<lambda>b. sl_len b = readBufferSize) pool" by blast
  let ?t = "?s\<lparr>sk_cache := c\<rparr>" let ?w = "sock_put extra i xs upd w"
  have t: "sock_ok ?t" using ok c by (simp add: sock_ok_def)
  note u = upd [OF t, simplified]
  have w: "?w = w\<lparr>wd_pool := pool, wd_mem := h, wd_next := nx, wd_socks := (wd_socks w)[i := upd ?t]\<rparr>"
    by (simp add: sock_put_def put)
  let ?R = "spare_cells (sk_read ?s) + pool_cells (stage_buf (sk_stage ?s))"
  have st: "sock_write ?s = full_cells (sk_cache ?s) + ?R" "sock_write ?t = full_cells c + ?R" "sock_keep ?t = sock_keep ?s"
    by (simp_all add: sock_write_def sock_keep_def ac_simps)
  have wr: "pool_cells pool + sock_write (upd ?t) \<subseteq># pool_cells (wd_pool w) + sock_write ?s + F"
    using mset_subset_eq_mono_add [OF sub subset_mset.order_refl [of ?R]] u by (simp add: st ac_simps)
  have "mem_moves w ?w F"
  proof (rule sock_moves [OF i refl])
    show "wd_socks ?w = (wd_socks w)[i := upd ?t]" "fresh_cells (wd_next w) (wd_next ?w) F" using F by (simp_all add: w)
    have "pool_cells pool + sock_write (upd ?t) + sock_keep (upd ?t) \<subseteq># pool_cells (wd_pool w) + sock_write ?s + F + sock_keep ?s"
      using mset_subset_eq_mono_add [OF wr, of "sock_keep (upd ?t)" "sock_keep ?s"] u st(3) by simp
    then show "pool_cells (wd_pool ?w) + sock_write (upd ?t) + sock_keep (upd ?t)
        \<subseteq># pool_cells (wd_pool w) + sock_write ?s + sock_keep ?s + F" by (simp add: w ac_simps)
    show "x \<in># pool_cells (wd_pool w) + sock_write ?s + F" if "x \<in># pool_cells (wd_pool ?w) + sock_write (upd ?t)" for x
      using mset_subset_eqD [OF wr, of x] that by (simp add: w)
    show "(b, j) \<in># pool_cells (wd_pool w) + sock_write ?s + F" if "wd_mem ?w b j \<noteq> wd_mem w b j" for b j
      using mem [of b j] that by (auto simp: w st)
  qed
  moreover have "list_all sock_ok (wd_socks ?w)" using inv u by (simp add: w mem_inv_def list_all_put)
  moreover have "list_all (\<lambda>b. sl_len b = readBufferSize) (wd_pool ?w)" using inv bufs by (simp add: w mem_inv_def)
  moreover have "wd_held ?w = wd_held w" by (simp add: w)
  ultimately show ?thesis using inv by (metis moves_inv)
qed

lemma sock_append_inv:
  assumes inv: "mem_inv w" and i: "i < length (wd_socks w)" and stage: "sk_stage (wd_socks w ! i) = MPut b n"
  shows "mem_inv (sock_append extra i xs (\<lambda>s. s\<lparr>sk_stage := MHandle\<rparr>) w)"
proof -
  let ?s = "wd_socks w ! i" let ?w = "sock_append extra i xs (\<lambda>s. s\<lparr>sk_stage := MHandle\<rparr>) w"
  obtain r h nx where app: "mem_append extra (sk_read ?s) xs (wd_mem w) (wd_next w) = (r, h, nx)" by (metis prod.exhaust)
  have ok: "sock_ok ?s" using inv i by (rule sock_ok_nth)
  then have rd: "slice_ok (sk_read ?s)" by (simp add: sock_ok_def)
  from mem_append_cells [OF app rd] obtain F where r: "slice_ok r" and F: "fresh_cells (wd_next w) nx F"
    and full: "full_cells r \<subseteq># full_cells (sk_read ?s) + F" and spare: "spare_cells r \<subseteq># spare_cells (sk_read ?s) + F"
    and mem: "\<forall>b i. h b i \<noteq> wd_mem w b i \<longrightarrow> (b, i) \<in># spare_cells (sk_read ?s) + F" by blast
  let ?t = "?s\<lparr>sk_read := r, sk_stage := MHandle\<rparr>"
  have w: "?w = w\<lparr>wd_mem := h, wd_next := nx, wd_socks := (wd_socks w)[i := ?t]\<rparr>"
    by (simp add: sock_append_def app)
  have s: "sock_write ?s = full_cells (sk_cache ?s) + spare_cells (sk_read ?s) + slice_cells b" "sock_keep ?s = slice_cells (sk_read ?s)"
    and t: "sock_write ?t = full_cells (sk_cache ?s) + spare_cells r" "sock_keep ?t = slice_cells r"
    by (simp_all add: sock_write_def sock_keep_def stage)
  have full': "spare_cells r + slice_cells r \<subseteq># spare_cells (sk_read ?s) + slice_cells (sk_read ?s) + F"
    using full by (simp add: full_split [OF r] full_split [OF rd] ac_simps)
  have "mem_moves w ?w F"
  proof (rule sock_moves [OF i refl])
    show "wd_socks ?w = (wd_socks w)[i := ?t]" "fresh_cells (wd_next w) (wd_next ?w) F" using F by (simp_all add: w)
    let ?R = "pool_cells (wd_pool w) + full_cells (sk_cache ?s)"
    have "?R + (spare_cells r + slice_cells r) \<subseteq># ?R + (spare_cells (sk_read ?s) + slice_cells (sk_read ?s) + F)"
      using full' by simp
    then have "?R + (spare_cells r + slice_cells r) \<subseteq># ?R + (spare_cells (sk_read ?s) + slice_cells (sk_read ?s) + F) + slice_cells b"
      by (rule subset_mset.order_trans) simp
    then show "pool_cells (wd_pool ?w) + sock_write ?t + sock_keep ?t
        \<subseteq># pool_cells (wd_pool w) + sock_write ?s + sock_keep ?s + F" by (simp add: w s t ac_simps)
    show "x \<in># pool_cells (wd_pool w) + sock_write ?s + F" if "x \<in># pool_cells (wd_pool ?w) + sock_write ?t" for x
      using mset_subset_eqD [OF spare, of x] that by (auto simp: w s t)
    show "(b', j) \<in># pool_cells (wd_pool w) + sock_write ?s + F" if "wd_mem ?w b' j \<noteq> wd_mem w b' j" for b' j
      using mem that by (auto simp: w s)
  qed
  moreover have "sock_ok ?t" using ok r by (simp add: sock_ok_def)
  with inv have "list_all sock_ok (wd_socks ?w)" by (simp add: w mem_inv_def list_all_put)
  moreover have "list_all (\<lambda>b. sl_len b = readBufferSize) (wd_pool ?w)" using inv by (simp add: w mem_inv_def)
  moreover have "wd_held ?w = wd_held w" by (simp add: w)
  ultimately show ?thesis using inv by (metis moves_inv)
qed

text \<open>A step that changes the stage of a socket and takes a buffer from the pool or gives one up, without a store.\<close>

lemma stage_inv:
  assumes inv: "mem_inv w" and i: "i < length (wd_socks w)"
    and w': "w' = w\<lparr>wd_pool := pool, wd_socks := (wd_socks w)[i := (wd_socks w ! i)\<lparr>sk_stage := st\<rparr>]\<rparr>"
    and sub: "pool_cells pool + pool_cells (stage_buf st) \<subseteq># pool_cells (wd_pool w) + pool_cells (stage_buf (sk_stage (wd_socks w ! i)))"
    and ok: "list_all (\<lambda>b. sl_len b = readBufferSize) (pool @ stage_buf st)" "stage_ok st"
  shows "mem_inv w'"
proof -
  let ?s = "wd_socks w ! i" let ?t = "?s\<lparr>sk_stage := st\<rparr>"
  let ?R = "full_cells (sk_cache ?s) + spare_cells (sk_read ?s)"
  have wr: "pool_cells pool + sock_write ?t \<subseteq># pool_cells (wd_pool w) + sock_write ?s"
    using mset_subset_eq_mono_add [OF sub subset_mset.order_refl [of ?R]] by (simp add: sock_write_def ac_simps)
  have "mem_moves w w' {#}"
  proof (rule sock_moves [OF i refl])
    show "wd_socks w' = (wd_socks w)[i := ?t]" "fresh_cells (wd_next w) (wd_next w') {#}" by (simp_all add: w')
    show "pool_cells (wd_pool w') + sock_write ?t + sock_keep ?t \<subseteq># pool_cells (wd_pool w) + sock_write ?s + sock_keep ?s + {#}"
      using mset_subset_eq_mono_add [OF wr subset_mset.order_refl [of "sock_keep ?s"]] by (simp add: w' sock_keep_def)
    show "x \<in># pool_cells (wd_pool w) + sock_write ?s + {#}" if "x \<in># pool_cells (wd_pool w') + sock_write ?t" for x
      using mset_subset_eqD [OF wr, of x] that by (simp add: w')
    show "(b, j) \<in># pool_cells (wd_pool w) + sock_write ?s + {#}" if "wd_mem w' b j \<noteq> wd_mem w b j" for b j
      using that by (simp add: w')
  qed
  moreover have "sock_ok ?t" using sock_ok_nth [OF inv i] ok by (simp add: sock_ok_def)
  with inv have "list_all sock_ok (wd_socks w')" by (simp add: w' mem_inv_def list_all_put)
  moreover have "list_all (\<lambda>b. sl_len b = readBufferSize) (wd_pool w')" using ok by (simp add: w')
  moreover have "wd_held w' = wd_held w" by (simp add: w')
  ultimately show ?thesis using inv by (metis moves_inv)
qed

lemma cells_empty [simp]: "cells b lo lo = {#}"
  by (simp add: cells_def)

lemma new_mem_sock_cells [simp]: "sock_write new_mem_sock = {#}" "sock_keep new_mem_sock = {#}" "sock_ok new_mem_sock"
  by (simp_all add: new_mem_sock_def nil_slice_def sock_write_def sock_keep_def full_cells_def spare_cells_def slice_cells_def
      sock_ok_def slice_ok_def)

lemma m_new_inv:
  assumes inv: "mem_inv w" and i: "i < length (wd_socks w)" and stage: "sk_stage (wd_socks w ! i) = MIdle"
    and b: "b = \<lparr>sl_blk = wd_next w, sl_off = 0, sl_len = readBufferSize, sl_cap = readBufferSize\<rparr>"
    and w': "w' = w\<lparr>wd_mem := store (wd_mem w) (wd_next w) 0 pool_New, wd_next := wd_next w + 1,
      wd_socks := (wd_socks w)[i := (wd_socks w ! i)\<lparr>sk_stage := MGot b\<rparr>]\<rparr>"
  shows "mem_inv w'"
proof -
  let ?s = "wd_socks w ! i" let ?t = "?s\<lparr>sk_stage := MGot b\<rparr>"
  have t: "sock_write ?t = sock_write ?s + slice_cells b" "sock_keep ?t = sock_keep ?s"
    by (simp_all add: sock_write_def sock_keep_def stage)
  have F: "fresh_cells (wd_next w) (wd_next w') (slice_cells b)"
    by (auto simp: fresh_cells_def w' slice_cells_def b count_cells [simplified])
  have "mem_moves w w' (slice_cells b)"
  proof (rule sock_moves [OF i refl _ F])
    show "wd_socks w' = (wd_socks w)[i := ?t]" by (simp add: w')
    show "pool_cells (wd_pool w') + sock_write ?t + sock_keep ?t
        \<subseteq># pool_cells (wd_pool w) + sock_write ?s + sock_keep ?s + slice_cells b" by (simp add: w' t ac_simps)
    show "x \<in># pool_cells (wd_pool w) + sock_write ?s + slice_cells b" if "x \<in># pool_cells (wd_pool w') + sock_write ?t" for x
      using that by (auto simp: w' t)
    show "(b', j) \<in># pool_cells (wd_pool w) + sock_write ?s + slice_cells b" if "wd_mem w' b' j \<noteq> wd_mem w b' j" for b' j
      using that by (auto simp: w' store_def slice_cells_def b pool_New_def split: if_splits)
  qed
  moreover have "sock_ok ?t" using sock_ok_nth [OF inv i] by (simp add: sock_ok_def b)
  with inv have "list_all sock_ok (wd_socks w')" by (simp add: w' mem_inv_def list_all_put)
  moreover have "list_all (\<lambda>b. sl_len b = readBufferSize) (wd_pool w')" using inv by (simp add: w' mem_inv_def)
  moreover have "wd_held w' = wd_held w" by (simp add: w')
  ultimately show ?thesis using inv by (metis moves_inv)
qed

lemma m_read_inv:
  assumes inv: "mem_inv w" and i: "i < length (wd_socks w)" and stage: "sk_stage (wd_socks w ! i) = MGot b"
    and len: "length data \<le> sl_len b"
    and w': "w' = w\<lparr>wd_mem := store (wd_mem w) (sl_blk b) (sl_off b) data,
      wd_socks := (wd_socks w)[i := (wd_socks w ! i)\<lparr>sk_stage := MRead b (length data)\<rparr>]\<rparr>"
  shows "mem_inv w'"
proof -
  let ?s = "wd_socks w ! i" let ?t = "?s\<lparr>sk_stage := MRead b (length data)\<rparr>"
  have t: "sock_write ?t = sock_write ?s" "sock_keep ?t = sock_keep ?s"
    by (simp_all add: sock_write_def sock_keep_def stage)
  have "mem_moves w w' {#}"
  proof (rule sock_moves [OF i refl])
    show "wd_socks w' = (wd_socks w)[i := ?t]" "fresh_cells (wd_next w) (wd_next w') {#}" by (simp_all add: w')
    show "pool_cells (wd_pool w') + sock_write ?t + sock_keep ?t
        \<subseteq># pool_cells (wd_pool w) + sock_write ?s + sock_keep ?s + {#}" by (simp add: w' t)
    show "x \<in># pool_cells (wd_pool w) + sock_write ?s + {#}" if "x \<in># pool_cells (wd_pool w') + sock_write ?t" for x
      using that by (simp add: w' t)
    show "(b', j) \<in># pool_cells (wd_pool w) + sock_write ?s + {#}" if "wd_mem w' b' j \<noteq> wd_mem w b' j" for b' j
    proof -
      have "(b', j) \<in># slice_cells b" using that len by (auto simp: w' store_def slice_cells_def split: if_splits)
      then show ?thesis by (simp add: sock_write_def stage)
    qed
  qed
  moreover have "sock_ok ?t" using sock_ok_nth [OF inv i] stage len by (simp add: sock_ok_def)
  with inv have "list_all sock_ok (wd_socks w')" by (simp add: w' mem_inv_def list_all_put)
  moreover have "list_all (\<lambda>b. sl_len b = readBufferSize) (wd_pool w')" using inv by (simp add: w' mem_inv_def)
  moreover have "wd_held w' = wd_held w" by (simp add: w')
  ultimately show ?thesis using inv by (metis moves_inv)
qed

lemma take_drop_all: "list_all P xs \<Longrightarrow> list_all P (take k xs @ drop (Suc k) xs)"
  by (auto simp: list_all_iff dest: in_set_takeD in_set_dropD)

text \<open>A kept slice is a part of the contents of a cache, which nobody may write to.\<close>

lemma m_hold_inv:
  assumes inv: "mem_inv w" and i: "i < length (wd_socks w)" and "lo \<le> hi" and "hi \<le> sl_len (sk_read (wd_socks w ! i))"
    and v: "v = reslice (sk_read (wd_socks w ! i)) lo hi"
  shows "mem_inv (w\<lparr>wd_held := wd_held w @ [(v, contents (wd_mem w) v)]\<rparr>)"
proof -
  let ?w = "w\<lparr>wd_held := wd_held w @ [(v, contents (wd_mem w) v)]\<rparr>"
  have same: "world_write ?w = world_write w" "world_keep ?w = world_keep w" "held_ok ?w = held_ok w"
    by (simp_all add: world_write_def world_keep_def held_ok_def fun_eq_iff)
  have keep: "x \<in># world_keep w" if "x \<in># slice_cells v" for x
  proof -
    obtain B where "world_keep w = sock_keep (wd_socks w ! i) + B"
      using sum_list_put [OF i, of sock_keep] by (auto simp: world_keep_def)
    moreover have "x \<in># sock_keep (wd_socks w ! i)"
      using that assms(3,4) by (cases x) (auto simp: v reslice_def slice_cells_def sock_keep_def)
    ultimately show ?thesis by simp
  qed
  have "x \<notin># world_write w \<and> fst x < wd_next w" if "x \<in># slice_cells v" for x
  proof -
    have "count (world_write w) x + count (world_keep w) x \<le> 1" using inv by (cases x) (simp add: mem_inv_def)
    with keep [OF that] have "count (world_write w) x = 0" by (simp flip: count_greater_zero_iff)
    moreover have "fst x < wd_next w" using inv keep [OF that] unfolding mem_inv_def by auto
    ultimately show ?thesis by (simp add: count_eq_zero_iff)
  qed
  then have "held_ok w (v, contents (wd_mem w) v)" by (simp add: held_ok_def)
  with inv same show ?thesis by (simp add: mem_inv_def)
qed

lemma mem_step_inv: "mem_step w w' \<Longrightarrow> mem_inv w \<Longrightarrow> mem_inv w'"
proof (induction rule: mem_step.induct)
  case (m_open w)
  then show ?case by (simp add: mem_inv_def world_write_def world_keep_def held_ok_def)
next
  case (m_get i w k)
  let ?b = "wd_pool w ! k"
  have bufs: "list_all (\<lambda>b. sl_len b = readBufferSize) (wd_pool w)" using m_get.prems by (simp add: mem_inv_def)
  then have "sl_len ?b = readBufferSize" using m_get.hyps(3) by (simp add: list_all_length)
  with take_drop_all [OF bufs, of k] have "list_all (\<lambda>b. sl_len b = readBufferSize) ((take k (wd_pool w) @ drop (Suc k) (wd_pool w)) @ [?b])"
    by simp
  with m_get.hyps(2) pool_cells_nth [OF m_get.hyps(3)] show ?case
    by (intro stage_inv [OF m_get.prems m_get.hyps(1) refl]) (simp_all add: ac_simps)
next
  case (m_new i w b)
  show ?case by (rule m_new_inv [OF m_new.prems m_new.hyps refl])
next
  case (m_read i w b data)
  show ?case by (rule m_read_inv [OF m_read.prems m_read.hyps refl])
next
  case (m_put i w b n extra)
  show ?case
  proof (rule sock_put_inv [OF m_put.prems m_put.hyps(1)])
    fix s assume s: "sock_ok s" "sk_stage s = sk_stage (wd_socks w ! i)"
    with m_put.hyps(2) show "sock_ok (s\<lparr>sk_stage := MPut b n\<rparr>) \<and> sock_write (s\<lparr>sk_stage := MPut b n\<rparr>) = sock_write s
        \<and> sock_keep (s\<lparr>sk_stage := MPut b n\<rparr>) \<subseteq># sock_keep s"
      by (simp add: sock_ok_def sock_write_def sock_keep_def)
  qed
next
  case (m_append i w b n extra)
  show ?case by (rule sock_append_inv [OF m_append.prems m_append.hyps])
next
  case (m_hold i w lo hi v)
  show ?case by (rule m_hold_inv [OF m_hold.prems m_hold.hyps(1,3,4,5)])
next
  case (m_use i w n extra)
  show ?case
  proof (rule sock_put_inv [OF m_use.prems m_use.hyps(1)])
    fix s assume s: "sock_ok s" "sk_read s = sk_read (wd_socks w ! i)"
    have ok: "slice_ok (sk_read s)" using s by (simp add: sock_ok_def)
    note r = reslice_cells [OF ok, of n]
    show "sock_ok (s\<lparr>sk_read := reslice (sk_read s) n (sl_len (sk_read s))\<rparr>)
      \<and> sock_write (s\<lparr>sk_read := reslice (sk_read s) n (sl_len (sk_read s))\<rparr>) = sock_write s
      \<and> sock_keep (s\<lparr>sk_read := reslice (sk_read s) n (sl_len (sk_read s))\<rparr>) \<subseteq># sock_keep s"
      using r s m_use.hyps(4) by (simp add: sock_ok_def sock_write_def sock_keep_def)
  qed
next
  case (m_wait i w)
  have "list_all (\<lambda>b. sl_len b = readBufferSize) (wd_pool w)" using m_wait.prems by (simp add: mem_inv_def)
  then show ?case
    by (intro stage_inv [OF m_wait.prems m_wait.hyps(1), where pool = "wd_pool w" and st = MIdle])
      (simp_all add: set_sock_def)
next
  case (m_gc k w)
  have bufs: "list_all (\<lambda>b. sl_len b = readBufferSize) (wd_pool w)" using m_gc.prems by (simp add: mem_inv_def)
  let ?w = "w\<lparr>wd_pool := take k (wd_pool w) @ drop (Suc k) (wd_pool w)\<rparr>"
  have cells: "world_write w = slice_cells (wd_pool w ! k) + world_write ?w" "world_keep ?w = world_keep w"
    using pool_cells_nth [OF m_gc.hyps] by (simp_all add: world_write_def world_keep_def ac_simps)
  have moves: "mem_moves w ?w {#}" by (auto simp: mem_moves_def cells)
  show ?case by (rule moves_inv [OF m_gc.prems moves]) (use m_gc.prems bufs take_drop_all [OF bufs, of k] in \<open>simp_all add: mem_inv_def\<close>)
qed

interpretation mem: inductive_invariant mem_init mem_step mem_inv
proof
  show "mem_inv w" if "mem_init w" for w
    using that by (auto simp: mem_init_def mem_inv_def empty_world_def world_write_def world_keep_def)
qed (rule mem_step_inv)

section \<open>Apart\<close>

text \<open>All cells of a socket.\<close>

definition sock_total :: "mem_sock \<Rightarrow> (nat \<times> nat) multiset" where
  "sock_total s = full_cells (sk_cache s) + full_cells (sk_read s) + pool_cells (stage_buf (sk_stage s))"

lemma sock_total_eq: "sock_ok s \<Longrightarrow> sock_total s = sock_write s + sock_keep s"
  by (simp add: sock_total_def sock_write_def sock_keep_def sock_ok_def full_split [of "sk_read s"] ac_simps)

lemma world_total:
  assumes "mem_inv w"
  shows "world_write w + world_keep w = pool_cells (wd_pool w) + sum_list (map sock_total (wd_socks w))"
proof -
  have "map sock_total (wd_socks w) = map (\<lambda>s. sock_write s + sock_keep s) (wd_socks w)"
    using assms by (auto simp: mem_inv_def list_all_iff sock_total_eq)
  then have "sum_list (map sock_total (wd_socks w)) = sum_list (map sock_write (wd_socks w)) + sum_list (map sock_keep (wd_socks w))"
    by (simp only: sum_list_addf)
  then show ?thesis by (simp add: world_write_def world_keep_def ac_simps)
qed

lemma count_twice: "count (A + B) x \<le> 1 \<Longrightarrow> x \<in># A \<Longrightarrow> x \<notin># B"
proof
  assume "count (A + B) x \<le> 1" "x \<in># A" "x \<in># B"
  then have "0 < count A x" "0 < count B x" "count A x + count B x \<le> 1" by simp_all
  then show False by linarith
qed

text \<open>The cells of a socket are its own.\<close>

lemma apart:
  assumes inv: "mem_inv w" and i: "i < length (wd_socks w)"
  shows "x \<in># sock_total (wd_socks w ! i) \<Longrightarrow> x \<notin># pool_cells (wd_pool w)"
    and "x \<in># sock_total (wd_socks w ! i) \<Longrightarrow> j < length (wd_socks w) \<Longrightarrow> j \<noteq> i \<Longrightarrow> x \<notin># sock_total (wd_socks w ! j)"
    and "count (sock_total (wd_socks w ! i)) x \<le> 1"
    and "count (pool_cells (wd_pool w)) x \<le> 1"
    and "x \<in># sock_total (wd_socks w ! i) + pool_cells (wd_pool w) \<Longrightarrow> fst x < wd_next w"
proof -
  let ?s = "wd_socks w ! i"
  let ?A = "sum_list (map sock_total (take i (wd_socks w))) + sum_list (map sock_total (drop (Suc i) (wd_socks w)))"
  have split: "sum_list (map sock_total (wd_socks w)) = sock_total ?s + ?A"
    by (subst (1) id_take_nth_drop [OF i]) (simp add: ac_simps)
  have one: "count (pool_cells (wd_pool w) + (sock_total ?s + ?A)) x \<le> 1" for x
    using inv world_total [OF inv] split unfolding mem_inv_def by metis
  show "count (sock_total ?s) x \<le> 1" "count (pool_cells (wd_pool w)) x \<le> 1" using one [of x] by simp_all
  show "x \<notin># pool_cells (wd_pool w)" if "x \<in># sock_total ?s"
    using count_twice [OF one, of x] that by auto
  show "x \<notin># sock_total (wd_socks w ! j)" if "x \<in># sock_total ?s" "j < length (wd_socks w)" "j \<noteq> i"
  proof -
    have "wd_socks w ! j \<in> set (take i (wd_socks w)) \<union> set (drop (Suc i) (wd_socks w))"
      using that(2,3) i nat_neq_iff [of i j] by (auto simp: in_set_conv_nth min_absorb2 intro: exI [of _ "j - Suc i"])
    then have sub: "y \<in># sock_total (wd_socks w ! j) \<Longrightarrow> y \<in># ?A" for y by (auto simp: in_set_conv_decomp)
    have "count (sock_total ?s + ?A) x \<le> 1" using one [of x] by simp
    from count_twice [OF this that(1)] sub show ?thesis by blast
  qed
  show "fst x < wd_next w" if "x \<in># sock_total ?s + pool_cells (wd_pool w)"
  proof -
    have "x \<in># world_write w + world_keep w" using that by (auto simp: world_total [OF inv] split)
    with inv show ?thesis unfolding mem_inv_def by blast
  qed
qed

section \<open>The contents alone\<close>

text \<open>
  What there is to see without the memory: the buffers of the pool, and of each socket what waits to be cut into
  buffers, the cache and the buffer in use. The steps on that are those of \<open>Buffer_Pool\<close> and \<open>Stream_Read\<close>.
\<close>

datatype view_stage = VIdle | VGot bytes | VRead bytes nat | VPut bytes nat | VHandle

record view_sock =
  vs_cache :: bytes
  vs_read :: bytes
  vs_stage :: view_stage

record view_world =
  vw_pool :: "bytes list"
  vw_socks :: "view_sock list"

fun view_of_stage :: "memory \<Rightarrow> rd_stage \<Rightarrow> view_stage" where
  "view_of_stage h MIdle = VIdle"
| "view_of_stage h (MGot b) = VGot (contents h b)"
| "view_of_stage h (MRead b n) = VRead (contents h b) n"
| "view_of_stage h (MPut b n) = VPut (contents h b) n"
| "view_of_stage h MHandle = VHandle"

definition view_of_sock :: "memory \<Rightarrow> mem_sock \<Rightarrow> view_sock" where
  "view_of_sock h s = \<lparr>vs_cache = contents h (sk_cache s), vs_read = contents h (sk_read s), vs_stage = view_of_stage h (sk_stage s)\<rparr>"

definition view :: "read_world \<Rightarrow> view_world" where
  "view w = \<lparr>vw_pool = map (contents (wd_mem w)) (wd_pool w), vw_socks = map (view_of_sock (wd_mem w)) (wd_socks w)\<rparr>"

text \<open>\<open>put\<close> on contents, for socket \<open>i\<close>.\<close>

definition view_put :: "nat \<Rightarrow> bytes \<Rightarrow> (view_sock \<Rightarrow> view_sock) \<Rightarrow> view_world \<Rightarrow> view_world" where
  "view_put i xs upd v =
     (let bp = bp_put \<lparr>bp_pool = vw_pool v, bp_cache = vs_cache (vw_socks v ! i)\<rparr> xs in
      \<lparr>vw_pool = bp_pool bp, vw_socks = (vw_socks v)[i := upd ((vw_socks v ! i)\<lparr>vs_cache := bp_cache bp\<rparr>)]\<rparr>)"

inductive view_step :: "view_world \<Rightarrow> view_world \<Rightarrow> bool" where
  v_open: "view_step v (v\<lparr>vw_socks := vw_socks v @ [\<lparr>vs_cache = [], vs_read = [], vs_stage = VIdle\<rparr>]\<rparr>)"
| v_get: "i < length (vw_socks v) \<Longrightarrow> vs_stage (vw_socks v ! i) = VIdle \<Longrightarrow> k < length (vw_pool v) \<Longrightarrow>
    view_step v \<lparr>vw_pool = take k (vw_pool v) @ drop (Suc k) (vw_pool v),
      vw_socks = (vw_socks v)[i := (vw_socks v ! i)\<lparr>vs_stage := VGot (vw_pool v ! k)\<rparr>]\<rparr>"
| v_new: "i < length (vw_socks v) \<Longrightarrow> vs_stage (vw_socks v ! i) = VIdle \<Longrightarrow>
    view_step v (v\<lparr>vw_socks := (vw_socks v)[i := (vw_socks v ! i)\<lparr>vs_stage := VGot pool_New\<rparr>]\<rparr>)"
| v_read: "i < length (vw_socks v) \<Longrightarrow> vs_stage (vw_socks v ! i) = VGot b \<Longrightarrow> length data \<le> length b \<Longrightarrow>
    view_step v (v\<lparr>vw_socks := (vw_socks v)[i := (vw_socks v ! i)\<lparr>vs_stage := VRead (data @ drop (length data) b) (length data)\<rparr>]\<rparr>)"
| v_put: "i < length (vw_socks v) \<Longrightarrow> vs_stage (vw_socks v ! i) = VRead b n \<Longrightarrow>
    view_step v (view_put i (drop n b) (\<lambda>s. s\<lparr>vs_stage := VPut b n\<rparr>) v)"
| v_append: "i < length (vw_socks v) \<Longrightarrow> vs_stage (vw_socks v ! i) = VPut b n \<Longrightarrow>
    view_step v (v\<lparr>vw_socks := (vw_socks v)[i := (vw_socks v ! i)\<lparr>vs_read := vs_read (vw_socks v ! i) @ take n b, vs_stage := VHandle\<rparr>]\<rparr>)"
| v_use: "i < length (vw_socks v) \<Longrightarrow> vs_stage (vw_socks v ! i) = VHandle \<Longrightarrow> 0 < n \<Longrightarrow> n \<le> length (vs_read (vw_socks v ! i)) \<Longrightarrow>
    view_step v (view_put i (take n (vs_read (vw_socks v ! i))) (\<lambda>s. s\<lparr>vs_read := drop n (vs_read s)\<rparr>) v)"
| v_wait: "i < length (vw_socks v) \<Longrightarrow> vs_stage (vw_socks v ! i) = VHandle \<Longrightarrow>
    view_step v (v\<lparr>vw_socks := (vw_socks v)[i := (vw_socks v ! i)\<lparr>vs_stage := VIdle\<rparr>]\<rparr>)"
| v_gc: "k < length (vw_pool v) \<Longrightarrow> view_step v (v\<lparr>vw_pool := take k (vw_pool v) @ drop (Suc k) (vw_pool v)\<rparr>)"

text \<open>
  What a step of one socket does not change: it stores into its own cells, or new ones, so the pool's buffers and the
  other sockets show what they showed.
\<close>

lemma view_frame:
  assumes inv: "mem_inv w" and i: "i < length (wd_socks w)" and F: "fresh_cells (wd_next w) nx F"
    and mem: "\<forall>b j. h b j \<noteq> wd_mem w b j \<longrightarrow> (b, j) \<in># sock_total (wd_socks w ! i) + F"
  shows "map (contents h) (wd_pool w) = map (contents (wd_mem w)) (wd_pool w)"
    and "j < length (wd_socks w) \<Longrightarrow> j \<noteq> i \<Longrightarrow> view_of_sock h (wd_socks w ! j) = view_of_sock (wd_mem w) (wd_socks w ! j)"
proof -
  note ap = apart [OF inv i]
  show "map (contents h) (wd_pool w) = map (contents (wd_mem w)) (wd_pool w)"
  proof (rule map_cong [OF refl], rule contents_frame, rule ccontr)
    fix s b k assume s: "s \<in> set (wd_pool w)" "(b, k) \<in># slice_cells s" and ne: "h b k \<noteq> wd_mem w b k"
    have p: "(b, k) \<in># pool_cells (wd_pool w)" using s by (auto simp: pool_cells_def in_set_conv_decomp)
    then have "b < wd_next w" using ap(5) [of "(b, k)"] by simp
    with fresh_not_old [OF F, of "(b, k)"] mem ne ap(1) [of "(b, k)"] p show False by auto
  qed
  assume j: "j < length (wd_socks w)" "j \<noteq> i"
  have same: "h b k = wd_mem w b k" if "(b, k) \<in># sock_total (wd_socks w ! j)" for b k
  proof (rule ccontr)
    assume ne: "h b k \<noteq> wd_mem w b k"
    have "b < wd_next w" using apart(5) [OF inv j(1), of "(b, k)"] that by simp
    with fresh_not_old [OF F, of "(b, k)"] mem ne ap(2) [of "(b, k)" j] that j show False by auto
  qed
  have ok: "slice_ok (sk_cache (wd_socks w ! j))" "slice_ok (sk_read (wd_socks w ! j))"
    using sock_ok_nth [OF inv j(1)] by (simp_all add: sock_ok_def)
  have "contents h s = contents (wd_mem w) s"
    if "s \<in> {sk_cache (wd_socks w ! j), sk_read (wd_socks w ! j)} \<union> set (stage_buf (sk_stage (wd_socks w ! j)))" for s
    using that ok by (intro contents_frame same)
      (auto simp: sock_total_def full_split pool_cells_def in_set_conv_decomp)
  then show "view_of_sock h (wd_socks w ! j) = view_of_sock (wd_mem w) (wd_socks w ! j)"
    unfolding view_of_sock_def by (cases "sk_stage (wd_socks w ! j)") simp_all
qed

text \<open>The view after a step of socket \<open>i\<close>.\<close>

lemma view_socks_put:
  assumes "i < length (wd_socks w)"
    and "\<And>j. j < length (wd_socks w) \<Longrightarrow> j \<noteq> i \<Longrightarrow> view_of_sock h (wd_socks w ! j) = view_of_sock (wd_mem w) (wd_socks w ! j)"
  shows "map (view_of_sock h) ((wd_socks w)[i := s']) = (map (view_of_sock (wd_mem w)) (wd_socks w))[i := view_of_sock h s']"
  using assms by (intro nth_equalityI) (auto simp: nth_list_update)

text \<open>The slices of one socket do not overlap, so a store into the spare cells of one leaves the others.\<close>

lemma own_frame:
  assumes inv: "mem_inv w" and i: "i < length (wd_socks w)" and F: "fresh_cells (wd_next w) nx F"
    and mem: "\<forall>b j. h b j \<noteq> wd_mem w b j \<longrightarrow> (b, j) \<in># A + F"
    and sub: "A + slice_cells s \<subseteq># sock_total (wd_socks w ! i)"
  shows "contents h s = contents (wd_mem w) s"
proof (rule contents_frame, rule ccontr)
  fix b k assume s: "(b, k) \<in># slice_cells s" and ne: "h b k \<noteq> wd_mem w b k"
  have tot: "(b, k) \<in># sock_total (wd_socks w ! i)" using mset_subset_eqD [OF sub, of "(b, k)"] s by simp
  then have "b < wd_next w" using apart(5) [OF inv i, of "(b, k)"] by simp
  with fresh_not_old [OF F, of "(b, k)"] mem ne have "(b, k) \<in># A" by auto
  moreover have "count (A + slice_cells s) (b, k) \<le> 1"
    using apart(3) [OF inv i, of "(b, k)"] mset_subset_eq_count [OF sub, of "(b, k)"] by linarith
  ultimately show False using s count_twice by metis
qed

lemma view_sock_put:
  assumes inv: "mem_inv w" and i: "i < length (wd_socks w)"
    and upd: "\<And>h s. sk_read s = sk_read (wd_socks w ! i) \<Longrightarrow> sk_stage s = sk_stage (wd_socks w ! i) \<Longrightarrow>
      view_of_sock h (upd s) = upd' (view_of_sock h s)"
  shows "view (sock_put extra i xs upd w) = view_put i xs upd' (view w)"
proof -
  let ?s = "wd_socks w ! i" let ?h = "wd_mem w"
  obtain c1 h nx where app: "mem_append extra (sk_cache ?s) xs ?h (wd_next w) = (c1, h, nx)" by (metis prod.exhaust)
  obtain pool c where cut: "mem_cut (wd_pool w) c1 = (pool, c)" by (metis prod.exhaust)
  have ok: "slice_ok (sk_cache ?s)" "slice_ok (sk_read ?s)" using sock_ok_nth [OF inv i] by (simp_all add: sock_ok_def)
  from mem_append_cells [OF app ok(1)] obtain F where F: "fresh_cells (wd_next w) nx F"
    and mem: "\<forall>b j. h b j \<noteq> ?h b j \<longrightarrow> (b, j) \<in># spare_cells (sk_cache ?s) + F" by blast
  have mem': "\<forall>b j. h b j \<noteq> ?h b j \<longrightarrow> (b, j) \<in># sock_total ?s + F"
    using mem by (force simp: sock_total_def full_split [OF ok(1)])
  note frame = view_frame [OF inv i F mem']
  have own: "contents h s = contents ?h s" if "s = sk_read ?s \<or> stage_buf (sk_stage ?s) = [s]" for s
    by (rule own_frame [OF inv i F mem]) (use that in \<open>auto simp: sock_total_def full_split ok\<close>)
  let ?t = "?s\<lparr>sk_cache := c\<rparr>"
  have t: "view_of_sock h ?t = (view_of_sock ?h ?s)\<lparr>vs_cache := contents h c\<rparr>"
    using own by (cases "sk_stage ?s") (simp_all add: view_of_sock_def)
  have cont: "(map (contents h) pool, contents h c) = put_loop (map (contents ?h) (wd_pool w)) (contents ?h (sk_cache ?s) @ xs)"
    using mem_cut_contents [OF cut, of h] by (simp only: mem_append_contents [OF app] frame(1))
  have "view (sock_put extra i xs upd w) =
      \<lparr>vw_pool = map (contents h) pool, vw_socks = (map (view_of_sock ?h) (wd_socks w))[i := view_of_sock h (upd ?t)]\<rparr>"
    by (simp add: sock_put_def mem_put_def app cut view_def view_socks_put [OF i frame(2)] del: map_update)
  also have "\<dots> = view_put i xs upd' (view w)"
    using cont [symmetric] upd [of ?t h] i by (simp add: view_put_def bp_put_def view_def t) (simp add: view_of_sock_def)
  finally show ?thesis .
qed

lemma view_sock_append:
  assumes inv: "mem_inv w" and i: "i < length (wd_socks w)" and stage: "sk_stage (wd_socks w ! i) = MPut b n"
  shows "view (sock_append extra i xs (\<lambda>s. s\<lparr>sk_stage := MHandle\<rparr>) w) = (view w)\<lparr>vw_socks :=
    (vw_socks (view w))[i := (vw_socks (view w) ! i)\<lparr>vs_read := vs_read (vw_socks (view w) ! i) @ xs, vs_stage := VHandle\<rparr>]\<rparr>"
proof -
  let ?s = "wd_socks w ! i" let ?h = "wd_mem w"
  obtain r h nx where app: "mem_append extra (sk_read ?s) xs ?h (wd_next w) = (r, h, nx)" by (metis prod.exhaust)
  have ok: "slice_ok (sk_cache ?s)" "slice_ok (sk_read ?s)" using sock_ok_nth [OF inv i] by (simp_all add: sock_ok_def)
  from mem_append_cells [OF app ok(2)] obtain F where F: "fresh_cells (wd_next w) nx F"
    and mem: "\<forall>b j. h b j \<noteq> ?h b j \<longrightarrow> (b, j) \<in># spare_cells (sk_read ?s) + F" by blast
  have mem': "\<forall>b j. h b j \<noteq> ?h b j \<longrightarrow> (b, j) \<in># sock_total ?s + F"
    using mem by (force simp: sock_total_def full_split [OF ok(2)])
  note frame = view_frame [OF inv i F mem']
  have "contents h (sk_cache ?s) = contents ?h (sk_cache ?s)"
    by (rule own_frame [OF inv i F mem]) (auto simp: sock_total_def full_split ok ac_simps)
  with mem_append_contents [OF app] show ?thesis
    by (simp add: sock_append_def app view_def view_socks_put [OF i frame(2)] frame(1) i del: map_update map_eq_conv)
      (simp add: view_of_sock_def)
qed

text \<open>A store by \<open>Read\<close> into the buffer in use, and the making of a new one.\<close>

lemma view_m_read:
  assumes inv: "mem_inv w" and i: "i < length (wd_socks w)" and stage: "sk_stage (wd_socks w ! i) = MGot b"
    and len: "length data \<le> sl_len b"
  shows "view (w\<lparr>wd_mem := store (wd_mem w) (sl_blk b) (sl_off b) data,
      wd_socks := (wd_socks w)[i := (wd_socks w ! i)\<lparr>sk_stage := MRead b (length data)\<rparr>]\<rparr>) =
    (view w)\<lparr>vw_socks := (vw_socks (view w))[i := (vw_socks (view w) ! i)\<lparr>vs_stage :=
       VRead (data @ drop (length data) (contents (wd_mem w) b)) (length data)\<rparr>]\<rparr>"
proof -
  let ?s = "wd_socks w ! i" let ?h = "wd_mem w" let ?h' = "store (wd_mem w) (sl_blk b) (sl_off b) data"
  have ok: "slice_ok (sk_cache ?s)" "slice_ok (sk_read ?s)" using sock_ok_nth [OF inv i] by (simp_all add: sock_ok_def)
  have mem: "\<forall>b' j. ?h' b' j \<noteq> ?h b' j \<longrightarrow> (b', j) \<in># slice_cells b + {#}"
    using len by (auto simp: store_def slice_cells_def split: if_splits)
  have mem': "\<forall>b' j. ?h' b' j \<noteq> ?h b' j \<longrightarrow> (b', j) \<in># sock_total ?s + {#}"
    using mem by (force simp: sock_total_def stage)
  note frame = view_frame [OF inv i no_fresh mem']
  have own: "contents ?h' s = contents ?h s" if "s \<in> {sk_cache ?s, sk_read ?s}" for s
    by (rule own_frame [OF inv i no_fresh mem])
      (use that in \<open>auto simp: sock_total_def stage full_split ok ac_simps intro: subset_mset.order_trans [OF _ mset_subset_eq_add_left]\<close>)
  have "contents ?h' b = data @ drop (length data) (contents ?h b)"
    using len by (auto simp: contents_def store_def nth_append intro!: nth_equalityI)
  then have "view_of_sock ?h' (?s\<lparr>sk_stage := MRead b (length data)\<rparr>) =
      (view_of_sock ?h ?s)\<lparr>vs_stage := VRead (data @ drop (length data) (contents ?h b)) (length data)\<rparr>"
    using own by (simp add: view_of_sock_def)
  then show ?thesis
    by (simp add: view_def view_socks_put [OF i frame(2)] frame(1) i del: map_update map_eq_conv)
qed

lemma view_m_new:
  assumes inv: "mem_inv w" and i: "i < length (wd_socks w)" and stage: "sk_stage (wd_socks w ! i) = MIdle"
    and b: "b = \<lparr>sl_blk = wd_next w, sl_off = 0, sl_len = readBufferSize, sl_cap = readBufferSize\<rparr>"
  shows "view (w\<lparr>wd_mem := store (wd_mem w) (wd_next w) 0 pool_New, wd_next := wd_next w + 1,
      wd_socks := (wd_socks w)[i := (wd_socks w ! i)\<lparr>sk_stage := MGot b\<rparr>]\<rparr>) =
    (view w)\<lparr>vw_socks := (vw_socks (view w))[i := (vw_socks (view w) ! i)\<lparr>vs_stage := VGot pool_New\<rparr>]\<rparr>"
proof -
  let ?s = "wd_socks w ! i" let ?h = "wd_mem w" let ?h' = "store (wd_mem w) (wd_next w) 0 pool_New"
  have F: "fresh_cells (wd_next w) (wd_next w + 1) (slice_cells b)"
    by (auto simp: fresh_cells_def slice_cells_def b count_cells [simplified])
  have mem: "\<forall>b' j. ?h' b' j \<noteq> ?h b' j \<longrightarrow> (b', j) \<in># {#} + slice_cells b"
    by (auto simp: store_def slice_cells_def b pool_New_def split: if_splits)
  have mem': "\<forall>b' j. ?h' b' j \<noteq> ?h b' j \<longrightarrow> (b', j) \<in># sock_total ?s + slice_cells b"
    using mem by force
  note frame = view_frame [OF inv i F mem']
  have ok: "slice_ok (sk_cache ?s)" "slice_ok (sk_read ?s)" using sock_ok_nth [OF inv i] by (simp_all add: sock_ok_def)
  have own: "contents ?h' s = contents ?h s" if "s \<in> {sk_cache ?s, sk_read ?s}" for s
    by (rule own_frame [OF inv i F mem]) (use that in \<open>auto simp: sock_total_def stage full_split ok ac_simps\<close>)
  have "contents ?h' b = pool_New"
    using contents_stored [of ?h "wd_next w" 0 pool_New] by (simp add: b pool_New_def)
  then have "view_of_sock ?h' (?s\<lparr>sk_stage := MGot b\<rparr>) = (view_of_sock ?h ?s)\<lparr>vs_stage := VGot pool_New\<rparr>"
    using own by (simp add: view_of_sock_def)
  then show ?thesis
    by (simp add: view_def view_socks_put [OF i frame(2)] frame(1) i del: map_update map_eq_conv)
qed

lemma view_nth: "i < length (wd_socks w) \<Longrightarrow> vw_socks (view w) ! i = view_of_sock (wd_mem w) (wd_socks w ! i)"
  by (simp add: view_def)

lemma view_fields [simp]:
  "length (vw_socks (view w)) = length (wd_socks w)" "length (vw_pool (view w)) = length (wd_pool w)"
  "vs_stage (view_of_sock h s) = view_of_stage h (sk_stage s)" "vs_read (view_of_sock h s) = contents h (sk_read s)"
  by (simp_all add: view_def view_of_sock_def)

text \<open>The simulation; a handler that keeps a slice changes nothing in the view.\<close>

lemma view_simulates: "mem_step w w' \<Longrightarrow> mem_inv w \<Longrightarrow> view_step (view w) (view w') \<or> view w' = view w"
proof (induction rule: mem_step.induct)
  case (m_open w)
  have "view (w\<lparr>wd_socks := wd_socks w @ [new_mem_sock]\<rparr>) =
      (view w)\<lparr>vw_socks := vw_socks (view w) @ [\<lparr>vs_cache = [], vs_read = [], vs_stage = VIdle\<rparr>]\<rparr>"
    by (simp add: view_def view_of_sock_def new_mem_sock_def contents_def nil_slice_def)
  then show ?case using v_open by simp
next
  case (m_get i w k)
  have "view (w\<lparr>wd_pool := take k (wd_pool w) @ drop (Suc k) (wd_pool w),
      wd_socks := (wd_socks w)[i := (wd_socks w ! i)\<lparr>sk_stage := MGot (wd_pool w ! k)\<rparr>]\<rparr>) =
    \<lparr>vw_pool = take k (vw_pool (view w)) @ drop (Suc k) (vw_pool (view w)),
      vw_socks = (vw_socks (view w))[i := (vw_socks (view w) ! i)\<lparr>vs_stage := VGot (vw_pool (view w) ! k)\<rparr>]\<rparr>"
    using m_get.hyps by (simp add: view_def view_of_sock_def take_map drop_map map_update)
  with m_get.hyps v_get [of i "view w" k] show ?case by (simp add: view_nth)
next
  case (m_new i w b)
  with v_new [of i "view w"] show ?case unfolding view_m_new [OF m_new.prems m_new.hyps] by (simp add: view_nth)
next
  case (m_read i w b data)
  with v_read [of i "view w" "contents (wd_mem w) b" data] show ?case
    by (simp add: view_nth view_m_read [OF m_read.prems m_read.hyps])
next
  case (m_put i w b n extra)
  have n: "n \<le> sl_len b" using sock_ok_nth [OF m_put.prems m_put.hyps(1)] m_put.hyps(2) by (simp add: sock_ok_def)
  then have "contents (wd_mem w) (reslice b n (sl_len b)) = drop n (contents (wd_mem w) b)" by (simp add: contents_reslice)
  moreover have "view (sock_put extra i xs (\<lambda>s. s\<lparr>sk_stage := MPut b n\<rparr>) w) =
      view_put i xs (\<lambda>v. v\<lparr>vs_stage := VPut (contents (wd_mem w) b) n\<rparr>) (view w)" for xs
  proof -
    have "view (sock_put extra i xs (\<lambda>s. s\<lparr>sk_stage := MPut b n\<rparr>) w) =
        view_put i xs (\<lambda>v. v\<lparr>vs_stage := (case vs_stage v of VRead c n \<Rightarrow> VPut c n | st \<Rightarrow> st)\<rparr>) (view w)"
      by (rule view_sock_put [OF m_put.prems m_put.hyps(1)]) (simp add: view_of_sock_def m_put.hyps(2))
    then show ?thesis using m_put.hyps by (simp add: view_put_def view_nth Let_def view_of_sock_def)
  qed
  ultimately show ?case using m_put.hyps v_put [of i "view w" "contents (wd_mem w) b" n] by (simp add: view_nth)
next
  case (m_append i w b n extra)
  have n: "n \<le> sl_len b" using sock_ok_nth [OF m_append.prems m_append.hyps(1)] m_append.hyps(2) by (simp add: sock_ok_def)
  then have "contents (wd_mem w) (reslice b 0 n) = take n (contents (wd_mem w) b)" by (simp add: contents_reslice)
  with v_append [of i "view w" "contents (wd_mem w) b" n] m_append.hyps show ?case
    by (simp add: view_nth view_sock_append [OF m_append.prems m_append.hyps])
next
  case (m_hold i w lo hi v)
  show ?case by (simp add: view_def)
next
  case (m_use i w n extra)
  let ?r = "sk_read (wd_socks w ! i)"
  have "contents (wd_mem w) (reslice ?r 0 n) = take n (contents (wd_mem w) ?r)" using m_use.hyps(4) by (simp add: contents_reslice)
  moreover have "view (sock_put extra i xs (\<lambda>s. s\<lparr>sk_read := reslice (sk_read s) n (sl_len (sk_read s))\<rparr>) w) =
      view_put i xs (\<lambda>v. v\<lparr>vs_read := drop n (vs_read v)\<rparr>) (view w)" for xs
    by (rule view_sock_put [OF m_use.prems m_use.hyps(1)]) (use m_use.hyps(4) in \<open>simp add: view_of_sock_def contents_reslice\<close>)
  ultimately show ?case using m_use.hyps v_use [of i "view w" n] by (simp add: view_nth)
next
  case (m_wait i w)
  have "view (set_sock i ((wd_socks w ! i)\<lparr>sk_stage := MIdle\<rparr>) w) =
      (view w)\<lparr>vw_socks := (vw_socks (view w))[i := (vw_socks (view w) ! i)\<lparr>vs_stage := VIdle\<rparr>]\<rparr>"
    using m_wait.hyps by (simp add: set_sock_def view_def view_of_sock_def map_update)
  with m_wait.hyps v_wait [of i "view w"] show ?case by (simp add: view_nth)
next
  case (m_gc k w)
  have "view (w\<lparr>wd_pool := take k (wd_pool w) @ drop (Suc k) (wd_pool w)\<rparr>) =
      (view w)\<lparr>vw_pool := take k (vw_pool (view w)) @ drop (Suc k) (vw_pool (view w))\<rparr>"
    by (simp add: view_def take_map drop_map)
  with m_gc.hyps v_gc [of k "view w"] show ?case by simp
qed

section \<open>Properties\<close>

text \<open>The places in memory that are in use: the buffers of the pool, and of each socket the two growing slices with their capacity and the buffer.\<close>

definition whole :: "slice \<Rightarrow> slice" where
  "whole s = s\<lparr>sl_len := sl_cap s\<rparr>"

definition in_use :: "read_world \<Rightarrow> slice list" where
  "in_use w = wd_pool w @ concat (map (\<lambda>s. whole (sk_cache s) # whole (sk_read s) # stage_buf (sk_stage s)) (wd_socks w))"

lemma in_use_cells: "pool_cells (in_use w) = pool_cells (wd_pool w) + sum_list (map sock_total (wd_socks w))"
proof -
  have whole: "slice_cells (whole s) = full_cells s" for s by (simp add: whole_def slice_cells_def full_cells_def)
  have "pool_cells (concat (map (\<lambda>s. whole (sk_cache s) # whole (sk_read s) # stage_buf (sk_stage s)) ss)) = sum_list (map sock_total ss)" for ss
    by (induction ss) (simp_all add: sock_total_def whole ac_simps)
  then show ?thesis by (simp add: in_use_def)
qed

lemma pool_cells_apart:
  assumes "count (pool_cells bs) x \<le> 1" and "p < q" and "q < length bs" and "x \<in># slice_cells (bs ! p)"
  shows "x \<notin># slice_cells (bs ! q)"
proof -
  have p: "p < length bs" using assms(2,3) by simp
  have "bs ! q \<in> set (drop (Suc p) bs)"
    using assms(2,3) by (auto simp: in_set_conv_nth intro: exI [of _ "q - Suc p"])
  then have "slice_cells (bs ! q) \<subseteq># pool_cells (take p bs @ drop (Suc p) bs)"
    by (auto simp: pool_cells_def in_set_conv_decomp)
  moreover have "x \<notin># pool_cells (take p bs @ drop (Suc p) bs)"
    using count_twice [of "slice_cells (bs ! p)" _ x] assms(1,4) pool_cells_nth [OF p] by metis
  ultimately show ?thesis using mset_subset_eqD by metis
qed

text \<open>C5.
  The memory of the read loops is safe. However many sockets share the pool and however their reads, handlers and the garbage
  collector interleave, no two places in use overlap: no buffer is handed to two sockets, nor does an append of one
  write into what another reads; and a slice of the cache that a handler has kept, the payload of a message for
  instance, shows for ever what it showed then.
\<close>

theorem read_memory_safe:
  assumes "reachable mem_init mem_step w"
  shows "(\<forall>p q x. p < q \<and> q < length (in_use w) \<longrightarrow> \<not> (x \<in># slice_cells (in_use w ! p) \<and> x \<in># slice_cells (in_use w ! q)))
    \<and> (\<forall>(s, c) \<in> set (wd_held w). contents (wd_mem w) s = c)"
proof -
  have inv: "mem_inv w" by (rule mem.inv_reachable [OF assms])
  have "count (pool_cells (in_use w)) x \<le> 1" for x
    using inv unfolding in_use_cells world_total [OF inv, symmetric] mem_inv_def by blast
  with inv pool_cells_apart show ?thesis by (fastforce simp: mem_inv_def list_all_iff held_ok_def)
qed

text \<open>C15.
  Working with contents is right: whatever the read loops do in memory is, on the contents of the pool's buffers, the caches and
  the buffers in use, a step of the model with contents alone, with \<open>put\<close> the one of \<open>Buffer_Pool\<close>, whatever spare
  capacity the appends are given.
\<close>

theorem read_memory_refines:
  assumes "reachable mem_init mem_step w" and "mem_step w w'"
  shows "view_step (view w) (view w') \<or> view w' = view w"
  using view_simulates [OF assms(2) mem.inv_reachable [OF assms(1)]] .

text \<open>A socket that takes a new buffer and reads two bytes.\<close>

definition zero_memory :: memory where
  "zero_memory = (\<lambda>_ _. 0)"

definition fresh_buf :: slice where
  "fresh_buf = \<lparr>sl_blk = 0, sl_off = 0, sl_len = readBufferSize, sl_cap = readBufferSize\<rparr>"

definition got_world :: read_world where
  "got_world = \<lparr>wd_mem = store zero_memory 0 0 pool_New, wd_next = 1, wd_pool = [],
     wd_socks = [new_mem_sock\<lparr>sk_stage := MGot fresh_buf\<rparr>], wd_held = []\<rparr>"

definition got_world' :: read_world where
  "got_world' = got_world\<lparr>wd_mem := store (wd_mem got_world) 0 0 [7, 8], wd_socks := [new_mem_sock\<lparr>sk_stage := MRead fresh_buf 2\<rparr>]\<rparr>"

lemma got_world_reachable: "reachable mem_init mem_step got_world"
proof -
  let ?w0 = "empty_world zero_memory"
  have "mem_step ?w0 (?w0\<lparr>wd_socks := [new_mem_sock]\<rparr>)" using m_open [of ?w0] by (simp add: empty_world_def)
  moreover have "mem_step (?w0\<lparr>wd_socks := [new_mem_sock]\<rparr>) got_world"
    using m_new [of 0 "?w0\<lparr>wd_socks := [new_mem_sock]\<rparr>" fresh_buf]
    by (simp add: empty_world_def new_mem_sock_def fresh_buf_def got_world_def)
  moreover have "mem_init ?w0" by (auto simp: mem_init_def)
  ultimately show ?thesis by (blast intro: reach_init reach_step)
qed

lemma got_world_reads: "mem_step got_world got_world'"
  using m_read [of 0 got_world fresh_buf "[7, 8]"]
  by (simp add: got_world_def got_world'_def new_mem_sock_def fresh_buf_def readBufferSize_def numeral_2_eq_2)

theorem read_memory_safe_witness:
  "\<not> ((0, 0) \<in># slice_cells (in_use got_world ! 0) \<and> (0, 0) \<in># slice_cells (in_use got_world ! 2))"
proof -
  have "(0 :: nat) < 2 \<and> 2 < length (in_use got_world)" by (simp add: in_use_def got_world_def new_mem_sock_def)
  with read_memory_safe [OF got_world_reachable] show ?thesis by blast
qed

theorem read_memory_refines_witness:
  "view_step (view got_world) (view got_world') \<or> view got_world' = view got_world"
  by (rule read_memory_refines [OF got_world_reachable got_world_reads])

end
