(* ===== verification/Cmd_Tcp_Echo.thy ===== *)
theory Cmd_Tcp_Echo
  imports Xregistry Xcommon Go_Strings
begin

text \<open>
  The two programs \<open>cmd/tcp_cli\<close> and \<open>cmd/tcp_svr\<close>: clients that send the time over TCP, a server that sends every payload
  back, and the delay the clients add up from the answers. The sockets and the framing are those of \<open>Tcp_Socket\<close>,
  \<open>Stream_Read\<close> and \<open>Xmsg_Codec\<close>; here are the handlers and the client program's goroutines.
\<close>

section \<open>The server\<close>

text \<open>\<open>TcpState\<close> is the connection's socket; \<open>send\<close> is its \<open>SendMsg\<close>. An error of the send is logged.\<close>

record 's TcpState =
  tv_sock :: 's

definition svr_OnConnect :: "'s \<Rightarrow> 's TcpState" where
  "svr_OnConnect sock = \<lparr>tv_sock = sock\<rparr>"

definition svr_OnMsg :: "'s sock_send \<Rightarrow> 's TcpState msg_handler" where
  "svr_OnMsg send s arg =
     (case PackMsg \<lparr>paSeq = 0, paCmd = 0, paFlag = 0, paPayload = maPayload arg\<rparr> of
        Inl err \<Rightarrow> Ret (s, Some err)
      | Inr msg \<Rightarrow> (case send (tv_sock s) msg of (err, sock) \<Rightarrow> Ret (s\<lparr>tv_sock := sock\<rparr>, None)))"

section \<open>The client\<close>

text \<open>
  \<open>TcpClientState\<close>. \<open>clock\<close> is \<open>time.Now().UnixMilli()\<close> at its successive readings and \<open>tc_reads\<close>, which is not in the code, how often
  this connection read it.
\<close>

record TcpClientState =
  tc_delay :: i64
  tc_count :: u32
  tc_reads :: nat

definition cli_OnConnect :: TcpClientState where
  "cli_OnConnect = \<lparr>tc_delay = 0, tc_count = 0, tc_reads = 0\<rparr>"

definition cli_OnMsg :: "(nat \<Rightarrow> i64) \<Rightarrow> TcpClientState msg_handler" where
  "cli_OnMsg clock state arg =
     (case Atoi (string_of (maPayload arg)) of
        Some n \<Rightarrow> Ret (state\<lparr>tc_delay := tc_delay state + (clock (tc_reads state) - word_of_int n),
                          tc_count := tc_count state + 1, tc_reads := Suc (tc_reads state)\<rparr>, None)
      | None \<Rightarrow> Ret (state, None))"

text \<open>The message a client sends at a time, and the server's answer to a message.\<close>

definition ping :: "i64 \<Rightarrow> pack_msg_args" where
  "ping now = \<lparr>paSeq = 0, paCmd = 0, paFlag = 0, paPayload = bytes_of (itoa (sint now))\<rparr>"

definition echo_of :: "pack_msg_args \<Rightarrow> pack_msg_args" where
  "echo_of arg = \<lparr>paSeq = 0, paCmd = 0, paFlag = 0, paPayload = paPayload arg\<rparr>"

lemma echo_of_ping [simp]: "echo_of (ping t) = ping t"
  by (simp add: echo_of_def ping_def)

lemma fits_ping [simp]: "fits (ping t)"
  using length_itoa_i64 [of t] by (simp add: fits_def ping_def)

lemma deliver_svr:
  "deliver logged (svr_OnMsg send) s args rest =
     Waiting (s\<lparr>tv_sock := foldl (\<lambda>k m. snd (send k m)) (tv_sock s) (map (packed \<circ> echo_of) args)\<rparr>) rest"
proof (induction args arbitrary: s)
  case (Cons arg args)
  have "svr_OnMsg send s (received arg) = Ret (s\<lparr>tv_sock := snd (send (tv_sock s) (packed (echo_of arg)))\<rparr>, None)"
    by (simp add: svr_OnMsg_def received_def echo_of_def packed_def PackMsg_def split: prod.split)
  with Cons show ?case by simp
qed simp

lemma deliver_cli:
  "deliver logged (cli_OnMsg clock) state (map ping ts) rest =
     Waiting \<lparr>tc_delay = tc_delay state + (\<Sum>i < length ts. clock (tc_reads state + i) - ts ! i),
              tc_count = tc_count state + of_nat (length ts), tc_reads = tc_reads state + length ts\<rparr> rest"
proof (induction ts arbitrary: state)
  case (Cons t ts)
  have "cli_OnMsg clock state (received (ping t)) =
      Ret (state\<lparr>tc_delay := tc_delay state + (clock (tc_reads state) - t), tc_count := tc_count state + 1,
                 tc_reads := Suc (tc_reads state)\<rparr>, None)"
    by (simp add: cli_OnMsg_def received_def ping_def)
  with Cons show ?case
    by (simp add: sum.lessThan_Suc_shift algebra_simps del: sum.lessThan_Suc)
qed simp

text \<open>C4.
  The echo programs end to end. However the network cuts the bytes of the client's messages, the server answers each with the
  same message, in order; and however it cuts the answers, the client's state holds the number of
  answers and the sum of their delays, each the time it came minus the time the message was made (both
  counters in their width), and nothing is left in either cache.
\<close>

theorem tcp_echo_measures:
  assumes "\<forall>k m. send k m \<in> set (tcp_SendMsg k m)" and "\<not> ts_closeCh sock" and "ts_writeCh sock = []"
    and "length ts \<le> writeChanLimit" and "concat (map snd cs) = concat (map (packed \<circ> ping) ts)"
  shows "\<exists>sock'. erase_read (tcp_read_loop (ParseMsgWarp (svr_OnMsg send)) (new_reader (svr_OnConnect sock) pool)
        (map (\<lambda>(buf, data). ReadOk buf data) cs)) = Waiting \<lparr>tv_sock = sock'\<rparr> []
    \<and> ts_writeCh sock' = map (packed \<circ> ping) ts
    \<and> (\<forall>cs'. concat (map snd cs') = concat (ts_writeCh sock') \<longrightarrow>
         erase_read (tcp_read_loop (ParseMsgWarp (cli_OnMsg clock)) (new_reader cli_OnConnect pool')
           (map (\<lambda>(buf, data). ReadOk buf data) cs')) =
         Waiting \<lparr>tc_delay = (\<Sum>i < length ts. clock i - ts ! i), tc_count = of_nat (length ts), tc_reads = length ts\<rparr> [])"
proof -
  let ?sock = "foldl (\<lambda>k m. snd (send k m)) sock (map (packed \<circ> ping) ts)"
  have fit: "list_all fits (map ping ts)" "fits (ping 0)" "0 < length (packed (ping 0))"
    by (simp_all add: list_all_iff length_packed HeaderSizeof_def)
  have "erase_read (tcp_read_loop (ParseMsgWarp (svr_OnMsg send)) (new_reader (svr_OnConnect sock) pool)
        (map (\<lambda>(buf, data). ReadOk buf data) cs)) = Waiting \<lparr>tv_sock = ?sock\<rparr> []"
    using read_messages [OF fit, of cs "svr_OnMsg send" "svr_OnConnect sock" pool] assms(5)
    by (simp add: deliver_svr svr_OnConnect_def comp_def)
  moreover have "ts_writeCh ?sock = map (packed \<circ> ping) ts"
    using tcp_sends_room [OF assms(1,2), of "map (packed \<circ> ping) ts"] assms(3,4) by simp
  moreover have "erase_read (tcp_read_loop (ParseMsgWarp (cli_OnMsg clock)) (new_reader cli_OnConnect pool')
           (map (\<lambda>(buf, data). ReadOk buf data) cs')) =
         Waiting \<lparr>tc_delay = (\<Sum>i < length ts. clock i - ts ! i), tc_count = of_nat (length ts), tc_reads = length ts\<rparr> []"
    if "concat (map snd cs') = concat (map (packed \<circ> ping) ts)" for cs'
    using read_messages [OF fit, of cs' "cli_OnMsg clock" cli_OnConnect pool'] that
    by (simp add: deliver_cli cli_OnConnect_def)
  ultimately show ?thesis by (intro exI [of _ ?sock]) simp
qed

theorem tcp_echo_measures_witness:
  "\<exists>sock'. erase_read (tcp_read_loop (ParseMsgWarp (svr_OnMsg first_send)) (new_reader (svr_OnConnect newTCPSocket) [])
        [ReadOk pool_New (take 17 (packed (ping 1000))), ReadOk pool_New (drop 17 (packed (ping 1000)))]) = Waiting \<lparr>tv_sock = sock'\<rparr> []
    \<and> erase_read (tcp_read_loop (ParseMsgWarp (cli_OnMsg (\<lambda>i. 1007))) (new_reader cli_OnConnect [])
        [ReadOk pool_New (concat (ts_writeCh sock'))]) = Waiting \<lparr>tc_delay = 7, tc_count = 1, tc_reads = 1\<rparr> []"
proof -
  have send: "\<forall>k m. first_send k m \<in> set (tcp_SendMsg k m)"
    using tcp_port.never_blocks by (simp add: first_send_def)
  from tcp_echo_measures [OF send, of newTCPSocket "[1000]"
      "[(pool_New, take 17 (packed (ping 1000))), (pool_New, drop 17 (packed (ping 1000)))]" "[]" "\<lambda>i. 1007" "[]"]
  obtain sock' where s: "erase_read (tcp_read_loop (ParseMsgWarp (svr_OnMsg first_send)) (new_reader (svr_OnConnect newTCPSocket) [])
        [ReadOk pool_New (take 17 (packed (ping 1000))), ReadOk pool_New (drop 17 (packed (ping 1000)))]) = Waiting \<lparr>tv_sock = sock'\<rparr> []"
    and c: "\<And>cs'. concat (map snd cs') = concat (ts_writeCh sock') \<Longrightarrow>
         erase_read (tcp_read_loop (ParseMsgWarp (cli_OnMsg (\<lambda>i. 1007))) (new_reader cli_OnConnect [])
           (map (\<lambda>(buf, data). ReadOk buf data) cs')) = Waiting \<lparr>tc_delay = 7, tc_count = 1, tc_reads = 1\<rparr> []"
    by (auto simp: newTCPSocket_def writeChanLimit_def)
  from s c [of "[(pool_New, concat (ts_writeCh sock'))]"] show ?thesis by auto
qed

end
