(* ===== verification/Tcp_Cli_Start.thy ===== *)
theory Tcp_Cli_Start
  imports Xcommon
begin

text \<open>
  \<open>TClient.Start\<close> of \<open>cmd/tcp_cli/client.go\<close>: the loop that opens the clients and starts a goroutine for each, those goroutines, and the
  wait for them with the wait group of \<open>Xcommon\<close>. A goroutine sends 10000 messages and closes its client; that
  \<open>Close\<close> of a TCP client returns is a theorem of \<open>Tcp_Socket\<close>.
\<close>

section \<open>State\<close>

text \<open>
  \<open>Start\<close> at the test of its loop with the index, before \<open>wg.Add\<close>, before the \<open>go\<close> statement, in \<open>wg.Wait\<close>, and returned. A
  sender with the number of messages it has sent, in \<open>cli.Close\<close>, before the deferred \<open>wg.Done\<close>, gone.
\<close>

datatype start_pc = StLoop int | StAdd int | StGo int | StWait | StReturned

datatype sender_pc = SnSend nat | SnClose | SnDone | SnExit

definition messages :: nat where "messages = 10000"

record tclient =
  tl_pc :: start_pc
  tl_wg :: WaitGroup
  tl_clis :: nat
  tl_senders :: "sender_pc list"
  tl_panic :: "go_panic option"

definition NewTClient :: tclient where
  "NewTClient = \<lparr>tl_pc = StLoop 0, tl_wg = wg_new, tl_clis = 0, tl_senders = [], tl_panic = None\<rparr>"

section \<open>Steps\<close>

text \<open>Whether packing or sending a message fails does not matter, it is logged. A panic ends the process.\<close>

definition tl_wg_set :: "WaitGroup go \<Rightarrow> tclient \<Rightarrow> tclient" where
  "tl_wg_set r s = (case r of Ret wg \<Rightarrow> s\<lparr>tl_wg := wg\<rparr> | Panic p \<Rightarrow> s\<lparr>tl_panic := Some p\<rparr>)"

inductive start_step :: "int \<Rightarrow> tclient \<Rightarrow> tclient \<Rightarrow> bool" for Num where
  st_new: "tl_panic s = None \<Longrightarrow> tl_pc s = StLoop i \<Longrightarrow> i < Num \<Longrightarrow>
    start_step Num s (s\<lparr>tl_clis := tl_clis s + 1, tl_pc := StAdd i\<rparr>)"
| st_failed: "tl_panic s = None \<Longrightarrow> tl_pc s = StLoop i \<Longrightarrow> i < Num \<Longrightarrow> start_step Num s (s\<lparr>tl_pc := StLoop (i + 1)\<rparr>)"
| st_add: "tl_panic s = None \<Longrightarrow> tl_pc s = StAdd i \<Longrightarrow> start_step Num s (tl_wg_set (wg_Add 1 (tl_wg s)) (s\<lparr>tl_pc := StGo i\<rparr>))"
| st_go: "tl_panic s = None \<Longrightarrow> tl_pc s = StGo i \<Longrightarrow>
    start_step Num s (s\<lparr>tl_senders := tl_senders s @ [SnSend 0], tl_pc := StLoop (i + 1)\<rparr>)"
| st_last: "tl_panic s = None \<Longrightarrow> tl_pc s = StLoop i \<Longrightarrow> \<not> i < Num \<Longrightarrow> start_step Num s (s\<lparr>tl_pc := StWait\<rparr>)"
| st_wait: "tl_panic s = None \<Longrightarrow> tl_pc s = StWait \<Longrightarrow> wg_Wait_returns (tl_wg s) \<Longrightarrow> start_step Num s (s\<lparr>tl_pc := StReturned\<rparr>)"
| sn_send: "tl_panic s = None \<Longrightarrow> j < length (tl_senders s) \<Longrightarrow> tl_senders s ! j = SnSend k \<Longrightarrow> k < messages \<Longrightarrow>
    start_step Num s (s\<lparr>tl_senders := (tl_senders s)[j := SnSend (k + 1)]\<rparr>)"
| sn_sent: "tl_panic s = None \<Longrightarrow> j < length (tl_senders s) \<Longrightarrow> tl_senders s ! j = SnSend k \<Longrightarrow> \<not> k < messages \<Longrightarrow>
    start_step Num s (s\<lparr>tl_senders := (tl_senders s)[j := SnClose]\<rparr>)"
| sn_closed: "tl_panic s = None \<Longrightarrow> j < length (tl_senders s) \<Longrightarrow> tl_senders s ! j = SnClose \<Longrightarrow>
    start_step Num s (s\<lparr>tl_senders := (tl_senders s)[j := SnDone]\<rparr>)"
| sn_done: "tl_panic s = None \<Longrightarrow> j < length (tl_senders s) \<Longrightarrow> tl_senders s ! j = SnDone \<Longrightarrow>
    start_step Num s (tl_wg_set (wg_Done None (tl_wg s)) (s\<lparr>tl_senders := (tl_senders s)[j := SnExit]\<rparr>))"

section \<open>Invariant\<close>

text \<open>The counter counts the senders that run and the one about to be started.\<close>

fun alive :: "sender_pc list \<Rightarrow> nat" where
  "alive [] = 0"
| "alive (p # ps) = (if p = SnExit then 0 else 1) + alive ps"

fun starting :: "start_pc \<Rightarrow> nat" where
  "starting (StGo i) = 1"
| "starting _ = 0"

fun opened :: "start_pc \<Rightarrow> nat" where
  "opened (StAdd i) = 1"
| "opened (StGo i) = 1"
| "opened _ = 0"

fun index_ok :: "int \<Rightarrow> start_pc \<Rightarrow> nat \<Rightarrow> bool" where
  "index_ok Num (StLoop i) n = (int n \<le> i \<and> i \<le> max 0 Num)"
| "index_ok Num (StAdd i) n = (int n \<le> i \<and> i < Num)"
| "index_ok Num (StGo i) n = (int n \<le> i \<and> i < Num)"
| "index_ok Num p n = (int n \<le> max 0 Num)"

fun sender_ok :: "sender_pc \<Rightarrow> bool" where
  "sender_ok (SnSend k) = (k \<le> messages)"
| "sender_ok _ = True"

definition start_inv :: "int \<Rightarrow> tclient \<Rightarrow> bool" where
  "start_inv Num s \<longleftrightarrow> tl_panic s = None
     \<and> wg_count (tl_wg s) = int (alive (tl_senders s)) + int (starting (tl_pc s))
     \<and> tl_clis s = length (tl_senders s) + opened (tl_pc s)
     \<and> index_ok Num (tl_pc s) (length (tl_senders s))
     \<and> list_all sender_ok (tl_senders s)
     \<and> (tl_pc s = StReturned \<longrightarrow> alive (tl_senders s) = 0)"

lemma alive_append [simp]: "alive (ps @ qs) = alive ps + alive qs"
  by (induction ps) simp_all

lemma alive_update:
  "j < length ps \<Longrightarrow> ps ! j \<noteq> SnExit \<Longrightarrow> alive (ps[j := p]) + 1 = alive ps + (if p = SnExit then 0 else 1)"
  by (induction ps arbitrary: j) (auto split: nat.splits simp: nth_Cons)

lemma alive_pos: "j < length ps \<Longrightarrow> ps ! j \<noteq> SnExit \<Longrightarrow> 0 < alive ps"
  by (induction ps arbitrary: j) (auto split: nat.splits simp: nth_Cons)

lemma alive_0: "alive ps = 0 \<longleftrightarrow> set ps \<subseteq> {SnExit}"
  by (induction ps) auto

lemma list_all_update: "list_all P xs \<Longrightarrow> P x \<Longrightarrow> list_all P (xs[j := x])"
  by (auto simp: list_all_iff dest: set_update_subset_insert [THEN subsetD])

lemma sender_put_inv:
  assumes "start_inv Num s" and "j < length (tl_senders s)" and "tl_senders s ! j \<noteq> SnExit" and "p \<noteq> SnExit" and "sender_ok p"
  shows "start_inv Num (s\<lparr>tl_senders := (tl_senders s)[j := p]\<rparr>)"
  using assms alive_update [OF assms(2,3), of p] alive_pos [OF assms(2,3)] by (simp add: start_inv_def list_all_update)

lemma start_step_inv: "start_step Num s t \<Longrightarrow> start_inv Num s \<Longrightarrow> start_inv Num t"
proof (induction rule: start_step.induct)
  case (st_go s i)
  then show ?case by (simp add: start_inv_def)
next
  case (st_wait s)
  then show ?case by (simp add: start_inv_def wg_Wait_returns_def)
next
  case (sn_send s j k)
  then show ?case by (intro sender_put_inv) simp_all
next
  case (sn_sent s j k)
  then show ?case by (intro sender_put_inv) simp_all
next
  case (sn_closed s j)
  then show ?case by (intro sender_put_inv) simp_all
next
  case (sn_done s j)
  then have e: "tl_senders s ! j \<noteq> SnExit" by simp
  from sn_done alive_update [OF sn_done(2) e, of SnExit] alive_pos [OF sn_done(2) e] show ?case
    by (simp add: start_inv_def wg_Done_def wg_Add_def tl_wg_set_def list_all_update)
qed (auto simp: start_inv_def wg_Add_def tl_wg_set_def)

lemma NewTClient_inv: "start_inv Num NewTClient"
  by (simp add: start_inv_def NewTClient_def wg_new_def)

section \<open>Progress\<close>

text \<open>How many steps a sender and the main loop have left, a sender of its own included in each round.\<close>

fun sender_rank :: "sender_pc \<Rightarrow> nat" where
  "sender_rank (SnSend k) = messages - k + 3"
| "sender_rank SnClose = 2"
| "sender_rank SnDone = 1"
| "sender_rank SnExit = 0"

fun start_rank :: "int \<Rightarrow> start_pc \<Rightarrow> nat" where
  "start_rank Num (StLoop i) = nat (Num - i) * (messages + 7) + 2"
| "start_rank Num (StAdd i) = nat (Num - i - 1) * (messages + 7) + messages + 8"
| "start_rank Num (StGo i) = nat (Num - i - 1) * (messages + 7) + messages + 7"
| "start_rank Num StWait = 1"
| "start_rank Num StReturned = 0"

definition tclient_rank :: "int \<Rightarrow> tclient \<Rightarrow> nat" where
  "tclient_rank Num s = start_rank Num (tl_pc s) + sum_list (map sender_rank (tl_senders s))"

lemma sender_rank_update:
  "j < length ps \<Longrightarrow> sender_rank p < sender_rank (ps ! j) \<Longrightarrow>
     sum_list (map sender_rank (ps[j := p])) < sum_list (map sender_rank ps)"
proof (induction ps arbitrary: j)
  case (Cons q ps)
  then show ?case by (cases j) fastforce+
qed simp

lemma loop_rank: "i < Num \<Longrightarrow> nat (Num - i) * (messages + 7) = nat (Num - i - 1) * (messages + 7) + messages + 7"
proof -
  assume "i < Num"
  then have "nat (Num - i) = Suc (nat (Num - i - 1))" by linarith
  then show ?thesis by simp
qed

lemma start_step_rank: "start_step Num s t \<Longrightarrow> start_inv Num s \<Longrightarrow> tclient_rank Num t < tclient_rank Num s"
proof (induction rule: start_step.induct)
  case (st_new s i)
  then show ?case by (simp add: tclient_rank_def loop_rank)
next
  case (st_failed s i)
  then show ?case using loop_rank [of i Num] by (simp add: tclient_rank_def algebra_simps)
next
  case (st_go s i)
  then show ?case by (simp add: tclient_rank_def algebra_simps)
next
  case (sn_send s j k)
  then show ?case using sender_rank_update [of j "tl_senders s" "SnSend (k + 1)"] by (simp add: tclient_rank_def)
next
  case (sn_sent s j k)
  then show ?case using sender_rank_update [of j "tl_senders s" SnClose] by (simp add: tclient_rank_def)
next
  case (sn_closed s j)
  then show ?case using sender_rank_update [of j "tl_senders s" SnDone] by (simp add: tclient_rank_def)
next
  case (sn_done s j)
  then show ?case using sender_rank_update [of j "tl_senders s" SnExit]
    by (simp add: tclient_rank_def tl_wg_set_def split: go.split)
qed (simp_all add: tclient_rank_def tl_wg_set_def wg_Add_def start_inv_def)

lemma start_step_enabled:
  assumes "start_inv Num s" and "0 < tclient_rank Num s"
  shows "\<exists>t. start_step Num s t"
proof -
  have run: "tl_panic s = None" using assms(1) by (simp add: start_inv_def)
  show ?thesis
  proof (cases "tl_pc s")
    case (StLoop i)
    with run st_new [of s i Num] st_last [of s i Num] show ?thesis by blast
  next
    case (StAdd i)
    with run st_add show ?thesis by blast
  next
    case (StGo i)
    with run st_go show ?thesis by blast
  next
    case (StWait)
    show ?thesis
    proof (cases "alive (tl_senders s) = 0")
      case True
      with StWait assms(1) have "wg_Wait_returns (tl_wg s)" by (simp add: start_inv_def wg_Wait_returns_def)
      with run StWait st_wait show ?thesis by blast
    next
      case False
      then obtain j where j: "j < length (tl_senders s)" "tl_senders s ! j \<noteq> SnExit"
        by (auto simp: alive_0 in_set_conv_nth subset_iff)
      show ?thesis
      proof (cases "tl_senders s ! j")
        case (SnSend k)
        with run j sn_send [of s j k Num] sn_sent [of s j k Num] show ?thesis by blast
      next
        case SnClose
        with run j sn_closed show ?thesis by blast
      next
        case SnDone
        with run j sn_done show ?thesis by blast
      qed (use j in simp)
    qed
  next
    case StReturned
    with assms have "set (tl_senders s) \<subseteq> {SnExit}" by (simp add: start_inv_def alive_0)
    then have "map sender_rank (tl_senders s) = map (\<lambda>_. 0) (tl_senders s)" by (intro map_cong) auto
    with StReturned assms(2) show ?thesis by (simp add: tclient_rank_def)
  qed
qed

interpretation start: progress_measure "\<lambda>s. s = NewTClient" "start_step Num" "start_inv Num" "start_step Num" "tclient_rank Num"
  for Num
  using NewTClient_inv start_step_inv start_step_rank start_step_enabled by unfold_locales auto

section \<open>Properties\<close>

lemma rank_0_returned: "tclient_rank Num s = 0 \<Longrightarrow> tl_pc s = StReturned"
  by (cases "tl_pc s") (simp_all add: tclient_rank_def)

text \<open>C18.
  \<open>Start\<close> waits for its clients and returns. However opening, sending and the goroutines interleave, the wait group never goes
  below zero; when \<open>Start\<close> has returned it started a goroutine for each client that could be opened, at most \<open>Num\<close> of
  them, and each of those has sent its messages and closed its client; and from every point every run is finite, of at most
  \<open>tclient_rank\<close> steps, and ends with the return.
\<close>

theorem tcp_cli_start_returns:
  assumes "reachable (\<lambda>s. s = NewTClient) (start_step Num) s"
  shows "tl_panic s = None
    \<and> (tl_pc s = StReturned \<longrightarrow> set (tl_senders s) \<subseteq> {SnExit} \<and> tl_clis s = length (tl_senders s)
         \<and> int (tl_clis s) \<le> max 0 Num)
    \<and> runs_end (start_step Num) (\<lambda>t. tl_pc t = StReturned) s
    \<and> (\<forall>t. start_step Num s t \<longrightarrow> tclient_rank Num t < tclient_rank Num s)"
proof -
  have inv: "start_inv Num s" by (rule start.inv_reachable [OF assms])
  have "runs_end (start_step Num) (\<lambda>t. tl_pc t = StReturned) s"
    by (rule start.every_run_ends [OF inv]) (rule rank_0_returned)
  with inv start_step_rank show ?thesis by (auto simp: start_inv_def alive_0)
qed

theorem tcp_cli_start_returns_witness:
  "\<exists>t. steps (start_step 2) (NewTClient\<lparr>tl_pc := StLoop 1\<rparr>) t \<and> tl_pc t = StReturned"
proof -
  have "start_step 2 NewTClient (NewTClient\<lparr>tl_pc := StLoop 1\<rparr>)"
    using st_failed [of NewTClient 0 2] by (simp add: NewTClient_def)
  then have "reachable (\<lambda>s. s = NewTClient) (start_step 2) (NewTClient\<lparr>tl_pc := StLoop 1\<rparr>)"
    by (blast intro: reach_init reach_step)
  from tcp_cli_start_returns [OF this] show ?thesis by (blast dest: runs_end_reaches)
qed

end
