(* ===== verification/Cmd_Udp.thy ===== *)
theory Cmd_Udp
  imports Udp_Session Xmsg_Codec Xregistry Tun_Registry Latency_Mock Go_Strings Xcommon
begin

text \<open>
  The programs over UDP: \<open>cmd/udp_svr\<close>, which answers messages, \<open>cmd/udp_cli\<close>, which sends numbered ones, and the \<open>main\<close> of
  the tunnel \<open>cmd/udp_tun\<close>. A datagram reaches a handler through the read buffer of \<open>udp_socket.go\<close> and a session, which calls the handler once.
\<close>

section \<open>Datagrams\<close>

text \<open>\<open>ReadFromUDP\<close> fills the buffer of \<open>readBufferSize\<close> bytes and discards the rest of the datagram.\<close>

definition udp_read :: "bytes \<Rightarrow> bytes" where
  "udp_read datagram = take readBufferSize datagram"

text \<open>What the parser makes of a datagram: it panics, sees no whole message, or hands on the first.\<close>

definition datagram_negative :: "bytes \<Rightarrow> bool" where
  "datagram_negative d \<longleftrightarrow> HeaderSizeof \<le> length d \<and> sint (Len (head_of d)) < 0"

definition datagram_whole :: "bytes \<Rightarrow> bool" where
  "datagram_whole d \<longleftrightarrow> HeaderSizeof \<le> length d \<and> 0 \<le> sint (Len (head_of d))
     \<and> int HeaderSizeof + sint (Len (head_of d)) \<le> int (length d)"

section \<open>The server\<close>

text \<open>The state is the socket; every message is answered with the same text, an error of the send is logged.\<close>

definition usvr_answer :: bytes where
  "usvr_answer = packed \<lparr>paSeq = 0, paCmd = 0, paFlag = 0, paPayload = bytes_of ''svr data''\<rparr>"

definition usvr_OnMsg :: "'s sock_send \<Rightarrow> 's msg_handler" where
  "usvr_OnMsg send s arg =
     (case PackMsg \<lparr>paSeq = 0, paCmd = 0, paFlag = 0, paPayload = bytes_of ''svr data''\<rparr> of
        Inl err \<Rightarrow> Ret (s, Some err)
      | Inr msg \<Rightarrow> (case send s msg of (err, s) \<Rightarrow> Ret (s, None)))"

text \<open>The state after an answer.\<close>

definition usvr_reply :: "'s sock_send \<Rightarrow> 's \<Rightarrow> 's" where
  "usvr_reply send s = snd (send s usvr_answer)"

lemma usvr_OnMsg_eq: "usvr_OnMsg send s arg = Ret (usvr_reply send s, None)"
  by (simp add: usvr_reply_def usvr_OnMsg_def usvr_answer_def packed_def PackMsg_def split: prod.split)

lemma usvr_parse:
  "ParseMsgWarp (usvr_OnMsg send) s d =
     (if datagram_negative d then Panic SliceBounds
      else if datagram_whole d then Ret (usvr_reply send s, int HeaderSizeof + sint (Len (head_of d)), None)
      else Ret (s, 0, None))"
  by (cases d rule: parse_cases) (auto simp: parse_simps datagram_negative_def datagram_whole_def usvr_OnMsg_eq)

text \<open>
  The UDP server on any datagrams of a session: one that begins with a whole message is answered, exactly once however many
  messages it holds; any other is dropped, and what it holds is not put together with the next; the first
  with a negative length ends the process.
\<close>

theorem udp_svr_answers_once:
  "serve (ParseMsgWarp (usvr_OnMsg send)) s ds =
     (if \<exists>d \<in> set ds. datagram_negative d then Panic SliceBounds
      else Ret (((usvr_reply send) ^^ length (filter datagram_whole ds)) s, None, []))"
proof (induction ds arbitrary: s)
  case (Cons d ds)
  have neg: "\<not> datagram_whole d" if "datagram_negative d"
    using that by (simp add: datagram_negative_def datagram_whole_def)
  show ?case using Cons neg by (auto simp: usvr_parse funpow_swap1)
qed simp

theorem udp_svr_answers_once_witness:
  "serve (ParseMsgWarp (usvr_OnMsg (\<lambda>n m. (None, n + 1)))) (0 :: nat)
     [packed \<lparr>paSeq = 1, paCmd = 2, paFlag = 0, paPayload = [7]\<rparr> @ packed \<lparr>paSeq = 2, paCmd = 2, paFlag = 0, paPayload = []\<rparr>,
      [1, 2, 3]] = Ret (1, None, [])"
proof -
  let ?a = "\<lparr>paSeq = 1, paCmd = 2, paFlag = 0, paPayload = [7]\<rparr>"
  let ?d = "packed ?a @ packed \<lparr>paSeq = 2, paCmd = 2, paFlag = 0, paPayload = []\<rparr>"
  have "sint (Len (pack_header ?a)) = 1" by (subst sint_pack_header) (simp_all add: fits_def)
  then have "datagram_whole ?d" "\<not> datagram_negative ?d" "\<not> datagram_whole [1, 2, 3]" "\<not> datagram_negative [1, 2, 3]"
    unfolding datagram_whole_def datagram_negative_def by (simp_all add: length_packed HeaderSizeof_def)
  then show ?thesis by (simp add: udp_svr_answers_once usvr_reply_def del: serve.simps)
qed

text \<open>C39.
  A message that is longer than the read buffer does not arrive over UDP: the datagram is cut, the parser sees
  a part of a message only, and the session goes on with the state it had, with no error anywhere. One that fits is handled
  whole.
\<close>

theorem udp_truncates_large_messages:
  assumes "fits arg"
  shows "session_handle (ParseMsgWarp fn) st (udp_read (packed arg)) s =
    (if readBufferSize < HeaderSizeof + length (paPayload arg)
     then s\<lparr>se_handled := se_handled s @ [udp_read (packed arg)], se_pc := SHLoop st\<rparr>
     else session_handle (\<lambda>st _. go_bind (fn st (received arg)) (\<lambda>(st', err). Ret (st', int (length (packed arg)), err)))
            st (packed arg) s)"
proof (cases "readBufferSize < HeaderSizeof + length (paPayload arg)")
  case True
  then have "ParseMsgWarp fn st (udp_read (packed arg)) = Ret (st, 0, None)"
    unfolding udp_read_def by (intro parse_prefix_waits assms) (simp add: length_packed)
  with True show ?thesis by (simp add: session_handle_def Let_def)
next
  case False
  then have "udp_read (packed arg) = packed arg" by (simp add: udp_read_def length_packed)
  with False parse_packed_eq [OF assms, of fn st "[]"] show ?thesis by (simp add: session_handle_def)
qed

theorem udp_truncates_large_messages_witness:
  "se_pc (session_handle (ParseMsgWarp (\<lambda>st a. Ret (st + 1, None))) (5 :: nat)
     (udp_read (packed \<lparr>paSeq = 0, paCmd = 0, paFlag = 0, paPayload = replicate 1009 0\<rparr>)) (NewUDPSession ''a'' 0)) = SHLoop 5"
proof -
  have "fits \<lparr>paSeq = 0, paCmd = 0, paFlag = 0, paPayload = replicate 1009 0\<rparr>" by (simp add: fits_def)
  from udp_truncates_large_messages [OF this, of "\<lambda>st a. Ret (st + 1, None)" "5 :: nat" "NewUDPSession ''a'' 0"] show ?thesis by (simp add: readBufferSize_def HeaderSizeof_def)
qed

section \<open>The client\<close>

text \<open>The messages of the client's loop, \<open>cli data 0\<close> to \<open>cli data 9999\<close>; each fits a read buffer.\<close>

definition ucli_msg :: "nat \<Rightarrow> pack_msg_args" where
  "ucli_msg i = \<lparr>paSeq = 0, paCmd = 0, paFlag = 0, paPayload = bytes_of (''cli data '' @ itoa (int i))\<rparr>"

definition ucli_msgs :: "bytes list" where
  "ucli_msgs = map (packed \<circ> ucli_msg) [0..<10000]"

lemma ucli_msg_size: "i < 10000 \<Longrightarrow> length (paPayload (ucli_msg i)) \<le> 13"
  using length_decimal [of 4 i] by (simp add: ucli_msg_def itoa_def)

lemma ucli_msg_whole: "i < 10000 \<Longrightarrow> datagram_whole (udp_read (packed (ucli_msg i))) \<and> \<not> datagram_negative (udp_read (packed (ucli_msg i)))"
proof -
  assume i: "i < 10000"
  have read: "udp_read (packed (ucli_msg i)) = packed (ucli_msg i)"
    using ucli_msg_size [OF i] by (simp add: udp_read_def length_packed HeaderSizeof_def readBufferSize_def)
  have "fits (ucli_msg i)" using ucli_msg_size [OF i] by (simp add: fits_def)
  then have "sint (Len (pack_header (ucli_msg i))) = int (length (paPayload (ucli_msg i)))" by (rule sint_pack_header)
  then show ?thesis using head_of_packed [of "ucli_msg i" "[]"]
    by (simp add: read datagram_whole_def datagram_negative_def length_packed)
qed

text \<open>The two programs together: every message of the client that arrives is answered once.\<close>

lemma udp_programs:
  assumes "set ds \<subseteq> set ucli_msgs"
  shows "serve (ParseMsgWarp (usvr_OnMsg send)) s (map udp_read ds)
    = Ret (((usvr_reply send) ^^ length ds) s, None, [])"
  using assms
proof (induction ds arbitrary: s)
  case (Cons d ds)
  then obtain i where "i < 10000" "d = packed (ucli_msg i)" by (auto simp: ucli_msgs_def)
  with ucli_msg_whole [of i] Cons show ?case by (simp add: usvr_parse funpow_swap1)
qed simp

text \<open>
  \<open>main\<close> of the client, given what the dial gave: the error it panics with, or the client, over whose \<open>SendMsg\<close> the loop runs
  (an error of a send is logged), and which \<open>Close\<close> ends. \<open>Recover\<close> passes a panic on.
\<close>

fun ucli_loop :: "'s sock_send \<Rightarrow> nat list \<Rightarrow> 's \<Rightarrow> 's go" where
  "ucli_loop send [] cli = Ret cli"
| "ucli_loop send (i # is) cli =
     (case PackMsg (ucli_msg i) of
        Inl err \<Rightarrow> Panic (UserPanic ''pack'')
      | Inr msg \<Rightarrow> (case send cli msg of (err, cli) \<Rightarrow> ucli_loop send is cli))"

definition ucli_main :: "'s sock_send \<Rightarrow> ('s \<Rightarrow> 's) \<Rightarrow> go_panic + 's \<Rightarrow> 's go" where
  "ucli_main send close dial =
     (let body = (case dial of
            Inl err \<Rightarrow> Panic err
          | Inr cli \<Rightarrow> go_bind (ucli_loop send [0..<10000] cli) (\<lambda>cli. Ret (close cli))) in
      go_bind (go_defer body Recover) (\<lambda>_. body))"

lemma ucli_loop_sends: "ucli_loop send is cli = Ret (foldl (\<lambda>s i. snd (send s (packed (ucli_msg i)))) cli is)"
  by (induction "is" arbitrary: cli) (simp_all add: PackMsg_def packed_def split: prod.split)

text \<open>The client program panics only when the dial fails; else it sends its messages in order, whatever the sends return, and closes.\<close>

theorem ucli_main_sends:
  "ucli_main send close (Inr cli) = Ret (close (foldl (\<lambda>s m. snd (send s m)) cli ucli_msgs))"
  "ucli_main send close (Inl err) = Panic err"
  by (simp_all add: ucli_main_def ucli_loop_sends Recover_def ucli_msgs_def foldl_map Let_def del: upt_Suc upt_rec_numeral)

section \<open>The tunnel\<close>







end
