(* ===== verification/Xlog.thy ===== *)
theory Xlog
  imports Go_Strings
begin

text \<open>
  The logger of \<open>pkg/xlog\<close>: loggers bound to contexts (\<open>context.go\<close>), the names and colours of levels (\<open>level.go\<close>,
  \<open>color.go\<close>), and the logger \<open>init.go\<close> makes. What is used of \<open>zap\<close> and \<open>ecszap\<close> is a parameter.
\<close>

section \<open>Contexts\<close>

text \<open>
  \<open>context.WithValue\<close> on top of a context without values. A key is a typed constant, so only this package's \<open>loggerKey\<close>
  equals itself; other packages have keys of their own. A value is a \<open>Logger\<close> or something else.
\<close>

datatype 'l ctx_value = LoggerValue 'l | OtherValue nat

datatype ctx_key = LoggerKey | CustomLoggerKey | OtherKey nat

datatype 'l ctx = Background | WithValue "'l ctx" ctx_key "'l ctx_value"

fun ctx_Value :: "'l ctx \<Rightarrow> ctx_key \<Rightarrow> 'l ctx_value option" where
  "ctx_Value Background k = None"
| "ctx_Value (WithValue ctx k' v) k = (if k' = k then Some v else ctx_Value ctx k)"

text \<open>A nil context is \<open>None\<close>; \<open>context.WithValue\<close> panics on it.\<close>

definition context_WithValue :: "'l ctx option \<Rightarrow> ctx_key \<Rightarrow> 'l ctx_value \<Rightarrow> 'l ctx go" where
  "context_WithValue parent k v =
     (case parent of None \<Rightarrow> Panic (UserPanic ''cannot create context from nil parent'') | Some ctx \<Rightarrow> Ret (WithValue ctx k v))"

section \<open>Loggers in contexts\<close>

definition Get :: "'l \<Rightarrow> 'l ctx option \<Rightarrow> 'l" where
  "Get gLogger ctx =
     (case ctx of None \<Rightarrow> gLogger
      | Some c \<Rightarrow> (case ctx_Value c LoggerKey of Some (LoggerValue ctxLogger) \<Rightarrow> ctxLogger | _ \<Rightarrow> gLogger))"

definition NewContext :: "('l \<Rightarrow> 'f list \<Rightarrow> 'l) \<Rightarrow> 'l \<Rightarrow> 'l ctx option \<Rightarrow> 'f list \<Rightarrow> 'l ctx go" where
  "NewContext With gLogger ctx fields = context_WithValue ctx LoggerKey (LoggerValue (With (Get gLogger ctx) fields))"

definition FromContext :: "('l \<Rightarrow> 'f list \<Rightarrow> 'l) \<Rightarrow> 'l \<Rightarrow> 'l ctx option \<Rightarrow> 'l ctx option \<Rightarrow> 'f list \<Rightarrow> 'l ctx go" where
  "FromContext With gLogger srcCtx destCtx fields =
     (let srcLogger = Get gLogger srcCtx in
      context_WithValue destCtx LoggerKey (LoggerValue (With srcLogger fields)))"

text \<open>
  The logger of a derived context is the source's with the fields added, everything else in the context is the destination's,
  and any source will do. A nil destination panics, although \<open>Get\<close> itself accepts a nil context.
\<close>

theorem context_logger:
  "case FromContext With gLogger src dest fields of
     Panic p \<Rightarrow> dest = None
   | Ret c \<Rightarrow> \<exists>d. dest = Some d \<and> Get gLogger (Some c) = With (Get gLogger src) fields
       \<and> (\<forall>k. k \<noteq> LoggerKey \<longrightarrow> ctx_Value c k = ctx_Value d k)"
  "NewContext With gLogger ctx fields = FromContext With gLogger ctx ctx fields"
  by (cases dest) (simp_all add: FromContext_def NewContext_def context_WithValue_def Get_def)

text \<open>Fields of nested contexts accumulate in the order they were given.\<close>

fun new_contexts :: "('l \<Rightarrow> 'f list \<Rightarrow> 'l) \<Rightarrow> 'l \<Rightarrow> 'l ctx \<Rightarrow> 'f list list \<Rightarrow> 'l ctx go" where
  "new_contexts With gLogger c [] = Ret c"
| "new_contexts With gLogger c (fs # fss) = go_bind (NewContext With gLogger (Some c) fs) (\<lambda>c. new_contexts With gLogger c fss)"

theorem context_fields_accumulate:
  assumes "\<And>l fs gs. With (With l fs) gs = With l (fs @ gs)" and "\<And>l. With l [] = l"
  shows "\<exists>c'. new_contexts With gLogger c fss = Ret c' \<and> Get gLogger (Some c') = With (Get gLogger (Some c)) (concat fss)"
proof (induction fss arbitrary: c)
  case Nil
  then show ?case by (simp add: assms(2))
next
  case (Cons fs fss)
  have new: "NewContext With gLogger (Some c) fs = Ret (WithValue c LoggerKey (LoggerValue (With (Get gLogger (Some c)) fs)))"
    by (simp add: NewContext_def context_WithValue_def)
  have "Get gLogger (Some (WithValue c LoggerKey (LoggerValue l))) = l" for l by (simp add: Get_def)
  with Cons [of "WithValue c LoggerKey (LoggerValue (With (Get gLogger (Some c)) fs))"] new show ?case
    by (simp add: assms(1))
qed

section \<open>Levels\<close>

text \<open>\<open>zapcore.Level\<close> is an \<open>int8\<close>, so levels are ordered as signed integers.\<close>

datatype level = Level (level_word: "8 word")

instantiation level :: linorder
begin

definition less_eq_level :: "level \<Rightarrow> level \<Rightarrow> bool" where
  "less_eq_level a b \<longleftrightarrow> sint (level_word a) \<le> sint (level_word b)"

definition less_level :: "level \<Rightarrow> level \<Rightarrow> bool" where
  "less_level a b \<longleftrightarrow> sint (level_word a) < sint (level_word b)"

instance
proof
  show "a = b" if "a \<le> b" "b \<le> a" for a b :: level
  proof (rule level.expand, rule iffD2 [OF word_eq_iff_signed])
    show "sint (level_word a) = sint (level_word b)" using that by (simp add: less_eq_level_def)
  qed
qed (auto simp: less_eq_level_def less_level_def)

end

definition DebugLevel :: level where "DebugLevel = Level (-1)"
definition InfoLevel :: level where "InfoLevel = Level 0"
definition WarnLevel :: level where "WarnLevel = Level 1"
definition ErrorLevel :: level where "ErrorLevel = Level 2"

lemmas level_defs = DebugLevel_def InfoLevel_def WarnLevel_def ErrorLevel_def

type_synonym termColor = "8 word"

definition colorRed :: termColor where "colorRed = 31"
definition colorYellow :: termColor where "colorYellow = 33"
definition colorBlue :: termColor where "colorBlue = 34"
definition colorMagenta :: termColor where "colorMagenta = 35"

definition encodeLevel :: "level \<Rightarrow> string \<times> termColor" where
  "encodeLevel l =
     (if l = DebugLevel then (''DEBUG'', colorMagenta)
      else if l = InfoLevel then (''INFO'', colorBlue)
      else if l = WarnLevel then (''WARN'', colorYellow)
      else if l = ErrorLevel then (''ERROR'', colorRed)
      else (''LEVEL('' @ itoa (sint (level_word l)) @ '')'', colorRed))"

text \<open>\<open>fmt.Sprintf("\x1b[%dm%s\x1b[0m", uint8(c), s)\<close>\<close>

definition escape :: string where
  "escape = [char_of (27 :: nat), CHR ''['']"

definition termColor_Add :: "termColor \<Rightarrow> string \<Rightarrow> string" where
  "termColor_Add c s = escape @ itoa (uint c) @ ''m'' @ s @ escape @ ''0m''"

definition customLevelEncoder :: "bool \<Rightarrow> level \<Rightarrow> string" where
  "customLevelEncoder withColor l =
     (case encodeLevel l of (lvlName, color) \<Rightarrow> if withColor then termColor_Add color lvlName else lvlName)"

text \<open>The test of the level enabler made by \<open>initLogger\<close>, which \<open>init\<close> gives the debug level.\<close>

definition level_enabled :: "level \<Rightarrow> level \<Rightarrow> bool" where
  "level_enabled logLvl lvl \<longleftrightarrow> logLvl \<le> lvl"

lemma encodeLevel_inject: "fst (encodeLevel a) = fst (encodeLevel b) \<longleftrightarrow> a = b"
proof
  assume "fst (encodeLevel a) = fst (encodeLevel b)"
  then show "a = b"
    by (cases a; cases b) (auto simp: encodeLevel_def level_defs intro: iffD2 [OF word_eq_iff_signed] split: if_splits)
qed simp

text \<open>A prefix of digits ends at the first other character.\<close>

lemma digits_split:
  "list_all is_digit xs \<Longrightarrow> list_all is_digit ys \<Longrightarrow> \<not> is_digit c \<Longrightarrow> xs @ c # zs = ys @ c # ws \<Longrightarrow> xs = ys \<and> zs = ws"
proof (induction xs arbitrary: ys)
  case Nil
  then show ?case by (cases ys) auto
next
  case (Cons x xs)
  then show ?case by (cases ys) auto
qed

lemma termColor_Add_inject: "termColor_Add c s = termColor_Add d t \<longleftrightarrow> c = d \<and> s = t"
proof
  assume "termColor_Add c s = termColor_Add d t"
  then have "decimal (nat (uint c)) @ CHR ''m'' # s @ escape @ ''0m'' = decimal (nat (uint d)) @ CHR ''m'' # t @ escape @ ''0m''"
    by (simp add: termColor_Add_def itoa_def)
  from digits_split [OF decimal_digits decimal_digits _ this]
  have "nat (uint c) = nat (uint d)" "s = t" by simp_all
  then show "c = d \<and> s = t" by (auto intro: iffD2 [OF word_eq_iff_unsigned])
qed simp

text \<open>
  The enabler of \<open>init\<close>, at the debug level, lets the four methods of \<open>Logger\<close> through; raising it cuts them off in their order.
\<close>

theorem levels_enabled:
  "list_all (level_enabled DebugLevel) [DebugLevel, InfoLevel, WarnLevel, ErrorLevel]"
  "sorted_wrt (<) [DebugLevel, InfoLevel, WarnLevel, ErrorLevel]"
  "level_enabled b l \<and> a \<le> b \<longrightarrow> level_enabled a l"
  by (auto simp: level_enabled_def less_eq_level_def less_level_def level_defs)

text \<open>The printed level tells the level, in colour or not.\<close>

theorem levels_distinct: "customLevelEncoder withColor a = customLevelEncoder withColor b \<longleftrightarrow> a = b"
  using encodeLevel_inject [of a b]
  by (auto simp: customLevelEncoder_def termColor_Add_inject split: prod.splits)

section \<open>The logger the package makes\<close>

definition DPanicLevel :: level where "DPanicLevel = Level 3"

text \<open>\<open>ecszap.EncoderConfig\<close> as far as it is set; \<open>'v\<close> stands for the encoders of \<open>zapcore\<close>.\<close>

record 'v ecs_config =
  EnableName :: bool
  EncodeName :: 'v
  EnableStackTrace :: bool
  EnableCaller :: bool
  EncodeCaller :: 'v
  LineEnding :: string
  EncodeLevel :: "level \<Rightarrow> string"
  EncodeDuration :: 'v

text \<open>What is used of \<open>zap\<close>, \<open>zapcore\<close> and \<open>ecszap\<close>, under its names there, and the standard output.\<close>

record ('v, 'cfg, 'enc, 'sink, 'core, 'opt, 'z) zap_lib =
  FullNameEncoder :: 'v
  ShortCallerEncoder :: 'v
  StringDurationEncoder :: 'v
  ISO8601TimeEncoder :: 'v
  DefaultLineEnding :: string
  ToZapCoreEncoderConfig :: "'v ecs_config \<Rightarrow> 'cfg"
  set_TimeKey :: "string \<Rightarrow> 'cfg \<Rightarrow> 'cfg"
  set_EncodeTime :: "'v \<Rightarrow> 'cfg \<Rightarrow> 'cfg"
  NewJSONEncoder :: "'cfg \<Rightarrow> 'enc"
  NewConsoleEncoder :: "'cfg \<Rightarrow> 'enc"
  Stdout :: 'sink
  NewMultiWriteSyncer :: "'sink list \<Rightarrow> 'sink"
  Lock :: "'sink \<Rightarrow> 'sink"
  NewCore :: "'enc \<Rightarrow> 'sink \<Rightarrow> (level \<Rightarrow> bool) \<Rightarrow> 'core"
  WithCaller :: "bool \<Rightarrow> 'opt"
  AddStacktrace :: "level \<Rightarrow> 'opt"
  zap_New :: "'core \<Rightarrow> 'opt list \<Rightarrow> 'z"

definition FieldTimestamp :: string where "FieldTimestamp = ''log_time''"

definition ecsCompatibleEncoder :: "('v, 'cfg, 'enc, 'sink, 'core, 'opt, 'z) zap_lib \<Rightarrow> bool \<Rightarrow> 'cfg" where
  "ecsCompatibleEncoder zap withColor =
     ToZapCoreEncoderConfig zap
       \<lparr>EnableName = True, EncodeName = FullNameEncoder zap, EnableStackTrace = True, EnableCaller = True,
        EncodeCaller = ShortCallerEncoder zap, LineEnding = DefaultLineEnding zap, EncodeLevel = customLevelEncoder withColor,
        EncodeDuration = StringDurationEncoder zap\<rparr>"

definition getEncoder :: "('v, 'cfg, 'enc, 'sink, 'core, 'opt, 'z) zap_lib \<Rightarrow> bool \<Rightarrow> 'enc" where
  "getEncoder zap isProd =
     (let withColor = (\<not> isProd);
          config = ecsCompatibleEncoder zap withColor;
          config = set_TimeKey zap FieldTimestamp config;
          config = set_EncodeTime zap (ISO8601TimeEncoder zap) config in
      if isProd then NewJSONEncoder zap config else NewConsoleEncoder zap config)"

definition defaultOptions :: "('v, 'cfg, 'enc, 'sink, 'core, 'opt, 'z) zap_lib \<Rightarrow> 'opt list" where
  "defaultOptions zap = [WithCaller zap True, AddStacktrace zap DPanicLevel]"

datatype needStdout = WithStdout | WithoutStdout

text \<open>\<open>xlogger\<close> wraps a logger of \<open>zap\<close>, which \<open>Raw\<close> gives back.\<close>

record 'z xlogger =
  Raw :: 'z

definition newLogger :: "'z \<Rightarrow> 'z xlogger" where
  "newLogger l = \<lparr>Raw = l\<rparr>"

definition initLogger :: "('v, 'cfg, 'enc, 'sink, 'core, 'opt, 'z) zap_lib \<Rightarrow> needStdout \<Rightarrow> level \<Rightarrow> 'z xlogger" where
  "initLogger zap need logLvl =
     (let writerSinker = Lock zap (Stdout zap);
          writerSinker = (if need = WithoutStdout then Lock zap (NewMultiWriteSyncer zap []) else writerSinker);
          core = NewCore zap (getEncoder zap False) writerSinker (level_enabled logLvl) in
      newLogger (zap_New zap core (defaultOptions zap)))"

text \<open>\<open>init\<close>, with the package's \<open>needStdout\<close>, which nothing changes.\<close>

definition gLogger_init :: "('v, 'cfg, 'enc, 'sink, 'core, 'opt, 'z) zap_lib \<Rightarrow> 'z xlogger" where
  "gLogger_init zap = initLogger zap WithStdout DebugLevel"

text \<open>
  A reading of the library in which a logger is a function from the level of an entry to the lines it writes: the core asks the
  enabler, the console puts the level first, the sink keeps what it gets.
\<close>

definition line_zap :: "(unit, level \<Rightarrow> string, level \<Rightarrow> string, string \<Rightarrow> string list, level \<Rightarrow> string list, unit, level \<Rightarrow> string list) zap_lib" where
  "line_zap = \<lparr>FullNameEncoder = (), ShortCallerEncoder = (), StringDurationEncoder = (), ISO8601TimeEncoder = (),
     DefaultLineEnding = [char_of (10 :: nat)], ToZapCoreEncoderConfig = EncodeLevel, set_TimeKey = (\<lambda>_ c. c), set_EncodeTime = (\<lambda>_ c. c),
     NewJSONEncoder = (\<lambda>c l. ''{level:'' @ c l @ ''}''), NewConsoleEncoder = (\<lambda>c. c),
     Stdout = (\<lambda>x. [x]), NewMultiWriteSyncer = (\<lambda>ws x. concat (map (\<lambda>w. w x) ws)), Lock = (\<lambda>w. w),
     NewCore = (\<lambda>e w en l. if en l then w (e l) else []), WithCaller = (\<lambda>_. ()), AddStacktrace = (\<lambda>_. ()),
     zap_New = (\<lambda>c opts. c)\<rparr>"

text \<open>
  The logger of the package writes the entries of its four methods and of every higher level, one line each, which tells the level and is
  coloured; without the standard output it writes nothing.
\<close>

theorem gLogger_lines:
  "Raw (gLogger_init line_zap) l = (if DebugLevel \<le> l then [customLevelEncoder True l] else [])"
  "Raw (initLogger line_zap WithoutStdout lvl) l = []"
  by (simp_all add: gLogger_init_def initLogger_def newLogger_def getEncoder_def ecsCompatibleEncoder_def line_zap_def
      level_enabled_def Let_def)

end
