(* ===== verification/Spec2Isabelle.thy ===== *)
theory Spec2Isabelle
  imports Server_Program Kcp_Timeouts Actor_Manager Latency_Mock Tun_Registry Xregistry Kcp_Client Websocket_Server Latency_Actor
    Read_Memory Cmd_Tcp_Echo Tcp_Cli_Start Cmd_Udp Xcommon Xlog
begin

text \<open>
  A verification of \<open>gotu\<close>, a Go library for network servers, and of the programs built with it.

  \<^bold>\<open>The program.\<close> \<open>src/pkg/xnet\<close> holds sockets, servers and clients for TCP, UDP, KCP and websockets. A socket runs a read and a
  write goroutine; callers put messages into a bounded channel with a non-blocking \<open>select\<close>, the read goroutine hands the
  bytes it gets to a callback \<open>OnHandlerOnce\<close>, and the goroutines end one after the other when a close channel is closed. A server
  keeps a table of sockets or sessions under a mutex and closes them. \<open>src/pkg/xmsg\<close> cuts a byte stream into messages and is such a
  callback; \<open>src/pkg/xregistry\<close> sends the messages on to handlers by their command. \<open>src/pkg/xactor\<close> is an actor with a
  mail box; \<open>src/pkg/xlatency\<close> is an actor that drops and delays datagrams. \<open>src/cmd/udp_tun\<close> puts them together: a UDP server
  whose sessions each have a UDP client and a latency actor between them. \<open>src/cmd/tcp_svr\<close>, \<open>tcp_cli\<close>, \<open>udp_svr\<close> and \<open>udp_cli\<close>
  are echo programs.

  \<^bold>\<open>Conventions.\<close> Machine integers are words of their width, and \<open>sint\<close> reads the signed ones. A panic is a value of \<open>'a go\<close>, an error a
  value of \<open>go_error\<close>, both from \<open>Gotu_Prelude\<close>. Sequential code is functions; goroutines that share state are \<open>inductive\<close> step
  relations on one record, in which every goroutine has a program counter and a step is one goroutine's
  move from one use of shared state to the next. A mutex is the condition that no other counter stands in its region. A pointer that several goroutines
  share is an address of a store. Fields named as history (what was accepted, handled, sent) are
  not in the code; nothing but the theorems reads them. Contexts, the log and the text of errors are left out.

  \<^bold>\<open>Theories, from the bottom.\<close>

  \<^item> \<open>Gotu_Prelude\<close>: bytes, errors, panics, slice expressions, reachability, what every run ends in (\<open>runs_end\<close>), and the contracts
  \<open>inductive_invariant\<close> and \<open>progress_measure\<close>. The step relations below interpret the first, and what ends by a measure the second.
  \<^item> \<open>Go_Binary\<close> (\<open>encoding/binary\<close>, contracts \<open>fixed_codec\<close> and \<open>exact_codec\<close>), \<open>Go_Strings\<close> (conversions, \<open>strconv.Atoi\<close>),
  \<open>Xcommon\<close> (\<open>pkg/xcommon/wait_group.go\<close>, \<open>cast.go\<close>, \<open>table.go\<close>), \<open>Xlog\<close> (\<open>pkg/xlog\<close>).
  \<^item> Reading streams: \<open>Buffer_Pool\<close> (\<open>pkg/xnet/buffer.go\<close>), \<open>Stream_Read\<close> (the \<open>readLoop\<close> of \<open>tcp_socket.go\<close> and \<open>kcp_socket.go\<close> with
  the contract \<open>stream_handler\<close> of a callback), \<open>Read_Memory\<close> (both once more over slices of a shared heap), \<open>Xmsg_Codec\<close>
  (\<open>pkg/xmsg/codec.go\<close>: \<open>PackMsg\<close>, \<open>ParseMsgWarp\<close>).
  \<^item> Sockets: \<open>Send_Port\<close> (the contract of the bounded channel and its \<open>select\<close>), \<open>Tcp_Socket\<close>, \<open>Udp_Socket\<close>, \<open>Udp_Session\<close>,
  \<open>Websocket\<close>, \<open>Kcp_Mux\<close> and \<open>Kcp_Handshake\<close> (the built in protocol of \<open>kcp_mux.go\<close>, at one end and between two), \<open>Kcp_Timeouts\<close> (two ends
  that may stop), \<open>Kcp_Socket\<close>.
  Each has the fields of the Go struct it is named after and one definition for each method.
  \<^item> Servers: \<open>Tcp_Server\<close> and \<open>Tcp_Server_Close\<close>, \<open>Udp_Addr\<close> (the keys of the session table), \<open>Udp_Server\<close> and \<open>Udp_Server_Close\<close>, \<open>Kcp_Server\<close>,
  \<open>Websocket_Server\<close>. Clients: \<open>Udp_Client\<close> (\<open>builtInUDP\<close>), \<open>Net_Clients\<close> with the contract \<open>client_socket\<close>, \<open>Kcp_Client\<close>.
  \<^item> Actors: \<open>Actor_Handler\<close> (\<open>pkg/xactor/handler.go\<close>), \<open>Actor_Loop\<close> (\<open>mailbox.go\<close>, \<open>actor_groutine.go\<close>), \<open>Actor_Manager\<close>
  (\<open>manager.go\<close>), \<open>Latency_Mock\<close> (the methods of \<open>pkg/xlatency/latency.go\<close>), \<open>Latency_Actor\<close> (the methods as handlers of an actor).
  \<^item> Programs: \<open>Xregistry\<close> (\<open>pkg/xregistry\<close>), \<open>Tun_Codec\<close>, \<open>Tun_Snmp\<close> and \<open>Tun_Registry\<close> (\<open>cmd/udp_tun/internal/handlers\<close>),
  \<open>Cmd_Tcp_Echo\<close> and \<open>Tcp_Cli_Start\<close> (\<open>cmd/tcp_cli\<close>, \<open>cmd/tcp_svr\<close>), \<open>Cmd_Udp\<close> (\<open>cmd/udp_svr\<close>, \<open>cmd/udp_cli\<close>, \<open>cmd/udp_tun/main.go\<close>),
  \<open>Server_Program\<close> (the \<open>main\<close> functions of the TCP and UDP servers around \<open>Tcp_Server\<close> and \<open>Udp_Server\<close>, with
  \<open>pkg/xcommon/signal.go\<close> and the contract \<open>closable_server\<close>).

  \<^bold>\<open>What is shown.\<close>

  \<^item> Streams: however the connection cuts the bytes, the read loop with the parser hands over exactly the framed messages, in order, up
  to the first error; packing and parsing are inverse; the whole chain of the echo server and of the echo client's measurement
  follows. In memory, the slices that sockets, pool and handlers hold never overlap, so contents alone are a sound model, and the
  heap refines it.
  \<^item> Sockets: what is written, held and queued is what was accepted, in order; a close sends what was
  accepted and ends both goroutines. For the sockets, the TCP and UDP servers, the programs around them and \<open>TClient.Start\<close> this is
  termination under every schedule: every run of the goroutines' own steps is finite and ends there (\<open>runs_end\<close>). For the others a
  state in which the close has returned can be reached.
  \<^item> KCP: the handshake establishes both ends and the closing handshake ends both when a close is one step, and no end
  ever meets a message it does not accept, even if the other stops at any time; with its two steps apart
  the theorems exhibit the race. \<open>KCPServer.Close\<close> can hang, and the theorem says from where it can never return.
  \<^item> Servers and clients: one running session for each address, no socket lost, \<open>Close\<close> returns, a client has one live socket; and
  the runs in which a start or a close races with a new connection.
  \<^item> Actors: an actor refines a serial machine, a request returns the result of its own mail; the latency actor loses, holds or
  delivers every datagram once, and no type assertion in its handlers fails.
  \<^item> Tunnel: datagrams cross unchanged, the statistics add up, the averages do not overflow.
  \<^item> Errors: the inputs on which the code panics are given exactly (negative lengths, large latencies, a connection that failed, a
  failed reconnection), beside what it drops without an error.

  \<^bold>\<open>Bounds.\<close> There is no fuel: every loop is structural or has a \<open>termination\<close> proof, and loops of goroutines are step
  relations. Channel sizes and other limits are the code's constants (\<open>writeChanLimit\<close>, \<open>udpMsgChanLimit\<close>, \<open>mailMaxCount\<close>,
  \<open>readBufferSize\<close>). Lengths of slices are naturals, taken to fit an \<open>int\<close>, except where the code narrows them to 32 bits.

  \<^bold>\<open>Arguments of the model.\<close> The clock, the generator of \<open>math/rand\<close>, what a connection delivers or refuses, the application's
  callbacks, and what is used of \<open>zap\<close> and \<open>ecszap\<close>. A dial, listen, accept or upgrade gives a new socket or an error at any time.
  KCP is taken to deliver bytes in order and without loss, as it documents.

  \<^bold>\<open>Not modelled.\<close> The implementations of KCP, websockets, HTTP and the operating system's sockets, and their tuning
  parameters; deadlines of reads and writes other than as an error that may come at any time; log
  output; \<open>pkg/xenv\<close>, which is one call of a library, and the \<open>main\<close> of \<open>tcp_cli\<close>, which is that call and \<open>TClient.Start\<close>;
  the cells of the tables the statistics print; \<open>ToString\<close>, which is \<open>fmt\<close>'s formatting;
  the structs that only carry arguments; the accessors \<open>LocalAddr\<close>, \<open>RemoteAddr\<close> and \<open>Raw\<close>; the tests.
\<close>

end
